(* ===== verification/Prelude.thy ===== *)
theory Prelude
  imports Main "HOL-Library.Word"
begin

text \<open>
  Shared vocabulary of the development: the machine integer types of
  \<^verbatim>\<open>include/uix/types.h\<close>, the page constants and rounding helpers, the ways a
  kernel path can stop, and the generic lemmas on words, lists and function updates
  that the component theories use.
\<close>

unbundle bit_operations_syntax

section \<open>Machine integers\<close>

type_synonym u8 = "8 word"
type_synonym u16 = "16 word"
type_synonym u32 = "32 word"
type_synonym u64 = "64 word"
type_synonym paddr = "64 word"
type_synonym vaddr = "64 word"

definition UIX_PAGE_SIZE :: u64 where
  "UIX_PAGE_SIZE = 4096"

definition UIX_PAGE_SHIFT :: nat where
  "UIX_PAGE_SHIFT = 12"

definition UIX_ROUND_UP :: "u64 \<Rightarrow> u64 \<Rightarrow> u64" where
  "UIX_ROUND_UP x a = (x + a - 1) AND NOT (a - 1)"

definition UIX_ROUND_DOWN :: "u64 \<Rightarrow> u64 \<Rightarrow> u64" where
  "UIX_ROUND_DOWN x a = x AND NOT (a - 1)"

definition EPERM :: int where "EPERM = 1"
definition ENOENT :: int where "ENOENT = 2"
definition EIO :: int where "EIO = 5"
definition ENOMEM :: int where "ENOMEM = 12"
definition EFAULT :: int where "EFAULT = 14"
definition EEXIST :: int where "EEXIST = 17"
definition EINVAL :: int where "EINVAL = 22"
definition ENOSPC :: int where "ENOSPC = 28"
definition ENOSYS :: int where "ENOSYS = 38"

text \<open>
  A kernel path that does not return normally: \<^verbatim>\<open>panic\<close> with its format string,
  a dereference of a pointer the code left \<^verbatim>\<open>NULL\<close>, the final \<^verbatim>\<open>hlt\<close> loop,
  a write past the end of a fixed buffer, an access to an object already given back to the
  heap, or an access of the kernel to an address that is not mapped.
\<close>

datatype kerr = Panic string | NullDeref | Halted | BufferOverflow | UseAfterFree | PageFault

type_synonym 'a res = "kerr + 'a"

definition rbind :: "'a res \<Rightarrow> ('a \<Rightarrow> 'b res) \<Rightarrow> 'b res" where
  "rbind r f = (case r of Inl e \<Rightarrow> Inl e | Inr x \<Rightarrow> f x)"

lemma rbind_simps [simp]:
  "rbind (Inl e) f = Inl e"
  "rbind (Inr x) f = f x"
  by (simp_all add: rbind_def)

text \<open>
  Code that contains a loop that may not end gives \<open>None\<close> for not returning.
\<close>

definition obind :: "'a res option \<Rightarrow> ('a \<Rightarrow> 'b res option) \<Rightarrow> 'b res option" where
  "obind r f = (case r of None \<Rightarrow> None | Some (Inl e) \<Rightarrow> Some (Inl e) | Some (Inr x) \<Rightarrow> f x)"

lemma obind_simps [simp]:
  "obind None f = None"
  "obind (Some (Inl e)) f = Some (Inl e)"
  "obind (Some (Inr x)) f = f x"
  by (simp_all add: obind_def)

lemma rbind_eq_Inr: "rbind r f = Inr y \<longleftrightarrow> (\<exists>x. r = Inr x \<and> f x = Inr y)"
  by (cases r) simp_all

text \<open>A loop whose body may stop with an error.\<close>

fun for_res :: "('i \<Rightarrow> 's \<Rightarrow> 's res) \<Rightarrow> 'i list \<Rightarrow> 's \<Rightarrow> 's res" where
  "for_res f [] s = Inr s"
| "for_res f (i # is) s = rbind (f i s) (for_res f is)"

lemma for_res_invariant:
  assumes "for_res f is s = Inr s'" and "P s"
    and "\<And>i t t'. i \<in> set is \<Longrightarrow> P t \<Longrightarrow> f i t = Inr t' \<Longrightarrow> P t'"
  shows "P s'"
  using assms
proof (induction "is" arbitrary: s)
  case (Cons i "is")
  then obtain t where "f i s = Inr t" "for_res f is t = Inr s'" by (auto simp: rbind_eq_Inr)
  with Cons show ?case by auto
qed simp

lemma for_res_upt_invariant:
  assumes "for_res f [a..<b] s = Inr s'" and "a \<le> b" and "P a s"
    and "\<And>i t t'. a \<le> i \<Longrightarrow> i < b \<Longrightarrow> P i t \<Longrightarrow> f i t = Inr t' \<Longrightarrow> P (Suc i) t'"
  shows "P b s'"
  using assms
proof (induction "b - a" arbitrary: a s)
  case (Suc n)
  then have "a < b" by simp
  with Suc.prems obtain t where t: "f a s = Inr t" "for_res f [Suc a..<b] t = Inr s'"
    by (auto simp: upt_conv_Cons rbind_eq_Inr)
  show ?case
    using Suc.hyps(1) [of "Suc a" t] Suc.hyps(2) Suc.prems t \<open>a < b\<close> by auto
qed simp

lemma for_res_total:
  assumes "P s" and "\<And>i t. i \<in> set is \<Longrightarrow> P t \<Longrightarrow> \<exists>t'. f i t = Inr t' \<and> P t'"
  shows "\<exists>s'. for_res f is s = Inr s' \<and> P s'"
  using assms
proof (induction "is" arbitrary: s)
  case (Cons i "is")
  then obtain t where "f i s = Inr t" "P t" by (meson list.set_intros(1))
  with Cons show ?case by auto
qed simp

lemma for_res_error: "for_res f is s = Inl e \<Longrightarrow> \<exists>i t. f i t = Inl e"
  by (induction "is" arbitrary: s) (auto simp: rbind_def split: sum.splits)

section \<open>Collections of facts\<close>

named_theorems uix_const
named_theorems uix_frame

lemmas [uix_const] = UIX_PAGE_SIZE_def UIX_PAGE_SHIFT_def

section \<open>Modular distance between addresses\<close>

text \<open>
  \<open>unat (x - d)\<close> is how far \<open>x\<close> lies above \<open>d\<close>, going round the end of the address
  space if need be. Regions stated with it need no side condition on wrap-around.
\<close>

lemma unat_dist_Suc:
  fixes x d :: "'a::len word"
  assumes "x \<noteq> d"
  shows "unat (x - d) = Suc (unat (x - (d + 1)))"
proof -
  from assms have "x - d \<noteq> 0" by simp
  then have "unat (x - d - 1) = unat (x - d) - 1" and "0 < unat (x - d)"
    by (simp_all add: unat_minus_one unat_gt_0)
  then show ?thesis by (simp add: diff_diff_eq)
qed

lemma unat_dist_rev:
  fixes a b :: "'a::len word"
  assumes "a < b"
  shows "unat (a - b) = 2 ^ LENGTH('a) - (unat b - unat a)"
  using assms by (simp add: unat_sub_if' word_less_nat_alt)

lemma unat_lt_64: "unat (x :: u64) < 2 ^ 64"
  using unsigned_less [of x, where ?'a = nat] by simp

lemma unat_lt_64_num [simp]: "unat (x :: u64) < 18446744073709551616"
  using unat_lt_64 [of x] by simp

lemma unat_le_64_num [simp]: "unat (x :: u64) \<le> 18446744073709551616"
  using unat_lt_64_num [of x] by (rule less_imp_le)

lemma unat_dist_add:
  fixes x d :: u64
  assumes "k < 2 ^ 64"
  shows "unat (x - (d + of_nat k)) =
    (if unat (x - d) < k then unat (x - d) + 2 ^ 64 - k else unat (x - d) - k)"
proof -
  have "unat (y - of_nat k) = (if unat y < k then unat y + 2 ^ 64 - k else unat y - k)" for y :: u64
    using assms by (simp add: unat_sub_if' unat_of_nat)
  from this [of "x - d"] show ?thesis by (simp add: diff_diff_eq)
qed

section \<open>Widening and products\<close>

lemma unat_ucast_up [simp]:
  "LENGTH('a) \<le> LENGTH('b) \<Longrightarrow> unat (ucast (x :: 'a::len word) :: 'b::len word) = unat x"
  by (metis take_bit_nat_eq_self unsigned_less unsigned_ucast_eq power_increasing one_le_numeral
      order.strict_trans2)

lemma unat_mult_add_64:
  fixes a b c :: u64
  assumes "unat a * unat b + unat c < 2 ^ 64"
  shows "unat (a * b + c) = unat a * unat b + unat c"
  using assms by (simp add: unat_word_ariths)

section \<open>Signed reading of 64-bit words\<close>

lemma sint_range_64: "- (2 ^ 63) \<le> sint (v :: u64) \<and> sint v < 2 ^ 63"
  using sint_ge [of v] sint_lt [of v] by simp

lemma unat_sint_nonneg:
  assumes "0 \<le> sint (v :: u64)"
  shows "int (unat v) = sint v"
proof -
  have "take_bit 64 (sint v) = sint v"
    using assms sint_range_64 [of v] by (intro take_bit_int_eq_self) auto
  then have "uint v = sint v" using uint_sint [of v] by simp
  then show ?thesis by simp
qed

lemma unat_uminus_sint:
  assumes "sint (v :: u64) < 0"
  shows "int (unat (- v)) = - sint v"
proof -
  have "- v = word_of_int (- sint v)" by simp
  moreover have "uint (word_of_int (- sint v) :: u64) = (- sint v) mod 2 ^ LENGTH(64)"
    by (rule uint_word_of_int)
  moreover have "(- sint v) mod 2 ^ LENGTH(64) = - sint v"
    using assms sint_range_64 [of v] by (intro mod_pos_pos_trivial) auto
  ultimately have "uint (- v) = - sint v" by metis
  then show ?thesis by simp
qed

end
