(* ===== verification/Lib.thy ===== *)
theory Lib
  imports Prelude
begin

text \<open>
  The freestanding C library of \<^verbatim>\<open>core/lib.c\<close>. Memory is a byte store
  \<open>u64 \<Rightarrow> u8\<close>; a function that writes returns the new store. A function that only
  reads takes the store of each of its pointers, so that it also applies to local
  buffers. Loops that run until a NUL byte may not end, so they are
  \<^theory_text>\<open>partial_function (option)\<close>.
\<close>

type_synonym bytes = "u64 \<Rightarrow> u8"

section \<open>Block operations\<close>

fun memset_loop :: "nat \<Rightarrow> u64 \<Rightarrow> u8 \<Rightarrow> bytes \<Rightarrow> bytes" where
  "memset_loop 0 d c m = m"
| "memset_loop (Suc n) d c m = memset_loop n (d + 1) c (m(d := c))"

definition memset :: "u64 \<Rightarrow> u32 \<Rightarrow> u64 \<Rightarrow> bytes \<Rightarrow> bytes" where
  "memset dst c n m = memset_loop (unat n) dst (ucast c) m"

fun copy_up :: "nat \<Rightarrow> u64 \<Rightarrow> u64 \<Rightarrow> bytes \<Rightarrow> bytes" where
  "copy_up 0 d s m = m"
| "copy_up (Suc n) d s m = copy_up n (d + 1) (s + 1) (m(d := m s))"

fun copy_down :: "nat \<Rightarrow> u64 \<Rightarrow> u64 \<Rightarrow> bytes \<Rightarrow> bytes" where
  "copy_down 0 d s m = m"
| "copy_down (Suc n) d s m = copy_down n (d - 1) (s - 1) (m(d - 1 := m (s - 1)))"

definition memcpy :: "u64 \<Rightarrow> u64 \<Rightarrow> u64 \<Rightarrow> bytes \<Rightarrow> bytes" where
  "memcpy dst src n m = copy_up (unat n) dst src m"

definition memmove :: "u64 \<Rightarrow> u64 \<Rightarrow> u64 \<Rightarrow> bytes \<Rightarrow> bytes" where
  "memmove dst src n m =
     (if dst < src then copy_up (unat n) dst src m
      else if dst > src then copy_down (unat n) (dst + n) (src + n) m
      else m)"

fun memcmp_loop :: "nat \<Rightarrow> bytes \<Rightarrow> u64 \<Rightarrow> bytes \<Rightarrow> u64 \<Rightarrow> int" where
  "memcmp_loop 0 ma a mb b = 0"
| "memcmp_loop (Suc n) ma a mb b =
     (if ma a \<noteq> mb b then uint (ma a) - uint (mb b)
      else memcmp_loop n ma (a + 1) mb (b + 1))"

definition memcmp :: "bytes \<Rightarrow> u64 \<Rightarrow> bytes \<Rightarrow> u64 \<Rightarrow> u64 \<Rightarrow> int" where
  "memcmp ma a mb b n = memcmp_loop (unat n) ma a mb b"

section \<open>Strings\<close>

partial_function (option) strlen_loop :: "bytes \<Rightarrow> u64 \<Rightarrow> u64 \<Rightarrow> u64 option" where
  "strlen_loop m s n = (if m s = 0 then Some n else strlen_loop m (s + 1) (n + 1))"

definition strlen :: "bytes \<Rightarrow> u64 \<Rightarrow> u64 option" where
  "strlen m s = strlen_loop m s 0"

partial_function (option) strcpy_loop :: "u64 \<Rightarrow> u64 \<Rightarrow> bytes \<Rightarrow> bytes option" where
  "strcpy_loop d s m =
     (let c = m s; m' = m(d := c) in
      if c = 0 then Some m' else strcpy_loop (d + 1) (s + 1) m')"

definition strcpy :: "u64 \<Rightarrow> u64 \<Rightarrow> bytes \<Rightarrow> bytes option" where
  "strcpy dst src m = strcpy_loop dst src m"

text \<open>
  \<^verbatim>\<open>while (n && (*d++ = *src++)) n--;\<close> leaves the counter unchanged in the iteration
  that copies the NUL; the padding loop \<^verbatim>\<open>while (n--) *d++ = 0\<close> then runs \<open>n\<close> times.
\<close>

fun strncpy_copy :: "nat \<Rightarrow> u64 \<Rightarrow> u64 \<Rightarrow> bytes \<Rightarrow> nat \<times> u64 \<times> bytes" where
  "strncpy_copy 0 d s m = (0, d, m)"
| "strncpy_copy (Suc n) d s m =
     (let c = m s; m' = m(d := c) in
      if c = 0 then (Suc n, d + 1, m') else strncpy_copy n (d + 1) (s + 1) m')"

definition strncpy :: "u64 \<Rightarrow> u64 \<Rightarrow> u64 \<Rightarrow> bytes \<Rightarrow> bytes" where
  "strncpy dst src n m =
     (case strncpy_copy (unat n) dst src m of (k, d, m') \<Rightarrow> memset_loop k d 0 m')"

partial_function (option) strcmp :: "bytes \<Rightarrow> u64 \<Rightarrow> bytes \<Rightarrow> u64 \<Rightarrow> int option" where
  "strcmp ma a mb b =
     (if ma a \<noteq> 0 \<and> ma a = mb b then strcmp ma (a + 1) mb (b + 1)
      else Some (uint (ma a) - uint (mb b)))"

fun strncmp_loop :: "nat \<Rightarrow> bytes \<Rightarrow> u64 \<Rightarrow> bytes \<Rightarrow> u64 \<Rightarrow> int" where
  "strncmp_loop 0 ma a mb b = 0"
| "strncmp_loop (Suc n) ma a mb b =
     (if ma a \<noteq> 0 \<and> ma a = mb b then strncmp_loop n ma (a + 1) mb (b + 1)
      else uint (ma a) - uint (mb b))"

definition strncmp :: "bytes \<Rightarrow> u64 \<Rightarrow> bytes \<Rightarrow> u64 \<Rightarrow> u64 \<Rightarrow> int" where
  "strncmp ma a mb b n = strncmp_loop (unat n) ma a mb b"

section \<open>Numbers to text\<close>

definition digit_lut :: "bool \<Rightarrow> string" where
  "digit_lut upper = (if upper then ''0123456789ABCDEF'' else ''0123456789abcdef'')"

definition utoa_base :: "u32 \<Rightarrow> u64" where
  "utoa_base base = (if base < 2 \<or> base > 16 then 10 else ucast base)"

text \<open>
  The digits in the order they enter \<^verbatim>\<open>tmp\<close>, least significant first. The clamp on
  the base is what makes the loop end; it is applied before the loop in the code and is
  the argument \<open>utoa_base base\<close> here.
\<close>

function utoa_digits :: "u64 \<Rightarrow> u32 \<Rightarrow> bool \<Rightarrow> string" where
  "utoa_digits v base upper =
     (if v = 0 then []
      else digit_lut upper ! unat (v mod utoa_base base) #
           utoa_digits (v div utoa_base base) base upper)"
  by pat_completeness auto

lemma utoa_base_range: "2 \<le> unat (utoa_base base) \<and> unat (utoa_base base) \<le> 16"
proof (cases "base < 2 \<or> base > 16")
  case False
  then have "2 \<le> unat base" and "unat base \<le> 16"
    by (auto simp: word_less_nat_alt not_less)
  with False show ?thesis
    by (simp add: utoa_base_def unsigned_ucast_eq take_bit_nat_eq_self)
qed (simp add: utoa_base_def)

lemma utoa_base_div: "v \<noteq> 0 \<Longrightarrow> unat (v div utoa_base base) < unat v"
  using utoa_base_range [of base] by (simp add: unat_div unat_gt_0)

termination utoa_digits
  by (relation "measure (\<lambda>(v, base, upper). unat v)") (auto simp: utoa_base_div)

declare utoa_digits.simps [simp del]

text \<open>
  \<^verbatim>\<open>char tmp[32]\<close>: a number with more digits than that would be written past the
  end of the array, which is \<open>None\<close>.
\<close>

definition uix_utoa :: "u64 \<Rightarrow> u32 \<Rightarrow> bool \<Rightarrow> string option" where
  "uix_utoa v base upper =
     (let tmp = (if v = 0 then ''0'' else []) @ utoa_digits v base upper
      in if length tmp \<le> 32 then Some (rev tmp) else None)"

definition uix_itoa :: "u64 \<Rightarrow> u32 \<Rightarrow> string option" where
  "uix_itoa v base =
     (if base = 10 \<and> sint v < 0
      then map_option (\<lambda>s. CHR ''-'' # s) (uix_utoa (- (v + 1) + 1) base False)
      else uix_utoa v base False)"

section \<open>What the block operations compute\<close>

lemma memset_loop_apply:
  "n \<le> 2 ^ 64 \<Longrightarrow> memset_loop n d c m x = (if unat (x - d) < n then c else m x)"
proof (induction n arbitrary: d m)
  case (Suc n)
  then show ?case by (cases "x = d") (auto simp: unat_dist_Suc)
qed simp

lemma memset_apply:
  "memset dst c n m x = (if unat (x - dst) < unat n then ucast c else m x)"
  by (simp add: memset_def memset_loop_apply)

lemma copy_up_apply:
  "n \<le> unat (d - s) \<or> d = s \<Longrightarrow> n \<le> 2 ^ 64 \<Longrightarrow>
   copy_up n d s m x = (if unat (x - d) < n then m (s + (x - d)) else m x)"
proof (induction n arbitrary: d s m)
  case (Suc n)
  let ?m = "m(d := m s)"
  from Suc.prems have pre: "n \<le> unat (d + 1 - (s + 1)) \<or> d + 1 = s + 1" and "n \<le> 2 ^ 64"
    by auto
  then have IH: "copy_up n (d + 1) (s + 1) ?m x =
      (if unat (x - (d + 1)) < n then ?m (s + (x - d)) else ?m x)"
    using Suc.IH [of "d + 1" "s + 1" ?m] by (simp del: fun_upd_apply add: add.assoc)
  show ?case
  proof (cases "x = d")
    case True
    with IH show ?thesis by (auto simp: fun_upd_def)
  next
    case False
    have "?m (s + (x - d)) = m (s + (x - d))" if "unat (x - d) < Suc n"
    proof (cases "d = s")
      case neq: False
      have "s + (x - d) \<noteq> d"
      proof
        assume "s + (x - d) = d"
        then have "x - d = d - s" by (simp add: algebra_simps)
        with that Suc.prems(1) neq show False by simp
      qed
      then show ?thesis by simp
    qed simp
    with False IH show ?thesis by (simp add: unat_dist_Suc)
  qed
qed simp

lemma copy_down_apply:
  "n \<le> unat (s - d) \<or> d = s \<Longrightarrow> n \<le> 2 ^ 64 \<Longrightarrow>
   copy_down n d s m x = (if unat (d - 1 - x) < n then m (s - (d - x)) else m x)"
proof (induction n arbitrary: d s m)
  case (Suc n)
  let ?m = "m(d - 1 := m (s - 1))"
  from Suc.prems have pre: "n \<le> unat (s - 1 - (d - 1)) \<or> d - 1 = s - 1" and "n \<le> 2 ^ 64"
    by auto
  have eq: "s - 1 - (d - 1 - x) = s - (d - x)" by simp
  from pre \<open>n \<le> 2 ^ 64\<close> have IH: "copy_down n (d - 1) (s - 1) ?m x =
      (if unat (d - 1 - 1 - x) < n then ?m (s - (d - x)) else ?m x)"
    using Suc.IH [of "s - 1" "d - 1" ?m] unfolding eq by blast
  show ?case
  proof (cases "x = d - 1")
    case True
    with IH show ?thesis by (auto simp: fun_upd_def)
  next
    case False
    have dist: "unat (d - 1 - x) = Suc (unat (d - 1 - 1 - x))"
      using unat_dist_Suc [of "d - 1" x] False by (simp add: algebra_simps)
    have "?m (s - (d - x)) = m (s - (d - x))" if "unat (d - 1 - x) < Suc n"
    proof (cases "d = s")
      case neq: False
      have "s - (d - x) \<noteq> d - 1"
      proof
        assume "s - (d - x) = d - 1"
        then have "d - 1 - x = s - d" by (simp add: algebra_simps)
        with that Suc.prems(1) neq show False by simp
      qed
      then show ?thesis by simp
    qed simp
    with False IH dist show ?thesis by simp
  qed
qed simp

lemma memcpy_apply:
  assumes "unat n \<le> unat (dst - src) \<or> dst = src"
  shows "memcpy dst src n m x =
    (if unat (x - dst) < unat n then m (src + (x - dst)) else m x)"
  using assms by (simp add: memcpy_def copy_up_apply)

lemma memcmp_loop_zero_iff:
  "memcmp_loop n ma a mb b = 0 \<longleftrightarrow> (\<forall>i < n. ma (a + of_nat i) = mb (b + of_nat i))"
proof (induction n arbitrary: a b)
  case (Suc n)
  show ?case
  proof (cases "ma a = mb b")
    case True
    then have "memcmp_loop (Suc n) ma a mb b = memcmp_loop n ma (a + 1) mb (b + 1)" by simp
    also have "\<dots> = 0 \<longleftrightarrow> (\<forall>i < n. ma (a + of_nat (Suc i)) = mb (b + of_nat (Suc i)))"
      unfolding Suc.IH by (simp add: algebra_simps)
    finally show ?thesis using True by (simp add: All_less_Suc2 del: of_nat_Suc)
  next
    case False
    then have "uint (ma a) \<noteq> uint (mb b)" by (simp add: word_uint_eq_iff)
    with False show ?thesis by (auto intro!: exI [of _ 0])
  qed
qed simp

section \<open>C strings in memory\<close>

text \<open>\<open>cstr m p s\<close>: the NUL-terminated string at \<open>p\<close> is \<open>s\<close>.\<close>

fun cstr :: "bytes \<Rightarrow> u64 \<Rightarrow> u8 list \<Rightarrow> bool" where
  "cstr m p [] \<longleftrightarrow> m p = 0"
| "cstr m p (c # cs) \<longleftrightarrow> c \<noteq> 0 \<and> m p = c \<and> cstr m (p + 1) cs"

lemma cstr_nonzero: "cstr m p s \<Longrightarrow> c \<in> set s \<Longrightarrow> c \<noteq> 0"
  by (induction s arbitrary: p) auto

lemma strlen_loop_cstr: "cstr m p s \<Longrightarrow> strlen_loop m p n = Some (n + of_nat (length s))"
proof (induction s arbitrary: p n)
  case Nil
  then show ?case by (subst strlen_loop.simps) simp
next
  case (Cons c cs)
  then show ?case by (subst strlen_loop.simps) (simp add: algebra_simps)
qed

lemma strlen_cstr: "cstr m p s \<Longrightarrow> strlen m p = Some (of_nat (length s))"
  by (simp add: strlen_def strlen_loop_cstr)

lemma strcmp_cstr:
  "cstr ma a s \<Longrightarrow> cstr mb b t \<Longrightarrow>
   \<exists>r. strcmp ma a mb b = Some r \<and> (r = 0 \<longleftrightarrow> s = t) \<and> (r < 0 \<longleftrightarrow> (s, t) \<in> lexord {(x, y). x < y})"
proof (induction s arbitrary: a b t)
  case Nil
  then have "mb b = 0 \<longleftrightarrow> t = []" by (cases t) auto
  then have "uint (mb b) = 0 \<longleftrightarrow> t = []" by (simp add: unsigned_eq_0_iff)
  with Nil show ?case by (subst strcmp.simps) (cases t; simp add: order_less_le)
next
  case (Cons c cs)
  show ?case
  proof (cases "ma a = mb b")
    case True
    with Cons.prems obtain ds where t: "t = c # ds" by (cases t) auto
    with Cons.prems True have "cstr ma (a + 1) cs" and "cstr mb (b + 1) ds" by auto
    from Cons.IH [OF this] Cons.prems True t show ?thesis
      by (subst strcmp.simps) auto
  next
    case False
    then have ne: "uint (ma a) \<noteq> uint (mb b)" by (simp add: word_uint_eq_iff)
    from Cons.prems False ne show ?thesis
      by (subst strcmp.simps, cases t)
        (auto simp: word_less_def not_less)
  qed
qed

lemma cstr_upd_outside:
  "cstr m p s \<Longrightarrow> length s < unat (d - p) \<Longrightarrow> cstr (m(d := v)) p s"
proof (induction s arbitrary: p)
  case (Cons c cs)
  then have "d \<noteq> p" by auto
  with Cons show ?case by (auto simp: unat_dist_Suc)
qed auto

lemma strcpy_loop_cstr:
  "cstr m src s \<Longrightarrow> Suc (length s) \<le> unat (dst - src) \<Longrightarrow>
   strcpy_loop dst src m = Some (copy_up (Suc (length s)) dst src m)"
proof (induction s arbitrary: dst src m)
  case Nil
  then show ?case by (subst strcpy_loop.simps) (simp add: Let_def)
next
  case (Cons c cs)
  define m' where "m' = m(dst := m src)"
  from Cons.prems have "dst \<noteq> src" by auto
  with Cons.prems have "cstr m' (src + 1) cs"
    unfolding m'_def by (intro cstr_upd_outside) (auto simp: unat_dist_Suc)
  with Cons.prems have "strcpy_loop (dst + 1) (src + 1) m' =
      Some (copy_up (Suc (length cs)) (dst + 1) (src + 1) m')"
    by (intro Cons.IH) auto
  moreover from Cons.prems have "m src \<noteq> 0" by simp
  ultimately show ?case by (subst strcpy_loop.simps) (simp add: Let_def m'_def)
qed

text \<open>
  While the counter lasts, \<^verbatim>\<open>strncpy\<close> copies as \<^verbatim>\<open>memcpy\<close> does. If the NUL of a
  string shorter than the counter is reached, the state handed to the padding loop has
  copied one byte more than the counter was lowered by.
\<close>

lemma strncpy_copy_short:
  "cstr m src s \<Longrightarrow> length s < n \<Longrightarrow> n \<le> unat (dst - src) \<Longrightarrow>
   strncpy_copy n dst src m =
     (n - length s, dst + of_nat (Suc (length s)), copy_up (Suc (length s)) dst src m)"
proof (induction s arbitrary: n dst src m)
  case Nil
  then show ?case by (cases n) (simp_all add: Let_def fun_upd_def)
next
  case (Cons c cs)
  define m' where "m' = m(dst := m src)"
  from Cons.prems obtain k where n: "n = Suc k" by (cases n) auto
  from Cons.prems have "dst \<noteq> src" by auto
  with Cons.prems have "cstr m' (src + 1) cs"
    unfolding m'_def by (intro cstr_upd_outside) (auto simp: unat_dist_Suc)
  with Cons.prems n have "strncpy_copy k (dst + 1) (src + 1) m' =
      (k - length cs, dst + 1 + of_nat (Suc (length cs)),
       copy_up (Suc (length cs)) (dst + 1) (src + 1) m')"
    by (intro Cons.IH) auto
  with Cons.prems n show ?case by (simp add: Let_def algebra_simps m'_def)
qed

lemma cstr_end: "cstr m src s \<Longrightarrow> m (src + of_nat (length s)) = 0"
proof (induction s arbitrary: src)
  case (Cons c cs)
  then have "m (src + 1 + of_nat (length cs)) = 0" by simp
  then show ?case by (simp add: add.assoc)
qed simp

lemma cstr_split:
  "cstr m src s \<Longrightarrow> i < length s \<Longrightarrow> m (src + of_nat i) = s ! i"
proof (induction s arbitrary: src i)
  case (Cons c cs)
  then have "m (src + 1 + of_nat j) = cs ! j" if "i = Suc j" for j
    using that by (intro Cons.IH) auto
  with Cons.prems show ?case by (cases i) (auto simp: algebra_simps)
qed simp

lemma strncpy_copy_long:
  "cstr m src s \<Longrightarrow> n \<le> length s \<Longrightarrow> length s < unat (dst - src) \<Longrightarrow>
   strncpy_copy n dst src m = (0, dst + of_nat n, copy_up n dst src m)"
proof (induction s arbitrary: n dst src m)
  case (Cons c cs)
  define m' where "m' = m(dst := m src)"
  from Cons.prems have "dst \<noteq> src" by auto
  with Cons.prems have "cstr m' (src + 1) cs"
    unfolding m'_def by (intro cstr_upd_outside) (auto simp: unat_dist_Suc)
  with Cons.prems have "strncpy_copy k (dst + 1) (src + 1) m' =
      (0, dst + 1 + of_nat k, copy_up k (dst + 1) (src + 1) m')" if "n = Suc k" for k
    using that by (intro Cons.IH) auto
  with Cons.prems show ?case by (cases n) (auto simp: Let_def algebra_simps m'_def)
qed simp

section \<open>Reading numbers back\<close>

definition digit_val :: "char \<Rightarrow> nat" where
  "digit_val c = (let n = of_char c in
     if n < 58 then n - 48 else if n < 97 then n - 55 else n - 87)"

definition str_value :: "nat \<Rightarrow> string \<Rightarrow> nat" where
  "str_value base s = foldl (\<lambda>v c. v * base + digit_val c) 0 s"

definition int_value :: "string \<Rightarrow> int" where
  "int_value s = (case s of
     [] \<Rightarrow> 0
   | c # cs \<Rightarrow> if c = CHR ''-'' then - int (str_value 10 cs) else int (str_value 10 s))"

fun lsb_value :: "nat \<Rightarrow> string \<Rightarrow> nat" where
  "lsb_value base [] = 0"
| "lsb_value base (c # cs) = digit_val c + base * lsb_value base cs"

lemma str_value_rev: "str_value base (rev ds) = lsb_value base ds"
  by (induction ds) (simp_all add: str_value_def)

lemma digit_lut_val: "k < 16 \<Longrightarrow> digit_val (digit_lut upper ! k) = k"
proof -
  have "\<forall>u. \<forall>k \<in> set [0..<16]. digit_val (digit_lut u ! k) = k" by code_simp
  then show "k < 16 \<Longrightarrow> digit_val (digit_lut upper ! k) = k" by simp
qed

lemma utoa_mod_digit: "unat v mod unat (utoa_base base) < 16"
  using utoa_base_range [of base] mod_less_divisor [of "unat (utoa_base base)" "unat v"]
  by linarith

lemma digit_val_0: "digit_val (CHR ''0'') = 0"
  by (simp add: digit_val_def)

lemma utoa_digits_value:
  "lsb_value (unat (utoa_base base)) (utoa_digits v base upper) = unat v"
proof (induction v base upper rule: utoa_digits.induct)
  case (1 v base upper)
  show ?case
  proof (cases "v = 0")
    case False
    with 1 have "lsb_value (unat (utoa_base base)) (utoa_digits (v div utoa_base base) base upper)
        = unat v div unat (utoa_base base)" by (simp add: unat_div)
    with False show ?thesis
      by (subst utoa_digits.simps) (simp add: digit_lut_val utoa_mod_digit unat_mod)
  qed (simp add: utoa_digits.simps)
qed

lemma utoa_digits_length:
  "unat v < unat (utoa_base base) ^ k \<Longrightarrow> length (utoa_digits v base upper) \<le> k"
proof (induction k arbitrary: v)
  case 0
  then have "v = 0" by (simp add: unat_eq_0)
  then show ?case by (simp add: utoa_digits.simps)
next
  case (Suc k)
  show ?case
  proof (cases "v = 0")
    case False
    from Suc.prems have "unat (v div utoa_base base) < unat (utoa_base base) ^ k"
      using utoa_base_range [of base]
      by (simp add: unat_div less_mult_imp_div_less mult.commute)
    from Suc.IH [OF this] False show ?thesis by (subst utoa_digits.simps) simp
  qed (simp add: utoa_digits.simps)
qed

lemma utoa_digits_nonempty: "v \<noteq> 0 \<Longrightarrow> utoa_digits v base upper \<noteq> []"
  by (subst utoa_digits.simps) simp

lemma uix_utoa_Some:
  assumes "4 \<le> unat (utoa_base base)"
  shows "uix_utoa v base upper = Some (rev ((if v = 0 then ''0'' else []) @ utoa_digits v base upper))"
proof -
  have "unat v < (4::nat) ^ 32" using unat_lt_64 [of v] by simp
  also have "\<dots> \<le> unat (utoa_base base) ^ 32" using assms by (rule power_mono) simp
  finally have "length (utoa_digits v base upper) \<le> 32" by (rule utoa_digits_length)
  then show ?thesis by (simp add: uix_utoa_def Let_def utoa_digits.simps [of 0])
qed

lemma uix_utoa_value:
  "uix_utoa v base upper = Some s \<Longrightarrow> str_value (unat (utoa_base base)) s = unat v"
  using str_value_rev [of "unat (utoa_base base)" "utoa_digits v base upper"]
    str_value_rev [of "unat (utoa_base base)" "''0''"]
  by (auto simp: uix_utoa_def Let_def utoa_digits_value utoa_digits.simps [of 0] digit_val_0
      split: if_splits)

lemma utoa_base_10 [simp]: "utoa_base 10 = 10"
  by (simp add: utoa_base_def)

lemma utoa_base_16 [simp]: "utoa_base 16 = 16"
  by (simp add: utoa_base_def)

lemma uix_utoa_10: "\<exists>s. uix_utoa v 10 upper = Some s \<and> str_value 10 s = unat v"
  using uix_utoa_Some [of 10 v upper] uix_utoa_value [of v 10 upper] by simp

lemma digit_not_minus: "k < 16 \<Longrightarrow> digit_lut upper ! k \<noteq> CHR ''-''"
proof -
  have "\<forall>u. \<forall>k \<in> set [0..<16]. digit_lut u ! k \<noteq> CHR ''-''" by code_simp
  then show "k < 16 \<Longrightarrow> digit_lut upper ! k \<noteq> CHR ''-''" by simp
qed

lemma utoa_digits_no_minus: "CHR ''-'' \<notin> set (utoa_digits v base upper)"
proof (induction v base upper rule: utoa_digits.induct)
  case (1 v base upper)
  have "digit_lut upper ! (unat v mod unat (utoa_base base)) \<noteq> CHR ''-''"
    by (rule digit_not_minus [OF utoa_mod_digit])
  with 1 show ?case by (subst utoa_digits.simps) (auto simp: unat_mod)
qed

lemma uix_utoa_no_minus: "uix_utoa v base upper = Some s \<Longrightarrow> CHR ''-'' \<notin> set s"
  using utoa_digits_no_minus [of v base upper]
  by (auto simp: uix_utoa_def Let_def split: if_splits)

lemma uix_itoa_10:
  "\<exists>s. uix_itoa v 10 = Some s \<and> int_value s = sint v"
proof (cases "sint v < 0")
  case True
  obtain s where s: "uix_utoa (- (v + 1) + 1) 10 False = Some s"
      "str_value 10 s = unat (- (v + 1) + 1)"
    using uix_utoa_10 by blast
  have "int (unat (- (v + 1) + 1)) = - sint v"
    using unat_uminus_sint [OF True] by simp
  with s True show ?thesis by (simp add: uix_itoa_def int_value_def)
next
  case False
  obtain s where s: "uix_utoa v 10 False = Some s" "str_value 10 s = unat v"
    using uix_utoa_10 by blast
  moreover from s(1) have "CHR ''-'' \<notin> set s" by (rule uix_utoa_no_minus)
  moreover from False have "int (unat v) = sint v"
    by (intro unat_sint_nonneg) simp
  ultimately show ?thesis using False
    by (cases s) (auto simp: uix_itoa_def int_value_def str_value_def)
qed

section \<open>Properties\<close>

text \<open>
  Claim C20. \<^verbatim>\<open>memmove\<close> copies \<open>n\<close> bytes correctly for every overlap of source and
  destination: the destination gets the bytes the source held before the call and no
  other byte changes, as long as neither region wraps round the address space.
\<close>

theorem memmove_correct:
  assumes "unat src + unat n \<le> 2 ^ 64" and "unat dst + unat n \<le> 2 ^ 64"
  shows "memmove dst src n m x =
    (if unat (x - dst) < unat n then m (src + (x - dst)) else m x)"
proof (cases dst src rule: linorder_cases)
  case less
  then have "unat n \<le> unat (dst - src)"
    using assms by (simp add: unat_dist_rev word_less_nat_alt)
  with less show ?thesis by (simp add: memmove_def copy_up_apply)
next
  case greater
  then have "unat n \<le> unat (src + n - (dst + n))"
    using assms by (simp add: unat_dist_rev word_less_nat_alt)
  then have "memmove dst src n m x =
      (if unat (dst + n - 1 - x) < unat n then m (src + (x - dst)) else m x)"
    using greater less_not_sym [OF greater] by (simp add: memmove_def copy_down_apply)
  moreover have "unat (dst + n - 1 - x) < unat n \<longleftrightarrow> unat (x - dst) < unat n"
  proof -
    have "dst + n - 1 - x = n - 1 - (x - dst)" by simp
    moreover have "unat (n - 1 - k) < unat n \<longleftrightarrow> unat k < unat n" for k
      by unat_arith
    ultimately show ?thesis by metis
  qed
  ultimately show ?thesis by simp
qed (simp add: memmove_def)

theorem memmove_correct_witness:
  "unat (16 :: u64) + unat (8 :: u64) \<le> 2 ^ 64 \<and> unat (20 :: u64) + unat (8 :: u64) \<le> 2 ^ 64 \<and>
   memmove 20 16 8 (\<lambda>a. ucast a) 27 = 23"
  using memmove_correct [of 16 8 20 "\<lambda>a. ucast a" 27] by simp

text \<open>
  Claim C29. \<^verbatim>\<open>strncpy\<close> with a string shorter than \<open>n\<close> stores the string and pads with
  NULs, but it writes \<open>n + 1\<close> bytes: the byte at \<open>dst + n\<close>, one past the caller's
  buffer, is overwritten with 0.
\<close>

theorem strncpy_overruns_by_one:
  assumes "cstr m src s" and "length s < unat n" and "unat n \<le> unat (dst - src)"
  shows "strncpy dst src n m x =
    (if unat (x - dst) < length s then m (src + (x - dst))
     else if unat (x - dst) \<le> unat n then 0 else m x)"
proof -
  let ?l = "length s" and ?d = "dst + of_nat (Suc (length s))"
  have len: "?l < 2 ^ 64" using assms(2) unat_lt_64 [of n] by linarith
  have "strncpy dst src n m = memset_loop (unat n - ?l) ?d 0 (copy_up (Suc ?l) dst src m)"
    using strncpy_copy_short [OF assms] by (simp add: strncpy_def del: copy_up.simps of_nat_Suc)
  moreover have "copy_up (Suc ?l) dst src m x =
      (if unat (x - dst) < Suc ?l then m (src + (x - dst)) else m x)"
    using assms len by (intro copy_up_apply) auto
  moreover have "m (src + (x - dst)) = 0" if "unat (x - dst) = ?l"
    using cstr_end [OF assms(1)] by (simp flip: that)
  moreover have "unat (x - ?d) = (if unat (x - dst) < Suc ?l
      then unat (x - dst) + 2 ^ 64 - Suc ?l else unat (x - dst) - Suc ?l)"
    using assms(2) unat_lt_64 [of n] by (intro unat_dist_add) linarith
  moreover have "memset_loop (unat n - ?l) ?d 0 m' x = (if unat (x - ?d) < unat n - ?l then 0 else m' x)"
    for m' using unat_lt_64 [of n] by (intro memset_loop_apply) linarith
  ultimately show ?thesis
    using assms(2) unat_lt_64 [of n] by (auto simp: less_Suc_eq simp del: unat_lt_64_num)
qed

theorem strncpy_overruns_by_one_witness:
  "let m = (\<lambda>a. if a = 0 then 65 else if a < 8 then 0 else 7) in
   cstr m 0 [65] \<and> length [65 :: u8] < unat (3 :: u64) \<and> unat (3 :: u64) \<le> unat (16 - 0 :: u64) \<and>
   strncpy 16 0 3 m (16 + 3) = 0 \<and> m (16 + 3) = 7"
  using strncpy_overruns_by_one
    [of "\<lambda>a. if a = 0 then 65 else if a < 8 then 0 else 7" 0 "[65]" 3 16 "16 + 3"]
  by (simp add: Let_def)

text \<open>
  Printing a 64-bit number and reading the text back gives the number: for
  every base from 4 to 16 unsigned, and in decimal for every signed value including the
  most negative one.
\<close>

theorem uix_number_roundtrip:
  "(\<exists>s. uix_itoa v 10 = Some s \<and> int_value s = sint v) \<and>
   (4 \<le> unat base \<and> unat base \<le> 16 \<longrightarrow>
     (\<exists>s. uix_utoa w base upper = Some s \<and> str_value (unat base) s = unat w))"
proof -
  have "unat (utoa_base base) = unat base" if "4 \<le> unat base \<and> unat base \<le> 16"
    using that by (simp add: utoa_base_def word_less_nat_alt)
  then show ?thesis
    using uix_itoa_10 [of v] uix_utoa_Some [of base w upper] uix_utoa_value [of w base upper]
    by auto
qed

theorem uix_number_roundtrip_witness:
  "4 \<le> unat (16 :: u32) \<and> unat (16 :: u32) \<le> 16 \<and>
   (\<exists>s. uix_utoa 48879 16 False = Some s \<and> str_value 16 s = 48879)"
  using uix_number_roundtrip [of 0 16 48879 False] by simp

end
