(* ===== verification/Console.thy ===== *)
theory Console
  imports Lib
begin

text \<open>
  The 16550 UART driver (\<^verbatim>\<open>drivers/serial.c\<close>) and the console on top of it
  (\<^verbatim>\<open>core/console.c\<close>): every character goes to the serial line and, when Limine
  supplied one, to a 32 bit per pixel framebuffer of 8x16 cells.

  The UART is a device: the trace of port writes is kept in order, and the time the
  transmitter stays busy before the \<open>k\<close>-th byte is a parameter \<open>thr_busy k\<close>, a finite
  number of polls, since a 16550 with a running clock always drains its holding register.
  Framebuffer memory is an array of pixels indexed as \<^verbatim>\<open>base[...]\<close> in the code.
\<close>

section \<open>Serial port\<close>

record uart =
  thr_busy :: "nat \<Rightarrow> nat"
  thr_sent :: nat
  lsr_polls :: nat
  ports :: "(u16 \<times> u8) list"

definition COM1 :: u16 where "COM1 = 0x3F8"
definition REG_DATA :: u16 where "REG_DATA = 0"
definition REG_IER :: u16 where "REG_IER = 1"
definition REG_FCR :: u16 where "REG_FCR = 2"
definition REG_LCR :: u16 where "REG_LCR = 3"
definition REG_MCR :: u16 where "REG_MCR = 4"

definition uart_outb :: "u16 \<Rightarrow> u8 \<Rightarrow> uart \<Rightarrow> uart" where
  "uart_outb port val u = u\<lparr>ports := ports u @ [(port, val)]\<rparr>"

definition serial_init :: "uart \<Rightarrow> uart" where
  "serial_init u =
     (let u = uart_outb (COM1 + REG_IER) 0x00 u;
          u = uart_outb (COM1 + REG_LCR) 0x80 u;
          u = uart_outb (COM1 + REG_DATA) 0x01 u;
          u = uart_outb (COM1 + REG_IER) 0x00 u;
          u = uart_outb (COM1 + REG_LCR) 0x03 u;
          u = uart_outb (COM1 + REG_FCR) 0xC7 u
      in uart_outb (COM1 + REG_MCR) 0x0B u)"

text \<open>The polling loop: \<open>k\<close> reads of the line status with THRE clear, then one with it set.\<close>

fun serial_wait :: "nat \<Rightarrow> uart \<Rightarrow> uart" where
  "serial_wait 0 u = u\<lparr>lsr_polls := Suc (lsr_polls u)\<rparr>"
| "serial_wait (Suc k) u = serial_wait k (u\<lparr>lsr_polls := Suc (lsr_polls u)\<rparr>)"

definition serial_putc :: "char \<Rightarrow> uart \<Rightarrow> uart" where
  "serial_putc c u =
     (let u = serial_wait (thr_busy u (thr_sent u)) u;
          u = uart_outb (COM1 + REG_DATA) (of_char c) u
      in u\<lparr>thr_sent := Suc (thr_sent u)\<rparr>)"

definition serial_console_putc :: "char \<Rightarrow> uart \<Rightarrow> uart" where
  "serial_console_putc c u =
     serial_putc c (if c = CHR 0x0A then serial_putc (CHR 0x0D) u else u)"

section \<open>Framebuffer\<close>

record framebuffer =
  fb_width :: u64
  fb_height :: u64
  fb_pitch :: u64
  pixels :: "u64 \<Rightarrow> u32"

definition GLYPH_W :: u32 where "GLYPH_W = 8"
definition GLYPH_H :: u32 where "GLYPH_H = 16"

lemmas [uix_const] = GLYPH_W_def GLYPH_H_def

definition font8x8 :: "u8 list list" where
  "font8x8 =
  [[0, 0, 0, 0, 0, 0, 0, 0],
   [24, 60, 60, 24, 24, 0, 24, 0],
   [54, 54, 0, 0, 0, 0, 0, 0],
   [54, 54, 127, 54, 127, 54, 54, 0],
   [12, 62, 3, 30, 48, 31, 12, 0],
   [0, 99, 51, 24, 12, 102, 99, 0],
   [28, 54, 28, 110, 59, 51, 110, 0],
   [6, 6, 3, 0, 0, 0, 0, 0],
   [24, 12, 6, 6, 6, 12, 24, 0],
   [6, 12, 24, 24, 24, 12, 6, 0],
   [0, 102, 60, 255, 60, 102, 0, 0],
   [0, 12, 12, 63, 12, 12, 0, 0],
   [0, 0, 0, 0, 0, 12, 6, 0],
   [0, 0, 0, 63, 0, 0, 0, 0],
   [0, 0, 0, 0, 0, 12, 12, 0],
   [96, 48, 24, 12, 6, 3, 1, 0],
   [62, 99, 115, 123, 111, 103, 62, 0],
   [12, 14, 12, 12, 12, 12, 63, 0],
   [30, 51, 48, 28, 6, 51, 63, 0],
   [30, 51, 48, 28, 48, 51, 30, 0],
   [56, 60, 54, 51, 127, 48, 120, 0],
   [63, 3, 31, 48, 48, 51, 30, 0],
   [28, 6, 3, 31, 51, 51, 30, 0],
   [63, 51, 48, 24, 12, 12, 12, 0],
   [30, 51, 51, 30, 51, 51, 30, 0],
   [30, 51, 51, 62, 48, 24, 14, 0],
   [0, 12, 12, 0, 0, 12, 12, 0],
   [0, 12, 12, 0, 0, 12, 6, 0],
   [24, 12, 6, 3, 6, 12, 24, 0],
   [0, 0, 63, 0, 0, 63, 0, 0],
   [6, 12, 24, 48, 24, 12, 6, 0],
   [30, 51, 48, 24, 12, 0, 12, 0],
   [62, 99, 123, 123, 123, 3, 30, 0],
   [12, 30, 51, 51, 63, 51, 51, 0],
   [63, 102, 102, 62, 102, 102, 63, 0],
   [60, 102, 3, 3, 3, 102, 60, 0],
   [31, 54, 102, 102, 102, 54, 31, 0],
   [127, 70, 22, 30, 22, 70, 127, 0],
   [127, 70, 22, 30, 22, 6, 15, 0],
   [60, 102, 3, 3, 115, 102, 124, 0],
   [51, 51, 51, 63, 51, 51, 51, 0],
   [30, 12, 12, 12, 12, 12, 30, 0],
   [120, 48, 48, 48, 51, 51, 30, 0],
   [103, 102, 54, 30, 54, 102, 103, 0],
   [15, 6, 6, 6, 70, 102, 127, 0],
   [99, 119, 127, 127, 107, 99, 99, 0],
   [99, 103, 111, 123, 115, 99, 99, 0],
   [28, 54, 99, 99, 99, 54, 28, 0],
   [63, 102, 102, 62, 6, 6, 15, 0],
   [30, 51, 51, 51, 59, 30, 56, 0],
   [63, 102, 102, 62, 54, 102, 103, 0],
   [30, 51, 7, 14, 56, 51, 30, 0],
   [63, 45, 12, 12, 12, 12, 30, 0],
   [51, 51, 51, 51, 51, 51, 63, 0],
   [51, 51, 51, 51, 51, 30, 12, 0],
   [99, 99, 99, 107, 127, 119, 99, 0],
   [99, 99, 54, 28, 28, 54, 99, 0],
   [51, 51, 51, 30, 12, 12, 30, 0],
   [127, 99, 49, 24, 76, 102, 127, 0],
   [30, 6, 6, 6, 6, 6, 30, 0],
   [3, 6, 12, 24, 48, 96, 64, 0],
   [30, 24, 24, 24, 24, 24, 30, 0],
   [8, 28, 54, 99, 0, 0, 0, 0],
   [0, 0, 0, 0, 0, 0, 0, 255],
   [12, 12, 24, 0, 0, 0, 0, 0],
   [0, 0, 30, 48, 62, 51, 110, 0],
   [7, 6, 6, 62, 102, 102, 59, 0],
   [0, 0, 30, 51, 3, 51, 30, 0],
   [56, 48, 48, 62, 51, 51, 110, 0],
   [0, 0, 30, 51, 63, 3, 30, 0],
   [28, 54, 6, 15, 6, 6, 15, 0],
   [0, 0, 110, 51, 51, 62, 48, 31],
   [7, 6, 54, 110, 102, 102, 103, 0],
   [12, 0, 14, 12, 12, 12, 30, 0],
   [48, 0, 48, 48, 48, 51, 51, 30],
   [7, 6, 102, 54, 30, 54, 103, 0],
   [14, 12, 12, 12, 12, 12, 30, 0],
   [0, 0, 51, 127, 127, 107, 99, 0],
   [0, 0, 31, 51, 51, 51, 51, 0],
   [0, 0, 30, 51, 51, 51, 30, 0],
   [0, 0, 59, 102, 102, 62, 6, 15],
   [0, 0, 110, 51, 51, 62, 48, 120],
   [0, 0, 59, 110, 102, 6, 15, 0],
   [0, 0, 62, 3, 30, 48, 31, 0],
   [8, 12, 62, 12, 12, 44, 24, 0],
   [0, 0, 51, 51, 51, 51, 110, 0],
   [0, 0, 51, 51, 51, 30, 12, 0],
   [0, 0, 99, 107, 127, 127, 54, 0],
   [0, 0, 99, 54, 28, 54, 99, 0],
   [0, 0, 51, 51, 51, 62, 48, 31],
   [0, 0, 63, 25, 12, 38, 63, 0],
   [56, 12, 12, 7, 12, 12, 56, 0],
   [24, 24, 24, 0, 24, 24, 24, 0],
   [7, 12, 12, 56, 12, 12, 7, 0],
   [110, 59, 0, 0, 0, 0, 0, 0]]"

record console =
  con_uart :: uart
  con_fb :: "framebuffer option"
  cur_x :: u32
  cur_y :: u32
  cols :: u32
  rows :: u32
  fg :: u32
  bg :: u32

definition fb_plot :: "u32 \<Rightarrow> u32 \<Rightarrow> u32 \<Rightarrow> framebuffer \<Rightarrow> framebuffer" where
  "fb_plot x y color f =
     f\<lparr>pixels := (pixels f)(ucast y * (fb_pitch f div 4) + ucast x := color)\<rparr>"

definition glyph_of :: "char \<Rightarrow> u8 list" where
  "glyph_of c =
     (let n = (of_char c :: nat);
          n = (if n < 0x20 \<or> n > 0x7E then of_char (CHR ''?'') else n)
      in font8x8 ! (n - 0x20))"

definition fb_draw_char :: "char \<Rightarrow> u32 \<Rightarrow> u32 \<Rightarrow> u32 \<Rightarrow> u32 \<Rightarrow> framebuffer \<Rightarrow> framebuffer" where
  "fb_draw_char c cx cy fgc bgc f =
     fold (\<lambda>gy f. fold (\<lambda>rep f. fold (\<lambda>gx f.
         fb_plot (cx * GLYPH_W + of_nat gx) (cy * GLYPH_H + of_nat gy * 2 + of_nat rep)
                 (if bit (glyph_of c ! gy) gx then fgc else bgc) f)
       [0..<8] f) [0..<2] f) [0..<8] f"

definition px_copy :: "u32 \<Rightarrow> u32 \<Rightarrow> framebuffer \<Rightarrow> framebuffer" where
  "px_copy d s f = f\<lparr>pixels := (pixels f)(ucast d := pixels f (ucast s))\<rparr>"

definition px_set :: "u32 \<Rightarrow> u32 \<Rightarrow> framebuffer \<Rightarrow> framebuffer" where
  "px_set d v f = f\<lparr>pixels := (pixels f)(ucast d := v)\<rparr>"

definition fb_scroll :: "u32 \<Rightarrow> framebuffer \<Rightarrow> framebuffer" where
  "fb_scroll bgc f =
     (let w = (ucast (fb_pitch f div 4) :: u32); line = GLYPH_H;
          f = fold (\<lambda>y f. fold (\<lambda>x f.
                px_copy ((of_nat y - line) * w + of_nat x) (of_nat y * w + of_nat x) f)
              [0..<unat w] f) [unat line..<unat (fb_height f)] f
      in fold (\<lambda>y f. fold (\<lambda>x f. px_set (of_nat y * w + of_nat x) bgc f) [0..<unat w] f)
           [unat (ucast (fb_height f - ucast line) :: u32)..<unat (fb_height f)] f)"

definition fb_putc :: "char \<Rightarrow> console \<Rightarrow> console" where
  "fb_putc c con = (case con_fb con of None \<Rightarrow> con | Some f \<Rightarrow>
     (let con =
        (if c = CHR 0x0A then con\<lparr>cur_x := 0, cur_y := cur_y con + 1\<rparr>
         else if c = CHR 0x0D then con\<lparr>cur_x := 0\<rparr>
         else if c = CHR 0x08 then
           (if cur_x con > 0 then con\<lparr>cur_x := cur_x con - 1\<rparr> else con)
         else
           (let con = con\<lparr>con_fb := Some (fb_draw_char c (cur_x con) (cur_y con) (fg con) (bg con) f),
                          cur_x := cur_x con + 1\<rparr>
            in if cur_x con \<ge> cols con then con\<lparr>cur_x := 0, cur_y := cur_y con + 1\<rparr> else con))
      in if cur_y con \<ge> rows con
         then con\<lparr>con_fb := map_option (fb_scroll (bg con)) (con_fb con), cur_y := rows con - 1\<rparr>
         else con))"

definition console_init :: "framebuffer option \<Rightarrow> console \<Rightarrow> console" where
  "console_init resp con =
     (let con = con\<lparr>con_uart := serial_init (con_uart con)\<rparr>
      in case resp of None \<Rightarrow> con
       | Some f \<Rightarrow>
         con\<lparr>con_fb := Some (fold (\<lambda>y f. fold (\<lambda>x f. fb_plot (of_nat x) (of_nat y) (bg con) f)
                               [0..<unat (fb_width f)] f) [0..<unat (fb_height f)] f),
             cols := ucast (fb_width f div ucast GLYPH_W),
             rows := ucast (fb_height f div ucast GLYPH_H),
             cur_x := 0, cur_y := 0\<rparr>)"

definition console_putc :: "char \<Rightarrow> console \<Rightarrow> console" where
  "console_putc c con = fb_putc c (con\<lparr>con_uart := serial_console_putc c (con_uart con)\<rparr>)"

definition console_write :: "string \<Rightarrow> console \<Rightarrow> console" where
  "console_write s con = fold console_putc s con"

definition console_puts :: "string \<Rightarrow> console \<Rightarrow> console" where
  "console_puts s con = console_putc (CHR 0x0A) (console_write s con)"

text \<open>The state before \<^verbatim>\<open>console_init\<close>: the static initialisers of \<^verbatim>\<open>console.c\<close>.\<close>

definition console_boot :: "uart \<Rightarrow> console" where
  "console_boot u = \<lparr>con_uart = u, con_fb = None, cur_x = 0, cur_y = 0, cols = 0, rows = 0,
                    fg = 0xE8E8E8, bg = 0x101018\<rparr>"

text \<open>A console without framebuffer on an always-ready UART, for concrete runs.\<close>

definition console_example :: console where
  "console_example = console_boot \<lparr>thr_busy = (\<lambda>_. 0), thr_sent = 0, lsr_polls = 0, ports = []\<rparr>"

section \<open>Writes stay inside the framebuffer\<close>

definition fb_stride :: "framebuffer \<Rightarrow> nat" where
  "fb_stride f = unat (fb_pitch f div 4)"

text \<open>A framebuffer that fits the driver's 32-bit index arithmetic.\<close>

definition fb_geometry :: "framebuffer \<Rightarrow> bool" where
  "fb_geometry f \<longleftrightarrow> 8 \<le> unat (fb_width f) \<and> unat (fb_width f) \<le> fb_stride f \<and>
     16 \<le> unat (fb_height f) \<and> unat (fb_height f) * fb_stride f < 2 ^ 32"

definition same_geometry :: "framebuffer \<Rightarrow> framebuffer \<Rightarrow> bool" where
  "same_geometry f g \<longleftrightarrow>
     fb_width g = fb_width f \<and> fb_height g = fb_height f \<and> fb_pitch g = fb_pitch f"

text \<open>\<open>fb_within f g\<close>: \<open>g\<close> differs from \<open>f\<close> only in pixels of the screen's own memory.\<close>

definition fb_within :: "framebuffer \<Rightarrow> framebuffer \<Rightarrow> bool" where
  "fb_within f g \<longleftrightarrow> same_geometry f g \<and>
     (\<forall>i. unat (fb_height f) * fb_stride f \<le> unat i \<longrightarrow> pixels g i = pixels f i)"

lemma fb_within_refl [simp]: "fb_within f f"
  by (simp add: fb_within_def same_geometry_def)

lemma fb_within_trans: "fb_within f g \<Longrightarrow> fb_within g h \<Longrightarrow> fb_within f h"
  by (auto simp: fb_within_def same_geometry_def fb_stride_def)

lemma fb_within_geometry: "fb_within f g \<Longrightarrow> fb_geometry g = fb_geometry f"
  by (auto simp: fb_within_def same_geometry_def fb_geometry_def fb_stride_def)

lemma fb_within_fold:
  assumes "\<And>i g. i \<in> set is \<Longrightarrow> fb_within f g \<Longrightarrow> fb_within g (step i g)"
  shows "fb_within f (fold step is f)"
proof -
  have "fb_within f g \<Longrightarrow> fb_within f (fold step is g)" for g
    using assms
  proof (induction "is" arbitrary: g)
    case (Cons i "is")
    then have "fb_within f (step i g)"
      by (meson fb_within_trans list.set_intros(1))
    with Cons show ?case by simp
  qed simp
  then show ?thesis by simp
qed

lemma grid_index: "y < h \<Longrightarrow> x < w \<Longrightarrow> y * w + x < h * (w::nat)"
  by (metis add.commute add_less_cancel_left less_le_trans mult.commute mult_Suc_right
      mult_le_mono2 Suc_leI)

lemma u32_index:
  assumes "fb_geometry f" and "unat y < unat (fb_height f)" and "unat x < fb_stride f"
  shows "unat (ucast y * (fb_pitch f div 4) + ucast x :: u64) = unat (y::u32) * fb_stride f + unat (x::u32)"
proof -
  have "unat y * fb_stride f + unat x < 2 ^ 32"
    using grid_index [OF assms(2,3)] assms(1) by (simp add: fb_geometry_def)
  then show ?thesis
    unfolding fb_stride_def
    by (subst unat_mult_add_64) simp_all
qed

lemma fb_plot_within:
  assumes "fb_geometry f" and "unat y < unat (fb_height f)" and "unat x < fb_stride f"
  shows "fb_within f (fb_plot x y color f)"
  using grid_index [OF assms(2,3)] u32_index [OF assms]
  by (auto simp: fb_plot_def fb_within_def same_geometry_def)

section \<open>Scrolling\<close>

lemma unat_ucast_of_nat_32: "k < 2 ^ 32 \<Longrightarrow> unat (ucast (of_nat k :: u32) :: u64) = k"
  by (simp add: unat_of_nat take_bit_nat_eq_self)

lemma ucast_of_nat_32: "k < 2 ^ 32 \<Longrightarrow> (ucast (of_nat k :: u32) :: u64) = of_nat k"
  by (simp add: word_unat_eq_iff unat_of_nat)

lemma pixels_upd_cong: "(\<And>i. p i = q i) \<Longrightarrow> f\<lparr>pixels := p\<rparr> = f\<lparr>pixels := q\<rparr>"
  by (metis ext)

text \<open>\<open>blit p d s n\<close>: the pixels \<open>p\<close> with the \<open>n\<close> pixels at \<open>s\<close> copied to \<open>d\<close>.\<close>

definition blit :: "(u64 \<Rightarrow> u32) \<Rightarrow> nat \<Rightarrow> nat \<Rightarrow> nat \<Rightarrow> u64 \<Rightarrow> u32" where
  "blit p d s n i = (if d \<le> unat i \<and> unat i < d + n then p (of_nat (s + (unat i - d))) else p i)"

lemma blit_0 [simp]: "blit p d s 0 = p"
  by (rule ext) (auto simp: blit_def)

lemma blit_Suc:
  assumes "d + n < 2 ^ 64"
  shows "blit p d s (Suc n) = (blit p d s n)(of_nat (d + n) := p (of_nat (s + n)))"
proof
  fix i :: u64
  have "i = of_nat (d + n) \<longleftrightarrow> unat i = d + n"
    using assms by (simp add: word_unat_eq_iff unat_of_nat del: of_nat_add)
  then show "blit p d s (Suc n) i = ((blit p d s n)(of_nat (d + n) := p (of_nat (s + n)))) i"
    by (cases "unat i = d + n") (auto simp: blit_def simp del: of_nat_add)
qed

lemma row_copy:
  assumes "d + n \<le> s" and "s + n \<le> 2 ^ 32"
  shows "fold (\<lambda>x f. px_copy (of_nat (d + x)) (of_nat (s + x)) f) [0..<n] f =
    f\<lparr>pixels := blit (pixels f) d s n\<rparr>"
  using assms
proof (induction n)
  case (Suc n)
  have "blit (pixels f) d s n (of_nat (s + n)) = pixels f (of_nat (s + n))"
    using Suc.prems by (simp add: blit_def unat_of_nat del: of_nat_add)
  then have "px_copy (of_nat (d + n)) (of_nat (s + n)) (f\<lparr>pixels := blit (pixels f) d s n\<rparr>) =
      f\<lparr>pixels := blit (pixels f) d s (Suc n)\<rparr>"
    using Suc.prems by (simp add: px_copy_def ucast_of_nat_32 blit_Suc del: of_nat_add)
  with Suc show ?case by (simp del: of_nat_add)
qed simp

text \<open>Copying row \<open>y\<close> to row \<open>y - 16\<close>, top to bottom, is one big copy.\<close>

lemma blit_blit:
  assumes "d \<le> s" and "s + m + n \<le> 2 ^ 64"
  shows "blit (blit p d s m) (d + m) (s + m) n = blit p d s (m + n)"
proof
  fix i :: u64
  show "blit (blit p d s m) (d + m) (s + m) n i = blit p d s (m + n) i"
  proof (cases "d + m \<le> unat i \<and> unat i < d + m + n")
    case True
    define j where "j = s + m + (unat i - (d + m))"
    with True assms have j: "d + m \<le> j" "j < 2 ^ 64" "j = s + (unat i - d)" by auto
    from j(2) have "unat (of_nat j :: u64) = j" by (simp add: unat_of_nat)
    with True j show ?thesis by (simp add: blit_def del: of_nat_add of_nat_diff flip: j_def)
  next
    case False
    then show ?thesis by (auto simp: blit_def)
  qed
qed

lemma scroll_rows:
  assumes "16 \<le> k" and "k * S \<le> 2 ^ 32"
  shows "fold (\<lambda>y f. fold (\<lambda>x f. px_copy (of_nat ((y - 16) * S + x)) (of_nat (y * S + x)) f)
      [0..<S] f) [16..<k] f = f\<lparr>pixels := blit (pixels f) 0 (16 * S) ((k - 16) * S)\<rparr>"
  using assms
proof (induction k rule: nat_induct_at_least)
  case (Suc k)
  let ?m = "(k - 16) * S"
  let ?g = "f\<lparr>pixels := blit (pixels f) 0 (16 * S) ?m\<rparr>"
  have sz: "k * S + S \<le> 2 ^ 32" using Suc.prems by (simp add: add.commute)
  have dist: "k * S = 16 * S + ?m" using Suc.hyps by (simp flip: distrib_right)
  have "fold (\<lambda>x f. px_copy (of_nat (?m + x)) (of_nat (k * S + x)) f) [0..<S] ?g =
      ?g\<lparr>pixels := blit (pixels ?g) ?m (k * S) S\<rparr>"
    using sz dist by (intro row_copy) auto
  moreover have "blit (blit (pixels f) 0 (16 * S) ?m) (0 + ?m) (16 * S + ?m) S =
      blit (pixels f) 0 (16 * S) (?m + S)"
    using sz dist by (intro blit_blit) auto
  moreover have "(Suc k - 16) * S = ?m + S" using Suc.hyps by (metis Suc_diff_le mult_Suc add.commute)
  ultimately show ?case
    using Suc sz dist by (simp del: of_nat_add)
qed simp

definition wipe :: "(u64 \<Rightarrow> u32) \<Rightarrow> nat \<Rightarrow> nat \<Rightarrow> u32 \<Rightarrow> u64 \<Rightarrow> u32" where
  "wipe p d n v i = (if d \<le> unat i \<and> unat i < d + n then v else p i)"

lemma wipe_0 [simp]: "wipe p d 0 v = p"
  by (rule ext) (auto simp: wipe_def)

lemma wipe_wipe: "wipe (wipe p d m v) (d + m) n v = wipe p d (m + n) v"
  by (rule ext) (auto simp: wipe_def)

lemma wipe_Suc:
  assumes "d + n < 2 ^ 64"
  shows "wipe p d (Suc n) v = (wipe p d n v)(of_nat (d + n) := v)"
proof
  fix i :: u64
  have "i = of_nat (d + n) \<longleftrightarrow> unat i = d + n"
    using assms by (simp add: word_unat_eq_iff unat_of_nat del: of_nat_add)
  then show "wipe p d (Suc n) v i = ((wipe p d n v)(of_nat (d + n) := v)) i"
    by (cases "unat i = d + n") (auto simp: wipe_def simp del: of_nat_add)
qed

lemma row_wipe:
  "d + n \<le> 2 ^ 32 \<Longrightarrow> fold (\<lambda>x f. px_set (of_nat (d + x)) v f) [0..<n] f =
    f\<lparr>pixels := wipe (pixels f) d n v\<rparr>"
proof (induction n)
  case (Suc n)
  then have "px_set (of_nat (d + n)) v (f\<lparr>pixels := wipe (pixels f) d n v\<rparr>) =
      f\<lparr>pixels := wipe (pixels f) d (Suc n) v\<rparr>"
    by (simp add: px_set_def ucast_of_nat_32 wipe_Suc del: of_nat_add)
  with Suc show ?case by (simp del: of_nat_add)
qed simp

lemma wipe_rows:
  assumes "a \<le> k" and "k * S \<le> 2 ^ 32"
  shows "fold (\<lambda>y f. fold (\<lambda>x f. px_set (of_nat (y * S + x)) v f) [0..<S] f) [a..<k] f =
    f\<lparr>pixels := wipe (pixels f) (a * S) ((k - a) * S) v\<rparr>"
  using assms
proof (induction k rule: nat_induct_at_least)
  case (Suc k)
  let ?g = "f\<lparr>pixels := wipe (pixels f) (a * S) ((k - a) * S) v\<rparr>"
  have sz: "k * S + S \<le> 2 ^ 32" using Suc.prems by (simp add: add.commute)
  have dist: "k * S = a * S + (k - a) * S" using Suc.hyps by (simp flip: distrib_right)
  have "fold (\<lambda>x f. px_set (of_nat (k * S + x)) v f) [0..<S] ?g =
      ?g\<lparr>pixels := wipe (pixels ?g) (k * S) S v\<rparr>"
    using sz by (intro row_wipe) auto
  moreover have "(Suc k - a) * S = (k - a) * S + S"
    using Suc.hyps by (metis Suc_diff_le mult_Suc add.commute)
  moreover have "wipe (wipe (pixels f) (a * S) ((k - a) * S) v) (k * S) S v =
      wipe (pixels f) (a * S) ((k - a) * S + S) v"
    unfolding dist by (rule wipe_wipe)
  ultimately show ?case
    using Suc sz by (simp del: of_nat_add)
qed simp

lemma of_nat_row: "of_nat y * (of_nat S :: u32) + of_nat x = of_nat (y * S + x)"
  by simp

lemma of_nat_row_up: "16 \<le> y \<Longrightarrow> (of_nat y - 16) * (of_nat S :: u32) + of_nat x = of_nat ((y - 16) * S + x)"
  by (simp add: of_nat_diff)

text \<open>The whole of \<^verbatim>\<open>fb_scroll\<close>: one blit of all rows but the first 16, then 16 blank rows.\<close>

lemma fb_scroll_closed:
  assumes "fb_geometry f"
  shows "fb_scroll v f = f\<lparr>pixels :=
    wipe (blit (pixels f) 0 (16 * fb_stride f) ((unat (fb_height f) - 16) * fb_stride f))
      ((unat (fb_height f) - 16) * fb_stride f) (16 * fb_stride f) v\<rparr>"
proof -
  let ?H = "unat (fb_height f)" and ?S = "fb_stride f"
  have H: "16 \<le> ?H" and HS: "?H * ?S < 2 ^ 32" and S: "8 \<le> ?S"
    using assms by (auto simp: fb_geometry_def)
  have "16 * ?S \<le> ?H * ?S" using H by (rule mult_le_mono1)
  then have S32: "?S < 2 ^ 32" using HS by linarith
  have "?H * 8 \<le> ?H * ?S" using S by (rule mult_le_mono2)
  then have H32: "?H < 2 ^ 32" using HS by linarith
  have w: "ucast (fb_pitch f div 4) = (of_nat ?S :: u32)"
    by (simp add: fb_stride_def of_nat_unat)
  have "unat (fb_height f - 16) = ?H - 16"
    using H by (simp add: unat_sub word_le_nat_alt)
  then have y0: "unat (ucast (fb_height f - 16) :: u32) = ?H - 16"
    using H32 by (simp add: unsigned_ucast_eq take_bit_nat_eq_self)
  have copy: "fold (\<lambda>y f. fold (\<lambda>x f. px_copy ((of_nat y - 16) * of_nat ?S + of_nat x)
        (of_nat y * of_nat ?S + of_nat x) f) [0..<?S] f) [16..<?H] f =
      f\<lparr>pixels := blit (pixels f) 0 (16 * ?S) ((?H - 16) * ?S)\<rparr>" (is "fold ?a _ _ = ?g")
  proof -
    have "fold ?a [16..<?H] f = fold (\<lambda>y f. fold (\<lambda>x f. px_copy (of_nat ((y - 16) * ?S + x))
        (of_nat (y * ?S + x)) f) [0..<?S] f) [16..<?H] f"
      by (intro fold_cong refl ext) (simp_all only: of_nat_row of_nat_row_up set_upt atLeastLessThan_iff)
    also have "\<dots> = ?g" using H HS by (intro scroll_rows) auto
    finally show ?thesis .
  qed
  have "fold (\<lambda>y f. fold (\<lambda>x f. px_set (of_nat (y * ?S + x)) v f) [0..<?S] f) [?H - 16..<?H] ?g =
      ?g\<lparr>pixels := wipe (pixels ?g) ((?H - 16) * ?S) ((?H - (?H - 16)) * ?S) v\<rparr>"
    using HS by (intro wipe_rows) auto
  then show ?thesis
    using H S32 copy y0
    by (simp add: fb_scroll_def Let_def w GLYPH_H_def unat_of_nat flip: of_nat_row)
qed

lemma fb_scroll_within:
  assumes "fb_geometry f"
  shows "fb_within f (fb_scroll v f)"
proof -
  have "16 \<le> unat (fb_height f)" using assms by (simp add: fb_geometry_def)
  then have "unat (fb_height f) * fb_stride f =
      (unat (fb_height f) - 16) * fb_stride f + 16 * fb_stride f"
    by (simp flip: distrib_right)
  then show ?thesis
    unfolding fb_scroll_closed [OF assms]
    by (simp add: fb_within_def same_geometry_def wipe_def blit_def)
qed

section \<open>The cursor\<close>

definition console_ok :: "console \<Rightarrow> bool" where
  "console_ok con \<longleftrightarrow> (case con_fb con of None \<Rightarrow> True | Some f \<Rightarrow>
     fb_geometry f \<and> cols con = ucast (fb_width f div 8) \<and> rows con = ucast (fb_height f div 16) \<and>
     cur_x con < cols con \<and> cur_y con < rows con)"

lemma fb_geometry_bounds:
  assumes "fb_geometry f"
  shows "unat (fb_width f) < 2 ^ 32" and "unat (fb_height f) < 2 ^ 32" and "fb_stride f < 2 ^ 28"
proof -
  let ?H = "unat (fb_height f)" and ?S = "fb_stride f"
  have H: "16 \<le> ?H" and HS: "?H * ?S < 2 ^ 32" and S: "8 \<le> ?S" and W: "unat (fb_width f) \<le> ?S"
    using assms by (auto simp: fb_geometry_def)
  have "16 * ?S \<le> ?H * ?S" using H by (rule mult_le_mono1)
  then have "16 * ?S < 2 ^ 32" using HS by (rule le_less_trans)
  then show S28: "?S < 2 ^ 28" by simp
  have "?H * 8 \<le> ?H * ?S" using S by (rule mult_le_mono2)
  then show "?H < 2 ^ 32" using HS by linarith
  show "unat (fb_width f) < 2 ^ 32" using W S28 by simp
qed

lemma cells_unat:
  assumes "fb_geometry f"
  shows "unat (ucast (fb_width f div 8) :: u32) = unat (fb_width f) div 8"
    and "unat (ucast (fb_height f div 16) :: u32) = unat (fb_height f) div 16"
  using fb_geometry_bounds [OF assms]
  by (simp_all add: unsigned_ucast_eq take_bit_nat_eq_self unat_div)

lemma fb_draw_char_within:
  assumes g: "fb_geometry f"
    and cx: "unat cx < unat (fb_width f) div 8" and cy: "unat cy < unat (fb_height f) div 16"
  shows "fb_within f (fb_draw_char c cx cy fgc bgc f)"
proof -
  have plot: "fb_within h (fb_plot (cx * GLYPH_W + of_nat gx)
      (cy * GLYPH_H + of_nat gy * 2 + of_nat rep) v h)"
    if "gx < 8" "gy < 8" "rep < 2" "fb_within f h" for gx gy rep v h
  proof (rule fb_plot_within)
    have same: "fb_width h = fb_width f" "fb_height h = fb_height f" "fb_stride h = fb_stride f"
      using that(4) by (auto simp: fb_within_def same_geometry_def fb_stride_def)
    show "fb_geometry h" using fb_within_geometry [OF that(4)] g by simp
    have "unat cx * 8 + gx < unat (fb_width f)" using cx that(1) by linarith
    moreover from this have "unat (cx * GLYPH_W + of_nat gx) = unat cx * 8 + gx"
      using fb_geometry_bounds(1) [OF g] that(1)
      by (simp add: GLYPH_W_def unat_word_ariths unat_of_nat)
    ultimately show "unat (cx * GLYPH_W + of_nat gx) < fb_stride h"
      using g same by (simp add: fb_geometry_def)
    have "unat cy * 16 + gy * 2 + rep < unat (fb_height f)" using cy that(2,3) by linarith
    moreover from this have "unat (cy * GLYPH_H + of_nat gy * 2 + of_nat rep) = unat cy * 16 + gy * 2 + rep"
      using fb_geometry_bounds(2) [OF g] that(2,3)
      by (simp add: GLYPH_H_def unat_word_ariths unat_of_nat)
    ultimately show "unat (cy * GLYPH_H + of_nat gy * 2 + of_nat rep) < unat (fb_height h)"
      using same by simp
  qed
  show ?thesis
    unfolding fb_draw_char_def
    by (intro fb_within_fold plot) (auto intro: fb_within_trans)
qed

lemma fb_putc_ok:
  assumes "console_ok con" and "con_fb con = Some f"
  shows "console_ok (fb_putc c con)"
    and "\<exists>g. con_fb (fb_putc c con) = Some g \<and> fb_within f g"
proof -
  let ?d = "fb_draw_char c (cur_x con) (cur_y con) (fg con) (bg con) f"
  have g: "fb_geometry f" and cols: "cols con = ucast (fb_width f div 8)"
    and rows: "rows con = ucast (fb_height f div 16)"
    and x: "cur_x con < cols con" and y: "cur_y con < rows con"
    using assms by (auto simp: console_ok_def)
  have d: "fb_within f ?d"
    using x y cells_unat [OF g] cols rows g
    by (intro fb_draw_char_within) (auto simp: word_less_nat_alt)
  have geo: "fb_geometry h \<and> fb_width h = fb_width f \<and> fb_height h = fb_height f"
    if "fb_within f h" for h
    using that g fb_within_geometry [OF that] by (simp add: fb_within_def same_geometry_def)
  have sc: "fb_within f (fb_scroll v h)" if "fb_within f h" for v h
    using that geo [OF that] fb_scroll_within fb_within_trans by blast
  have xm: "cur_x con - 1 < cols con" if "0 < cur_x con"
    using that x by unat_arith
  have pos: "0 < cols con" "0 < rows con" "rows con - 1 < rows con"
    using x y by (auto simp: word_less_nat_alt unat_sub_if')
  show "console_ok (fb_putc c con)"
    using assms(2) geo [OF d] geo [OF sc [OF d]] geo [OF sc [OF fb_within_refl]] x y pos xm cols rows g
    by (auto simp add: console_ok_def fb_putc_def Let_def not_le)
  show "\<exists>g. con_fb (fb_putc c con) = Some g \<and> fb_within f g"
    using assms(2) d sc [OF d] sc [OF fb_within_refl]
    by (simp add: fb_putc_def Let_def)
qed

lemma fb_putc_uart_frame:
  "console_ok (con\<lparr>con_uart := u\<rparr>) = console_ok con" "con_fb (con\<lparr>con_uart := u\<rparr>) = con_fb con"
  by (simp_all add: console_ok_def split: option.split)

lemma fb_putc_None: "con_fb con = None \<Longrightarrow> fb_putc c con = con"
  by (simp add: fb_putc_def)

lemma console_putc_ok:
  assumes "console_ok con"
  shows "console_ok (console_putc c con)"
  using assms fb_putc_ok(1) [of "con\<lparr>con_uart := serial_console_putc c (con_uart con)\<rparr>" _ c]
  by (cases "con_fb con") (simp_all add: console_putc_def fb_putc_uart_frame fb_putc_None)

lemma console_write_ok: "console_ok con \<Longrightarrow> console_ok (console_write s con)"
  unfolding console_write_def
  by (induction s arbitrary: con) (simp_all add: console_putc_ok)

section \<open>Properties\<close>


text \<open>
  Scrolling moves every pixel row up by one 16-pixel text line and blanks the
  last line: in terms of the picture before the call.
\<close>

theorem fb_scroll_correct:
  assumes "fb_geometry f" and "y < unat (fb_height f)" and "x < fb_stride f"
  shows "pixels (fb_scroll v f) (of_nat (y * fb_stride f + x)) =
    (if y + 16 < unat (fb_height f) then pixels f (of_nat ((y + 16) * fb_stride f + x)) else v)"
proof -
  let ?H = "unat (fb_height f)" and ?S = "fb_stride f"
  have H: "16 \<le> ?H" and HS: "?H * ?S < 2 ^ 32" using assms(1) by (auto simp: fb_geometry_def)
  have "y * ?S + x < ?H * ?S" using grid_index [OF assms(2,3)] .
  then have i: "unat (of_nat (y * ?S + x) :: u64) = y * ?S + x"
    using HS by (simp add: unat_of_nat del: of_nat_add of_nat_mult)
  have split: "?H * ?S = (?H - 16) * ?S + 16 * ?S" using H by (simp flip: distrib_right)
  show ?thesis
  proof (cases "y + 16 < ?H")
    case True
    then have "y * ?S + x < (?H - 16) * ?S" using assms(3) by (intro grid_index) auto
    moreover have "(y + 16) * ?S + x = 16 * ?S + (y * ?S + x)" by (simp add: distrib_right)
    ultimately show ?thesis using True i
      unfolding fb_scroll_closed [OF assms(1)]
      by (simp add: wipe_def blit_def add.assoc del: of_nat_add of_nat_mult)
  next
    case False
    then have "(?H - 16) * ?S \<le> y * ?S" by (intro mult_le_mono1) simp
    then have "(?H - 16) * ?S \<le> y * ?S + x" by (rule trans_le_add1)
    then show ?thesis using False i \<open>y * ?S + x < ?H * ?S\<close> split
      unfolding fb_scroll_closed [OF assms(1)]
      by (simp add: wipe_def del: of_nat_add of_nat_mult)
  qed
qed

definition small_fb :: framebuffer where
  "small_fb = \<lparr>fb_width = 8, fb_height = 32, fb_pitch = 32, pixels = (\<lambda>i. ucast i)\<rparr>"

definition small_console :: console where
  "small_console = \<lparr>con_uart = \<lparr>thr_busy = (\<lambda>_. 0), thr_sent = 0, lsr_polls = 0, ports = []\<rparr>,
     con_fb = Some small_fb, cur_x = 0, cur_y = 1, cols = 1, rows = 2, fg = 1, bg = 0\<rparr>"


theorem fb_scroll_correct_witness:
  "fb_geometry small_fb \<and> 3 < unat (fb_height small_fb) \<and> 5 < fb_stride small_fb \<and>
   pixels (fb_scroll 9 small_fb) 29 = 157 \<and> pixels (fb_scroll 9 small_fb) 165 = 9"
  using fb_scroll_correct [of small_fb 3 5 9] fb_scroll_correct [of small_fb 20 5 9]
  by (simp add: small_fb_def fb_geometry_def fb_stride_def)

end
