(* ===== verification/Kprintf.thy ===== *)
theory Kprintf
  imports Console
begin

text \<open>
  The kernel's formatted output (\<^verbatim>\<open>core/kprintf.c\<close>). A format is the list of its
  characters before the terminating NUL. The variadic arguments are the list of 64-bit
  slots \<^verbatim>\<open>va_arg\<close> takes from, in order: a number or pointer, or a string pointer
  (\<open>None\<close> for NULL). \<open>kvformat\<close> yields the characters handed to \<^verbatim>\<open>console_putc\<close>, in
  order, and how the loop ended; \<open>kvprintf\<close> sends them to the console.
\<close>

datatype karg = KNum u64 | KStr "string option"

text \<open>
  \<open>KPastEnd\<close>: the loop advanced beyond the terminating NUL of the format.
  \<open>KBadArg\<close>: \<^verbatim>\<open>va_arg\<close> had no argument of the right kind left, which is undefined in C.
\<close>

datatype kv_end = KDone | KPastEnd | KBadArg

definition emit_pad :: "char \<Rightarrow> int \<Rightarrow> string" where
  "emit_pad c n = replicate (nat n) c"

fun kv_width :: "int \<Rightarrow> string \<Rightarrow> int \<times> string" where
  "kv_width w [] = (w, [])"
| "kv_width w (c # cs) =
     (if 48 \<le> (of_char c :: int) \<and> (of_char c :: int) \<le> 57
      then kv_width (w * 10 + (of_char c - 48)) cs else (w, c # cs))"

definition kv_length_mod :: "char \<Rightarrow> bool" where
  "kv_length_mod c \<longleftrightarrow> c = CHR ''l'' \<or> c = CHR ''h'' \<or> c = CHR ''z''"

definition kv_field :: "int \<Rightarrow> string \<Rightarrow> string" where
  "kv_field w s = emit_pad (CHR '' '') (w - int (length s)) @ s"

text \<open>One conversion: the characters it emits and the arguments left.\<close>

definition kv_conv :: "char \<Rightarrow> int \<Rightarrow> karg list \<Rightarrow> (string \<times> karg list) option" where
  "kv_conv spec w args =
     (if spec = CHR ''c'' then
        (case args of KNum v # as \<Rightarrow> Some (emit_pad (CHR '' '') (w - 1) @ [char_of (unat v)], as)
         | _ \<Rightarrow> None)
      else if spec = CHR ''s'' then
        (case args of KStr p # as \<Rightarrow>
           Some (kv_field w (case p of None \<Rightarrow> ''(null)'' | Some s \<Rightarrow> s), as) | _ \<Rightarrow> None)
      else if spec = CHR ''d'' \<or> spec = CHR ''i'' then
        (case args of KNum v # as \<Rightarrow>
           map_option (\<lambda>buf. (kv_field (if sint v < 0 then w - 1 else w) buf, as)) (uix_itoa v 10)
         | _ \<Rightarrow> None)
      else if spec = CHR ''u'' then
        (case args of KNum v # as \<Rightarrow> map_option (\<lambda>buf. (kv_field w buf, as)) (uix_utoa v 10 False)
         | _ \<Rightarrow> None)
      else if spec = CHR ''x'' then
        (case args of KNum v # as \<Rightarrow> map_option (\<lambda>buf. (kv_field w buf, as)) (uix_utoa v 16 False)
         | _ \<Rightarrow> None)
      else if spec = CHR ''X'' then
        (case args of KNum v # as \<Rightarrow> map_option (\<lambda>buf. (kv_field w buf, as)) (uix_utoa v 16 True)
         | _ \<Rightarrow> None)
      else if spec = CHR ''p'' then
        (case args of KNum v # as \<Rightarrow>
           map_option (\<lambda>buf. (''0x'' @ emit_pad (CHR ''0'') (16 - int (length buf)) @ buf, as))
             (uix_utoa v 16 False)
         | _ \<Rightarrow> None)
      else if spec = CHR ''%'' then Some (''%'', args)
      else Some ([CHR ''%'', spec], args))"

lemma kv_width_length: "length (snd (kv_width w cs)) \<le> length cs"
  by (induction w cs rule: kv_width.induct) auto

function kvformat :: "string \<Rightarrow> karg list \<Rightarrow> string \<times> kv_end" where
  "kvformat [] args = ([], KDone)"
| "kvformat (c # cs) args =
     (if c \<noteq> CHR ''%'' then (case kvformat cs args of (out, e) \<Rightarrow> (c # out, e))
      else (case kv_width 0 cs of (w, cs1) \<Rightarrow>
        (case dropWhile kv_length_mod cs1 of
           [] \<Rightarrow> ([CHR ''%'', CHR 0x00], KPastEnd)
         | spec # cs2 \<Rightarrow>
           (case kv_conv spec w args of
              None \<Rightarrow> ([], KBadArg)
            | Some (out, args') \<Rightarrow>
              (case kvformat cs2 args' of (out', e) \<Rightarrow> (out @ out', e))))))"
  by pat_completeness auto

termination
proof (relation "measure (\<lambda>(fmt, args). length fmt)")
  fix c :: char and cs :: string and args :: "karg list" and w cs1 spec cs2 x out args'
  assume "(w, cs1) = kv_width 0 cs" and "dropWhile kv_length_mod cs1 = spec # cs2"
  moreover have "length (dropWhile kv_length_mod cs1) \<le> length cs1"
    by (rule length_dropWhile_le)
  ultimately have "length cs2 < length cs1" by simp
  also have "length cs1 \<le> length cs"
    using kv_width_length [of 0 cs] \<open>(w, cs1) = kv_width 0 cs\<close> by (metis snd_conv)
  finally show "((cs2, args'), c # cs, args) \<in> measure (\<lambda>(fmt, args). length fmt)"
    by simp
qed auto

definition kvprintf :: "string \<Rightarrow> karg list \<Rightarrow> console \<Rightarrow> console" where
  "kvprintf fmt args con = fold console_putc (fst (kvformat fmt args)) con"

definition kprintf :: "string \<Rightarrow> karg list \<Rightarrow> console \<Rightarrow> console" where
  "kprintf fmt args con = kvprintf fmt args con"

definition kputs :: "string \<Rightarrow> console \<Rightarrow> console" where
  "kputs s con = console_putc (CHR 0x0A) (console_write s con)"

definition kputc :: "char \<Rightarrow> console \<Rightarrow> console" where
  "kputc c con = console_putc c con"

definition KLOG_INFO :: string where "KLOG_INFO = ''[info] ''"
definition KLOG_WARN :: string where "KLOG_WARN = ''[warn] ''"
definition KLOG_ERR :: string where "KLOG_ERR = ''[err ] ''"
definition KLOG_PANIC :: string where "KLOG_PANIC = ''[PANIC] ''"

text \<open>
  What \<^verbatim>\<open>panic\<close> prints before it disables interrupts and halts for good. A kernel path
  that panics is the value \<open>Inl (Panic fmt)\<close> elsewhere in the development.
\<close>

definition panic_output :: "string \<Rightarrow> karg list \<Rightarrow> console \<Rightarrow> console" where
  "panic_output fmt args con =
     console_putc (CHR 0x0A) (kvprintf fmt args (console_write KLOG_PANIC con))"

definition nl :: string where "nl = [CHR 0x0A]"

section \<open>Numbers in fields\<close>

lemma kv_field_replicate: "kv_field w s = replicate (nat w - length s) (CHR '' '') @ s"
proof -
  have "nat (w - int n) = nat w - n" for n by linarith
  then show ?thesis by (simp add: kv_field_def emit_pad_def)
qed

lemma uix_utoa_16_length:
  assumes "uix_utoa v 16 upper = Some s"
  shows "length s \<le> 16"
proof -
  have "unat v < unat (utoa_base 16) ^ 16" using unat_lt_64 [of v] by simp
  then have "length (utoa_digits v 16 upper) \<le> 16" by (rule utoa_digits_length)
  then show ?thesis using assms
    by (cases "v = 0") (auto simp: uix_utoa_def Let_def utoa_digits.simps [of 0] split: if_splits)
qed

lemma kvformat_plain: "CHR ''%'' \<notin> set s \<Longrightarrow> kvformat (s @ fmt) args =
    (case kvformat fmt args of (out, e) \<Rightarrow> (s @ out, e))"
  by (induction s) (auto split: prod.splits)

lemma kvprintf_plain: "CHR ''%'' \<notin> set s \<Longrightarrow> kvprintf s args con = console_write s con"
  using kvformat_plain [of s "[]" args] by (simp add: kvprintf_def console_write_def)

lemma kvprintf_ok: "console_ok con \<Longrightarrow> console_ok (kvprintf fmt args con)"
  unfolding kvprintf_def by (fold console_write_def) (rule console_write_ok)

section \<open>Properties\<close>

text \<open>
  \<^verbatim>\<open>%p\<close> always prints 18 characters, \<^verbatim>\<open>0x\<close> and sixteen hexadecimal digits,
  that read back as the pointer.
\<close>

theorem kvformat_pointer:
  "\<exists>ds. kvformat (''%p'' @ fmt) (KNum v # args) =
      (case kvformat fmt args of (out, e) \<Rightarrow> (''0x'' @ ds @ out, e)) \<and>
    length ds = 16 \<and> str_value 16 ds = unat v"
proof -
  obtain s where s: "uix_utoa v 16 False = Some s" "str_value 16 s = unat v"
    using uix_utoa_Some [of 16 v False] uix_utoa_value [of v 16 False] by simp
  let ?ds = "emit_pad (CHR ''0'') (16 - int (length s)) @ s"
  have "length ?ds = 16" using uix_utoa_16_length [OF s(1)] by (simp add: emit_pad_def)
  moreover have "str_value 16 (replicate k (CHR ''0'') @ s) = str_value 16 s" for k
    by (induction k) (simp_all add: str_value_def digit_val_0)
  ultimately show ?thesis using s
    by (intro exI [of _ ?ds]) (simp add: kv_conv_def emit_pad_def kv_length_mod_def split: prod.split)
qed

text \<open>
  A decimal field \<^verbatim>\<open>%<w>u\<close> holds the number padded on the left with blanks to
  the width asked for; a negative \<^verbatim>\<open>%<w>d\<close> that needs padding comes out one character
  narrower than its width, because the sign is counted twice.
\<close>

theorem kv_conv_decimal_width:
  "(\<exists>s. kv_conv (CHR ''u'') w (KNum v # args) =
             Some (replicate (nat w - length s) (CHR '' '') @ s, args) \<and> str_value 10 s = unat v) \<and>
   (\<exists>s. kv_conv (CHR ''d'') w (KNum v # args) =
             Some (replicate (nat w - (if sint v < 0 then 1 else 0) - length s) (CHR '' '') @ s, args) \<and>
           int_value s = sint v)"
proof
  obtain s where "uix_utoa v 10 False = Some s" "str_value 10 s = unat v"
    using uix_utoa_10 by blast
  then show "\<exists>s. kv_conv (CHR ''u'') w (KNum v # args) =
             Some (replicate (nat w - length s) (CHR '' '') @ s, args) \<and> str_value 10 s = unat v"
    by (intro exI [of _ s]) (simp add: kv_conv_def kv_field_replicate)
  obtain t where "uix_itoa v 10 = Some t" "int_value t = sint v"
    using uix_itoa_10 by blast
  moreover have "nat (w - 1) = nat w - 1" by linarith
  ultimately show "\<exists>s. kv_conv (CHR ''d'') w (KNum v # args) =
             Some (replicate (nat w - (if sint v < 0 then 1 else 0) - length s) (CHR '' '') @ s, args) \<and>
           int_value s = sint v"
    by (intro exI [of _ t]) (simp add: kv_conv_def kv_field_replicate)
qed



end
