(* ===== verification/Boot.thy ===== *)
theory Boot
  imports Kprintf
begin

text \<open>
  What the kernel takes over from the Limine boot loader (\<^verbatim>\<open>boot/boot.c\<close>,
  \<^verbatim>\<open>include/uix/boot.h\<close> and the memory map types of \<^verbatim>\<open>include/limine.h\<close>): the memory
  map and the offset of the higher half direct map.
\<close>

record limine_memmap_entry =
  mm_base :: u64
  mm_length :: u64
  mm_type :: u64

definition LIMINE_MEMMAP_USABLE :: u64 where "LIMINE_MEMMAP_USABLE = 0"
definition LIMINE_MEMMAP_RESERVED :: u64 where "LIMINE_MEMMAP_RESERVED = 1"
definition LIMINE_MEMMAP_ACPI_RECLAIMABLE :: u64 where "LIMINE_MEMMAP_ACPI_RECLAIMABLE = 2"
definition LIMINE_MEMMAP_ACPI_NVS :: u64 where "LIMINE_MEMMAP_ACPI_NVS = 3"
definition LIMINE_MEMMAP_BAD_MEMORY :: u64 where "LIMINE_MEMMAP_BAD_MEMORY = 4"
definition LIMINE_MEMMAP_BOOTLOADER_RECLAIMABLE :: u64 where
  "LIMINE_MEMMAP_BOOTLOADER_RECLAIMABLE = 5"
definition LIMINE_MEMMAP_EXECUTABLE_AND_MODULES :: u64 where
  "LIMINE_MEMMAP_EXECUTABLE_AND_MODULES = 6"

record uix_bootinfo =
  memmap :: "limine_memmap_entry list"
  hhdm :: u64

definition memmap_type_name :: "limine_memmap_entry \<Rightarrow> string" where
  "memmap_type_name e =
     (if mm_type e = LIMINE_MEMMAP_USABLE then ''usable''
      else if mm_type e = LIMINE_MEMMAP_RESERVED then ''reserved''
      else if mm_type e = LIMINE_MEMMAP_ACPI_RECLAIMABLE then ''acpi''
      else if mm_type e = LIMINE_MEMMAP_ACPI_NVS then ''acpi-nvs''
      else if mm_type e = LIMINE_MEMMAP_BAD_MEMORY then ''bad''
      else if mm_type e = LIMINE_MEMMAP_BOOTLOADER_RECLAIMABLE then ''bootdata''
      else if mm_type e = LIMINE_MEMMAP_EXECUTABLE_AND_MODULES then ''modules''
      else ''kernel'')"

fun boot_scan :: "limine_memmap_entry list \<Rightarrow> u64 \<Rightarrow> console \<Rightarrow> u64 \<times> console" where
  "boot_scan [] usable con = (usable, con)"
| "boot_scan (e # es) usable con =
     (let con = kprintf (KLOG_INFO @ ''memmap: base=%p len=%pK type=%s'' @ nl)
                  [KNum (mm_base e), KNum (mm_length e div 1024), KStr (Some (memmap_type_name e))] con;
          usable = (if mm_type e = LIMINE_MEMMAP_USABLE then usable + mm_length e else usable)
      in boot_scan es usable con)"

definition boot_init ::
  "limine_memmap_entry list option \<Rightarrow> u64 option \<Rightarrow> console \<Rightarrow> (uix_bootinfo \<times> console) res" where
  "boot_init memmap_resp hhdm_resp con =
     (case memmap_resp of
        None \<Rightarrow> Inl (Panic ''no memory map from Limine'')
      | Some entries \<Rightarrow>
        (case hhdm_resp of
           None \<Rightarrow> Inl (Panic ''no HHDM from Limine'')
         | Some off \<Rightarrow>
           (let bootinfo = \<lparr>memmap = entries, hhdm = off\<rparr>
            in case boot_scan entries 0 con of (usable, con) \<Rightarrow>
              (let con = kprintf (KLOG_INFO @ ''HHDM offset: %p'' @ nl) [KNum (hhdm bootinfo)] con;
                   con = kprintf (KLOG_INFO @ ''usable RAM: %u MiB'' @ nl)
                           [KNum (ucast (ucast (drop_bit 20 usable) :: u32))] con
               in Inr (bootinfo, con)))))"

definition usable_entries :: "uix_bootinfo \<Rightarrow> limine_memmap_entry list" where
  "usable_entries bi = filter (\<lambda>e. mm_type e = LIMINE_MEMMAP_USABLE) (memmap bi)"

lemma boot_scan_usable:
  "fst (boot_scan es usable con) =
     usable + sum_list (map mm_length (filter (\<lambda>e. mm_type e = LIMINE_MEMMAP_USABLE) es))"
  by (induction es arbitrary: usable con) (simp_all add: Let_def add.assoc)

lemma boot_init_Inr:
  "boot_init m h con = Inr (bi, con') \<Longrightarrow> m = Some (memmap bi) \<and> h = Some (hhdm bi)"
  by (auto simp: boot_init_def Let_def split: option.splits prod.splits)

end
