(* ===== verification/Pmm.thy ===== *)
theory Pmm
  imports Boot
begin

text \<open>
  The physical memory manager (\<^verbatim>\<open>core/memory/pmm.c\<close>): a bitmap with one bit per 4 KiB
  page (1 = free), a cursor for single-page allocation, first-fit allocation of runs, and
  the page reference counts used for copy-on-write.

  The statics of the file are the record \<open>pmm\<close>. The bitmap and the reference count array
  live in pages the manager reserves for itself; they are arrays of their own here, indexed
  as in the code. \<open>refcounts = None\<close> is the NULL pointer before the first
  \<^verbatim>\<open>pmm_ref\<close>.
\<close>

record pmm =
  bitmap :: "u64 \<Rightarrow> u64"
  bitmap_len :: u64
  total_pages :: u64
  free_count :: u64
  bitmap_phys :: paddr
  next_free_scan :: u64
  refcounts :: "(u64 \<Rightarrow> u16) option"
  refcounts_pages :: u64

definition BM_WORD :: "u64 \<Rightarrow> u64" where
  "BM_WORD i = drop_bit 6 i"

definition BM_BIT :: "u64 \<Rightarrow> u64" where
  "BM_BIT i = push_bit (unat (i AND 63)) 1"

definition set_free :: "u64 \<Rightarrow> pmm \<Rightarrow> pmm" where
  "set_free i p = p\<lparr>bitmap := (bitmap p)(BM_WORD i := bitmap p (BM_WORD i) OR BM_BIT i)\<rparr>"

definition set_used :: "u64 \<Rightarrow> pmm \<Rightarrow> pmm" where
  "set_used i p = p\<lparr>bitmap := (bitmap p)(BM_WORD i := bitmap p (BM_WORD i) AND NOT (BM_BIT i))\<rparr>"

definition is_free :: "u64 \<Rightarrow> pmm \<Rightarrow> bool" where
  "is_free i p \<longleftrightarrow> bitmap p (BM_WORD i) AND BM_BIT i \<noteq> 0"

section \<open>Initialisation\<close>

fun top_of_memory :: "limine_memmap_entry list \<Rightarrow> u64 \<Rightarrow> u64" where
  "top_of_memory [] max_pa = max_pa"
| "top_of_memory (e # es) max_pa =
     (if mm_type e \<noteq> LIMINE_MEMMAP_USABLE then top_of_memory es max_pa
      else let top = mm_base e + mm_length e
           in top_of_memory es (if top > max_pa then top else max_pa))"

fun find_bitmap_home :: "u64 \<Rightarrow> limine_memmap_entry list \<Rightarrow> paddr" where
  "find_bitmap_home bm_pages [] = 0"
| "find_bitmap_home bm_pages (e # es) =
     (if mm_type e = LIMINE_MEMMAP_USABLE \<and> mm_length e \<ge> (bm_pages + 1) * UIX_PAGE_SIZE
      then mm_base e else find_bitmap_home bm_pages es)"

text \<open>
  \<^verbatim>\<open>memset(bitmap, 0, bm_bytes)\<close> on whatever the memory held: the bytes of word \<open>w\<close> below
  \<open>bm_bytes\<close> become 0, the rest of the last word keeps its old content.
\<close>

definition clear_bitmap :: "u64 \<Rightarrow> (u64 \<Rightarrow> u64) \<Rightarrow> u64 \<Rightarrow> u64" where
  "clear_bitmap bm_bytes old w =
     (let r = unat bm_bytes - 8 * unat w
      in if 8 \<le> r then 0 else push_bit (8 * r) (drop_bit (8 * r) (old w)))"

fun mark_free_run :: "nat \<Rightarrow> u64 \<Rightarrow> pmm \<Rightarrow> pmm" where
  "mark_free_run 0 p s = s"
| "mark_free_run (Suc n) p s =
     mark_free_run n (p + 1) ((set_free p s)\<lparr>free_count := free_count s + 1\<rparr>)"

fun mark_usable :: "limine_memmap_entry list \<Rightarrow> pmm \<Rightarrow> pmm" where
  "mark_usable [] s = s"
| "mark_usable (e # es) s =
     (if mm_type e \<noteq> LIMINE_MEMMAP_USABLE then mark_usable es s
      else let first = drop_bit UIX_PAGE_SHIFT (mm_base e);
               count = drop_bit UIX_PAGE_SHIFT (mm_length e)
           in mark_usable es (mark_free_run (unat count) first s))"

fun reserve_run :: "nat \<Rightarrow> u64 \<Rightarrow> pmm \<Rightarrow> pmm" where
  "reserve_run 0 p s = s"
| "reserve_run (Suc n) p s =
     reserve_run n (p + 1) ((set_used p s)\<lparr>free_count := free_count s - 1\<rparr>)"

text \<open>\<open>s\<close> holds the statics before the call and \<open>old\<close> what the bitmap's memory contained.\<close>

definition pmm_init ::
  "uix_bootinfo \<Rightarrow> (u64 \<Rightarrow> u64) \<Rightarrow> pmm \<Rightarrow> console \<Rightarrow> (pmm \<times> console) res" where
  "pmm_init bi old s con =
     (let max_pa = top_of_memory (memmap bi) 0;
          pages = drop_bit UIX_PAGE_SHIFT max_pa;
          s = s\<lparr>total_pages := pages, bitmap_len := pages\<rparr>;
          bm_bytes = (bitmap_len s + 7) div 8;
          bm_pages = (bm_bytes + UIX_PAGE_SIZE - 1) div UIX_PAGE_SIZE;
          bm_page = find_bitmap_home bm_pages (memmap bi)
      in if bm_page = 0 then Inl (Panic ''pmm: no usable memory for bitmap (%u pages)'')
         else
           (let s = s\<lparr>bitmap := clear_bitmap bm_bytes old, bitmap_phys := bm_page, free_count := 0\<rparr>;
                s = mark_usable (memmap bi) s;
                s = reserve_run (unat bm_pages) (drop_bit UIX_PAGE_SHIFT bm_page) s;
                con = kprintf (KLOG_INFO @ ''pmm: %u pages (%u MiB), bitmap %u KiB @ %p'' @ nl)
                  [KNum (ucast (ucast (total_pages s) :: u32)),
                   KNum (ucast (ucast (drop_bit 8 (total_pages s)) :: u32)),
                   KNum (ucast (ucast ((bitmap_len s + 7) div 8 div 1024) :: u32)),
                   KNum (bitmap_phys s)] con
            in Inr (s, con)))"

section \<open>Allocation\<close>

fun alloc_scan :: "nat \<Rightarrow> u64 \<Rightarrow> pmm \<Rightarrow> u64 option" where
  "alloc_scan 0 n s = None"
| "alloc_scan (Suc k) n s =
     (let i = (next_free_scan s + n) mod bitmap_len s
      in if is_free i s then Some i else alloc_scan k (n + 1) s)"

definition pmm_alloc :: "pmm \<Rightarrow> paddr \<times> pmm" where
  "pmm_alloc s = (case alloc_scan (unat (bitmap_len s)) 0 s of
     None \<Rightarrow> (0, s)
   | Some i \<Rightarrow>
     (let s = set_used i s;
          s = s\<lparr>next_free_scan := (i + 1) mod bitmap_len s, free_count := free_count s - 1\<rparr>
      in (push_bit UIX_PAGE_SHIFT i, s)))"

fun use_run :: "nat \<Rightarrow> u64 \<Rightarrow> pmm \<Rightarrow> pmm" where
  "use_run 0 p s = s"
| "use_run (Suc n) p s = use_run n (p + 1) (set_used p s)"

text \<open>The scan of \<^verbatim>\<open>pmm_alloc_pages\<close>: the last index of the first run of \<open>n\<close> free pages.\<close>

fun run_scan :: "nat \<Rightarrow> u64 \<Rightarrow> u64 \<Rightarrow> u64 \<Rightarrow> pmm \<Rightarrow> u64 option" where
  "run_scan 0 i run n s = None"
| "run_scan (Suc k) i run n s =
     (if is_free i s
      then (let run = run + 1 in if run = n then Some i else run_scan k (i + 1) run n s)
      else run_scan k (i + 1) 0 n s)"

definition pmm_alloc_pages :: "u64 \<Rightarrow> pmm \<Rightarrow> paddr \<times> pmm" where
  "pmm_alloc_pages n s = (case run_scan (unat (bitmap_len s)) 0 0 n s of
     None \<Rightarrow> (0, s)
   | Some i \<Rightarrow>
     (let first = i - n + 1;
          s = use_run (unat (i - first) + 1) first s;
          s = s\<lparr>free_count := free_count s - n, next_free_scan := (i + 1) mod bitmap_len s\<rparr>
      in (push_bit UIX_PAGE_SHIFT first, s)))"

definition pmm_free :: "paddr \<Rightarrow> pmm \<Rightarrow> pmm res" where
  "pmm_free page s =
     (let i = drop_bit UIX_PAGE_SHIFT page
      in if i \<ge> bitmap_len s \<or> is_free i s
         then Inl (Panic ''pmm: double free or bad page %p'')
         else (let s = set_free i s in Inr (s\<lparr>free_count := free_count s + 1\<rparr>)))"

definition pmm_free_pages :: "pmm \<Rightarrow> u64" where
  "pmm_free_pages s = free_count s"

section \<open>Reference counts\<close>

text \<open>
  The first call takes the pages of the array from the manager itself and zeroes them.
  The result of \<^verbatim>\<open>pmm_alloc_pages\<close> is not checked: when it is 0 the array would overlay
  physical page 0, which is the array of this model all the same.
\<close>

definition refcounts_grow :: "pmm \<Rightarrow> pmm" where
  "refcounts_grow s = (case refcounts s of
     Some _ \<Rightarrow> s
   | None \<Rightarrow>
     (let need = (total_pages s * 2 + UIX_PAGE_SIZE - 1) div UIX_PAGE_SIZE;
          s = s\<lparr>refcounts_pages := need\<rparr>;
          s = snd (pmm_alloc_pages need s)
      in s\<lparr>refcounts := Some (\<lambda>_. 0)\<rparr>))"

definition pmm_ref :: "paddr \<Rightarrow> pmm \<Rightarrow> pmm" where
  "pmm_ref page s =
     (let i = drop_bit UIX_PAGE_SHIFT page
      in if i \<ge> total_pages s then s
         else (let s = refcounts_grow s in
           case refcounts s of
             None \<Rightarrow> s
           | Some rc \<Rightarrow> if rc i < 0xFFFF then s\<lparr>refcounts := Some (rc(i := rc i + 1))\<rparr> else s))"

definition pmm_unref :: "paddr \<Rightarrow> pmm \<Rightarrow> pmm res" where
  "pmm_unref page s =
     (let i = drop_bit UIX_PAGE_SHIFT page
      in case refcounts s of
           None \<Rightarrow> Inr s
         | Some rc \<Rightarrow>
           if i \<ge> total_pages s then Inr s
           else if rc i > 1 then Inr (s\<lparr>refcounts := Some (rc(i := rc i - 1))\<rparr>)
           else pmm_free page (s\<lparr>refcounts := Some (rc(i := 0))\<rparr>))"

definition pmm_getref :: "paddr \<Rightarrow> pmm \<Rightarrow> u16" where
  "pmm_getref page s =
     (let i = drop_bit UIX_PAGE_SHIFT page
      in case refcounts s of
           None \<Rightarrow> 1
         | Some rc \<Rightarrow> if i \<ge> total_pages s then 1 else rc i)"

section \<open>The direct map\<close>

definition pmm_phys_to_virt :: "uix_bootinfo \<Rightarrow> paddr \<Rightarrow> vaddr" where
  "pmm_phys_to_virt bi pa = hhdm bi + pa"

definition pmm_virt_to_phys :: "uix_bootinfo \<Rightarrow> vaddr \<Rightarrow> paddr" where
  "pmm_virt_to_phys bi va = va - hhdm bi"

section \<open>The bitmap as a set of page numbers\<close>

lemma and_63: "unat (i AND 63 :: u64) = unat i mod 64"
proof -
  have "i AND 63 = take_bit 6 i" by (simp add: take_bit_eq_mask mask_eq_exp_minus_1)
  then show ?thesis by (simp add: take_bit_eq_mod unat_mod)
qed

lemma is_free_bit: "is_free i s \<longleftrightarrow> bit (bitmap s (BM_WORD i)) (unat i mod 64)"
proof -
  have "w AND push_bit k 1 \<noteq> 0 \<longleftrightarrow> bit w k" if "k < 64" for w :: u64 and k
    using that by (auto simp: bit_eq_iff [where ?'a = u64] bit_and_iff bit_exp_iff)
  then show ?thesis by (simp add: is_free_def BM_BIT_def and_63)
qed

lemma page_bit_inj: "BM_WORD i = BM_WORD j \<Longrightarrow> unat i mod 64 = unat j mod 64 \<Longrightarrow> i = j"
proof -
  assume "BM_WORD i = BM_WORD j" and m: "unat i mod 64 = unat j mod 64"
  then have "unat (drop_bit 6 i) = unat (drop_bit 6 j)" by (simp add: BM_WORD_def)
  then have "unat i div 64 = unat j div 64" by (simp add: drop_bit_eq_div unat_div)
  with m have "unat i = unat j" by (metis div_mult_mod_eq)
  then show "i = j" by (simp add: word_unat_eq_iff)
qed

lemma is_free_set_free [simp]: "is_free j (set_free i s) \<longleftrightarrow> j = i \<or> is_free j s"
proof (cases "BM_WORD j = BM_WORD i")
  case True
  have "bit (w OR push_bit k 1) l \<longleftrightarrow> l = k \<or> bit w l" if "l < 64" for w :: u64 and k l
    using that by (auto simp: bit_or_iff bit_exp_iff)
  with True page_bit_inj [of j i] show ?thesis
    by (auto simp: is_free_bit set_free_def BM_BIT_def and_63)
qed (auto simp: is_free_bit set_free_def)

lemma is_free_set_used [simp]: "is_free j (set_used i s) \<longleftrightarrow> j \<noteq> i \<and> is_free j s"
proof (cases "BM_WORD j = BM_WORD i")
  case True
  have "bit (w AND NOT (push_bit k 1)) l \<longleftrightarrow> l \<noteq> k \<and> bit w l" if "l < 64" for w :: u64 and k l
    using that by (auto simp: bit_and_iff bit_not_iff bit_exp_iff)
  with True page_bit_inj [of j i] show ?thesis
    by (auto simp: is_free_bit set_used_def BM_BIT_def and_63)
qed (auto simp: is_free_bit set_used_def)

lemma set_free_used_frame [simp]:
  "bitmap_len (set_free i s) = bitmap_len s" "bitmap_len (set_used i s) = bitmap_len s"
  "total_pages (set_free i s) = total_pages s" "total_pages (set_used i s) = total_pages s"
  "free_count (set_free i s) = free_count s" "free_count (set_used i s) = free_count s"
  "next_free_scan (set_free i s) = next_free_scan s" "next_free_scan (set_used i s) = next_free_scan s"
  "refcounts (set_free i s) = refcounts s" "refcounts (set_used i s) = refcounts s"
  "bitmap_phys (set_free i s) = bitmap_phys s" "bitmap_phys (set_used i s) = bitmap_phys s"
  by (simp_all add: set_free_def set_used_def)

lemma is_free_upd [simp]:
  "is_free i (s\<lparr>free_count := a\<rparr>) = is_free i s"
  "is_free i (s\<lparr>next_free_scan := b\<rparr>) = is_free i s"
  "is_free i (s\<lparr>refcounts := c\<rparr>) = is_free i s"
  "is_free i (s\<lparr>refcounts_pages := d\<rparr>) = is_free i s"
  "is_free i (s\<lparr>total_pages := e\<rparr>) = is_free i s"
  "is_free i (s\<lparr>bitmap_len := e\<rparr>) = is_free i s"
  by (simp_all add: is_free_def)

text \<open>The free pages, as page numbers.\<close>

definition free_set :: "pmm \<Rightarrow> u64 set" where
  "free_set s = {i. i < bitmap_len s \<and> is_free i s}"

text \<open>
  The invariant: the counter is the number of free pages, the cursor is in range, page 0
  is not free (Limine never reports it as usable, and 0 is the error value of the
  allocation functions), and page numbers fit a physical address.
\<close>

definition pmm_inv :: "pmm \<Rightarrow> bool" where
  "pmm_inv s \<longleftrightarrow> 0 < bitmap_len s \<and> bitmap_len s \<le> 2 ^ 52 \<and> total_pages s = bitmap_len s \<and>
     next_free_scan s < bitmap_len s \<and> 0 \<notin> free_set s \<and>
     free_count s = of_nat (card (free_set s))"

section \<open>Page numbers and page addresses\<close>

lemma page_addr_unat: "i < (2 ^ 52 :: u64) \<Longrightarrow> unat (push_bit 12 i) = 4096 * unat i"
  by (simp add: push_bit_eq_mult unat_word_ariths word_less_nat_alt)

lemma page_addr_drop [simp]: "i < (2 ^ 52 :: u64) \<Longrightarrow> drop_bit 12 (push_bit 12 i) = i"
  using page_addr_unat [of i]
  by (simp add: word_unat_eq_iff drop_bit_eq_div unat_div push_bit_eq_mult)

lemma page_addr_inj:
  "i < (2 ^ 52 :: u64) \<Longrightarrow> j < 2 ^ 52 \<Longrightarrow> push_bit 12 i = push_bit 12 j \<Longrightarrow> i = j"
  by (metis page_addr_drop)

lemma page_addr_0: "i < (2 ^ 52 :: u64) \<Longrightarrow> push_bit 12 i = 0 \<longleftrightarrow> i = 0"
  using page_addr_inj [of i 0] by auto

text \<open>The free pages, as physical addresses, and the pages the manager accounts for.\<close>

definition free_pages :: "pmm \<Rightarrow> paddr set" where
  "free_pages s = push_bit 12 ` free_set s"

definition managed_pages :: "pmm \<Rightarrow> paddr set" where
  "managed_pages s = push_bit 12 ` {i. 0 < i \<and> i < bitmap_len s}"

lemma pmm_inv_lt: "pmm_inv s \<Longrightarrow> i < bitmap_len s \<Longrightarrow> i < 2 ^ 52"
  by (auto simp: pmm_inv_def)

lemma free_pages_iff:
  "pmm_inv s \<Longrightarrow> i < bitmap_len s \<Longrightarrow> push_bit 12 i \<in> free_pages s \<longleftrightarrow> is_free i s"
  using page_addr_inj pmm_inv_lt by (fastforce simp: free_pages_def free_set_def)

section \<open>Single pages\<close>

lemma alloc_scan_Some:
  "alloc_scan k n s = Some i \<Longrightarrow> 0 < bitmap_len s \<Longrightarrow> i < bitmap_len s \<and> is_free i s"
proof (induction k arbitrary: n)
  case (Suc k)
  then show ?case
    by (auto simp: Let_def word_less_nat_alt unat_mod split: if_splits)
qed simp

lemma alloc_scan_None:
  "alloc_scan k n s = None \<Longrightarrow> m < k \<Longrightarrow> \<not> is_free ((next_free_scan s + (n + of_nat m)) mod bitmap_len s) s"
proof (induction k arbitrary: n m)
  case (Suc k)
  then show ?case
  proof (cases m)
    case (Suc m')
    with Suc.prems Suc.IH [of "n + 1" m'] show ?thesis
      by (auto simp: Let_def algebra_simps split: if_splits)
  qed (auto simp: Let_def split: if_splits)
qed simp

lemma alloc_scan_complete:
  assumes "pmm_inv s" and "alloc_scan (unat (bitmap_len s)) 0 s = None"
  shows "free_set s = {}"
proof -
  have "\<not> is_free i s" if i: "i < bitmap_len s" for i
  proof -
    let ?c = "unat (next_free_scan s)" and ?l = "unat (bitmap_len s)"
    define m where "m = (if ?c \<le> unat i then unat i - ?c else ?l - ?c + unat i)"
    have lim: "?l \<le> 2 ^ 52" "?c < ?l" "unat i < ?l"
      using assms(1) i by (auto simp: pmm_inv_def word_less_nat_alt word_le_nat_alt)
    then have m: "m < ?l" and cm: "(?c + m) mod ?l = unat i"
      by (auto simp: m_def)
    have "unat ((next_free_scan s + (0 + of_nat m)) mod bitmap_len s) = unat i"
      using lim m cm by (simp add: unat_mod unat_word_ariths unat_of_nat)
    then have "(next_free_scan s + (0 + of_nat m)) mod bitmap_len s = i"
      by (simp add: word_unat_eq_iff)
    with alloc_scan_None [OF assms(2) m] show ?thesis by simp
  qed
  then show ?thesis by (auto simp: free_set_def)
qed

lemma card_minus_one:
  "i \<in> A \<Longrightarrow> (of_nat (card (A :: u64 set)) :: u64) - 1 = of_nat (card (A - {i}))"
  by (metis card_Suc_Diff1 finite add_diff_cancel_left' of_nat_Suc)

lemma card_plus_one:
  "i \<notin> A \<Longrightarrow> (of_nat (card (A :: u64 set)) :: u64) + 1 = of_nat (card (insert i A))"
  by simp

lemma pmm_alloc_cases:
  assumes "pmm_inv s"
  obtains (none) "pmm_alloc s = (0, s)" "free_set s = {}"
  | (page) i s' where "pmm_alloc s = (push_bit 12 i, s')" "i \<in> free_set s" "i < 2 ^ 52" "i \<noteq> 0"
      "free_set s' = free_set s - {i}" "pmm_inv s'" "bitmap_len s' = bitmap_len s"
      "refcounts s' = refcounts s"
proof (cases "alloc_scan (unat (bitmap_len s)) 0 s")
  case None
  then show ?thesis using none assms alloc_scan_complete by (simp add: pmm_alloc_def)
next
  case (Some i)
  have len: "0 < bitmap_len s" using assms by (simp add: pmm_inv_def)
  with Some have i: "i < bitmap_len s" "is_free i s" using alloc_scan_Some by blast+
  then have i_free: "i \<in> free_set s" by (simp add: free_set_def)
  let ?s = "set_used i s"
  let ?s' = "?s\<lparr>next_free_scan := (i + 1) mod bitmap_len s, free_count := free_count s - 1\<rparr>"
  have fs: "free_set ?s' = free_set s - {i}" by (auto simp: free_set_def)
  show ?thesis
  proof (rule page)
    show "pmm_alloc s = (push_bit 12 i, ?s')"
      using Some by (simp add: pmm_alloc_def Let_def uix_const)
    show "i < 2 ^ 52" using assms i(1) by (rule pmm_inv_lt)
    show "i \<noteq> 0" using assms i_free by (auto simp: pmm_inv_def)
    show "pmm_inv ?s'"
      using assms fs card_minus_one [OF i_free] len
      by (simp add: pmm_inv_def word_less_nat_alt unat_mod)
  qed (use i_free fs in simp_all)
qed

lemma pmm_free_ok:
  assumes "pmm_inv s" and "i < bitmap_len s" and "\<not> is_free i s" and "i \<noteq> 0"
  obtains s' where "pmm_free (push_bit 12 i) s = Inr s'" "free_set s' = insert i (free_set s)"
    "pmm_inv s'" "bitmap_len s' = bitmap_len s" "refcounts s' = refcounts s"
proof -
  let ?s' = "(set_free i s)\<lparr>free_count := free_count s + 1\<rparr>"
  have i: "i < 2 ^ 52" using assms(1,2) by (rule pmm_inv_lt)
  have fs: "free_set ?s' = insert i (free_set s)" using assms(2) by (auto simp: free_set_def)
  have notin: "i \<notin> free_set s" using assms(3) by (simp add: free_set_def)
  show thesis
  proof (rule that)
    show "pmm_free (push_bit 12 i) s = Inr ?s'"
      using assms i by (simp add: pmm_free_def Let_def uix_const not_le)
    show "pmm_inv ?s'"
      using assms(1,4) fs card_plus_one [OF notin] by (simp add: pmm_inv_def)
  qed (use fs in simp_all)
qed

lemma pmm_free_bad:
  "drop_bit 12 page \<ge> bitmap_len s \<or> is_free (drop_bit 12 page) s \<Longrightarrow>
   pmm_free page s = Inl (Panic ''pmm: double free or bad page %p'')"
  by (simp add: pmm_free_def Let_def uix_const)

section \<open>Runs of pages\<close>

lemma use_run_frame [simp]:
  "bitmap_len (use_run c p s) = bitmap_len s" "total_pages (use_run c p s) = total_pages s"
  "free_count (use_run c p s) = free_count s" "next_free_scan (use_run c p s) = next_free_scan s"
  "refcounts (use_run c p s) = refcounts s"
  by (induction c p s rule: use_run.induct) simp_all

lemma is_free_use_run:
  "c \<le> 2 ^ 64 \<Longrightarrow> is_free j (use_run c p s) \<longleftrightarrow> is_free j s \<and> \<not> unat (j - p) < c"
proof (induction c arbitrary: p s)
  case (Suc c)
  then show ?case by (cases "j = p") (auto simp: unat_dist_Suc)
qed simp

text \<open>\<open>free_window s b n\<close>: the \<open>n\<close> pages from number \<open>b\<close> on are all free.\<close>

definition free_window :: "pmm \<Rightarrow> nat \<Rightarrow> nat \<Rightarrow> bool" where
  "free_window s b n \<longleftrightarrow> (\<forall>j \<in> {b..<b + n}. is_free (of_nat j) s)"

lemma free_windowD: "free_window s b n \<Longrightarrow> b \<le> unat i \<Longrightarrow> unat i < b + n \<Longrightarrow> is_free i s"
proof -
  assume "free_window s b n" and "b \<le> unat i" and "unat i < b + n"
  then have "is_free (of_nat (unat i)) s" unfolding free_window_def by (metis atLeastLessThan_iff)
  then show "is_free i s" by simp
qed

lemma run_scan_spec:
  assumes "unat i + k \<le> 2 ^ 52" and "unat run \<le> unat i" and "unat run < unat n"
    and "\<forall>j \<in> {unat i - unat run..<unat i}. is_free (of_nat j) s"
  shows "case run_scan k i run n s of
      None \<Rightarrow> \<forall>b. unat i - unat run \<le> b \<longrightarrow> b + unat n \<le> unat i + k \<longrightarrow> \<not> free_window s b (unat n)
    | Some e \<Rightarrow> unat e < unat i + k \<and> unat n \<le> Suc (unat e) \<and>
        free_window s (Suc (unat e) - unat n) (unat n) \<and>
        (\<forall>b. unat i - unat run \<le> b \<longrightarrow> free_window s b (unat n) \<longrightarrow> Suc (unat e) - unat n \<le> b)"
  using assms
proof (induction k arbitrary: i run)
  case 0
  then show ?case by (auto simp: free_window_def)
next
  case (Suc k)
  have i1: "unat (i + 1) = Suc (unat i)" and r1: "unat (run + 1) = Suc (unat run)"
    using Suc.prems by (simp_all add: unat_word_ariths)
  show ?case
  proof (cases "is_free i s")
    case free: True
    then have run': "\<forall>j \<in> {unat i - unat run..<Suc (unat i)}. is_free (of_nat j) s"
      using Suc.prems(4) by (auto simp: less_Suc_eq)
    show ?thesis
    proof (cases "run + 1 = n")
      case True
      then have n: "unat n = Suc (unat run)" using r1 by simp
      then have "free_window s (Suc (unat i) - unat n) (unat n)"
        using run' Suc.prems(2) by (auto simp: free_window_def)
      with free True n Suc.prems show ?thesis by simp
    next
      case False
      then have "unat (run + 1) \<noteq> unat n" by (simp add: word_unat_eq_iff)
      then have "unat (run + 1) < unat n" using r1 Suc.prems(3) by simp
      with Suc.IH [of "i + 1" "run + 1"] Suc.prems run' free False i1 r1 show ?thesis
        by (auto simp: Let_def split: option.splits)
    qed
  next
    case False
    have IH: "case run_scan k (i + 1) 0 n s of
      None \<Rightarrow> \<forall>b. Suc (unat i) \<le> b \<longrightarrow> b + unat n \<le> Suc (unat i) + k \<longrightarrow> \<not> free_window s b (unat n)
    | Some e \<Rightarrow> unat e < Suc (unat i) + k \<and> unat n \<le> Suc (unat e) \<and>
        free_window s (Suc (unat e) - unat n) (unat n) \<and>
        (\<forall>b. Suc (unat i) \<le> b \<longrightarrow> free_window s b (unat n) \<longrightarrow> Suc (unat e) - unat n \<le> b)"
      using Suc.IH [of "i + 1" 0] Suc.prems i1 by (simp split: option.splits)
    have skip: "Suc (unat i) \<le> b" if "free_window s b (unat n)" "unat i - unat run \<le> b" for b
    proof (rule ccontr)
      assume "\<not> Suc (unat i) \<le> b"
      then have "unat i \<in> {b..<b + unat n}" using that(2) Suc.prems(2,3) by auto
      then show False using free_windowD [OF that(1), of i] False by simp
    qed
    from IH skip False show ?thesis by (auto split: option.splits)
  qed
qed

lemma run_scan_0:
  "unat i + k \<le> 2 ^ 52 \<Longrightarrow> unat run \<le> unat i \<Longrightarrow> run_scan k i run 0 s = None"
proof (induction k arbitrary: i run)
  case (Suc k)
  then have "unat (i + 1) = Suc (unat i)" "unat (run + 1) = Suc (unat run)"
    by (simp_all add: unat_word_ariths)
  moreover from this have "run + 1 \<noteq> 0" by (metis nat.distinct(1) unat_0)
  ultimately show ?case using Suc by (simp add: Let_def)
qed simp

definition run_pages :: "u64 \<Rightarrow> u64 \<Rightarrow> u64 set" where
  "run_pages a n = {i. unat (i - a) < unat n}"

lemma run_pages_range:
  assumes "unat a + unat n \<le> 2 ^ 64"
  shows "i \<in> run_pages a n \<longleftrightarrow> unat a \<le> unat i \<and> unat i < unat a + unat n"
proof (cases "a \<le> i")
  case True
  then show ?thesis by (auto simp: run_pages_def unat_sub word_le_nat_alt)
next
  case False
  then have "unat (i - a) = 2 ^ 64 - (unat a - unat i)" and "unat i < unat a"
    using unat_dist_rev [of i a] by (simp_all add: word_less_nat_alt not_le)
  then show ?thesis using assms False unat_lt_64 [of a] by (auto simp: run_pages_def word_le_nat_alt)
qed

lemma card_run_pages:
  assumes "unat a + unat n \<le> 2 ^ 64"
  shows "card (run_pages a n) = unat n"
proof -
  have "unat ` run_pages a n = {unat a..<unat a + unat n}"
  proof (intro set_eqI iffI)
    fix k assume k: "k \<in> {unat a..<unat a + unat n}"
    then have "unat (of_nat k :: u64) = k" using assms by (simp add: unat_of_nat)
    with k assms have "(of_nat k :: u64) \<in> run_pages a n" by (simp add: run_pages_range)
    with \<open>unat (of_nat k :: u64) = k\<close> show "k \<in> unat ` run_pages a n" by (metis imageI)
  qed (use assms in \<open>auto simp: run_pages_range\<close>)
  moreover have "inj_on (unat :: u64 \<Rightarrow> nat) (run_pages a n)"
    by (simp add: inj_on_def word_unat_eq_iff)
  ultimately show ?thesis by (metis card_image card_atLeastLessThan add_diff_cancel_left')
qed

lemma card_minus_run:
  assumes "run_pages a n \<subseteq> A" and "unat a + unat n \<le> 2 ^ 64"
  shows "(of_nat (card A) :: u64) - n = of_nat (card (A - run_pages a n))"
proof -
  have "card A = unat n + card (A - run_pages a n)"
    using assms card_run_pages [OF assms(2)]
    by (metis add.commute card_Diff_subset card_mono finite le_add_diff_inverse)
  then show ?thesis by simp
qed

lemma pmm_alloc_pages_cases:
  assumes "pmm_inv s" and "0 < n"
  obtains (none) "pmm_alloc_pages n s = (0, s)"
      "\<forall>b. b + unat n \<le> unat (bitmap_len s) \<longrightarrow> \<not> free_window s b (unat n)"
  | (run) a s' where "pmm_alloc_pages n s = (push_bit 12 a, s')" "a \<noteq> 0" "a < 2 ^ 52"
      "unat a + unat n \<le> unat (bitmap_len s)" "run_pages a n \<subseteq> free_set s"
      "\<forall>b. free_window s b (unat n) \<longrightarrow> unat a \<le> b"
      "free_set s' = free_set s - run_pages a n" "pmm_inv s'" "bitmap_len s' = bitmap_len s"
      "refcounts s' = refcounts s"
proof -
  have lim: "unat (bitmap_len s) \<le> 2 ^ 52" and n: "0 < unat n"
    using assms by (auto simp: pmm_inv_def word_le_nat_alt word_less_nat_alt)
  note scan = run_scan_spec [of 0 "unat (bitmap_len s)" 0 n s]
  show ?thesis
  proof (cases "run_scan (unat (bitmap_len s)) 0 0 n s")
    case None
    then show ?thesis using none scan lim n by (simp add: pmm_alloc_pages_def)
  next
    case (Some e)
    then have e: "unat e < unat (bitmap_len s)" "unat n \<le> Suc (unat e)"
      and win: "free_window s (Suc (unat e) - unat n) (unat n)"
      and first: "\<forall>b. free_window s b (unat n) \<longrightarrow> Suc (unat e) - unat n \<le> b"
      using scan lim n by simp_all
    define a where "a = e - n + 1"
    have a: "unat a = Suc (unat e) - unat n"
      using e lim unfolding a_def by unat_arith
    then have range: "unat a + unat n \<le> unat (bitmap_len s)" using e by simp
    then have range64: "unat a + unat n \<le> 2 ^ 64" using lim by simp
    have sub: "run_pages a n \<subseteq> free_set s"
    proof
      fix i assume "i \<in> run_pages a n"
      then have i: "unat a \<le> unat i" "unat i < unat a + unat n" using run_pages_range [OF range64] by auto
      then have "is_free i s" using free_windowD [OF win, of i] a by simp
      then show "i \<in> free_set s" using i range by (simp add: free_set_def word_less_nat_alt)
    qed
    have ea: "unat (e - a) + 1 = unat n"
      using a e n by (simp add: unat_sub word_le_nat_alt)
    let ?s' = "(use_run (unat n) a s)\<lparr>free_count := free_count s - n,
        next_free_scan := (e + 1) mod bitmap_len s\<rparr>"
    have fs: "free_set ?s' = free_set s - run_pages a n"
      by (auto simp: free_set_def is_free_use_run run_pages_def)
    have ain: "a \<in> free_set s" using sub n by (auto simp: run_pages_def)
    show ?thesis
    proof (rule run)
      show "pmm_alloc_pages n s = (push_bit 12 a, ?s')"
        using Some ea by (simp add: pmm_alloc_pages_def Let_def uix_const flip: a_def del: use_run.simps)
      show "a \<noteq> 0" using ain assms(1) by (auto simp: pmm_inv_def)
      show "a < 2 ^ 52" using ain assms(1) pmm_inv_lt by (auto simp: free_set_def)
      show "\<forall>b. free_window s b (unat n) \<longrightarrow> unat a \<le> b" using first a by simp
      show "pmm_inv ?s'"
        using assms(1) fs card_minus_run [OF sub range64] by (simp add: pmm_inv_def word_less_nat_alt unat_mod)
    qed (use range sub fs in simp_all)
  qed
qed

section \<open>Reference counts and the free set\<close>

lemma free_set_upd [simp]:
  "free_set (s\<lparr>refcounts := c\<rparr>) = free_set s" "free_set (s\<lparr>refcounts_pages := d\<rparr>) = free_set s"
  by (simp_all add: free_set_def)

lemma pmm_inv_upd [simp]:
  "pmm_inv (s\<lparr>refcounts := c\<rparr>) = pmm_inv s" "pmm_inv (s\<lparr>refcounts_pages := d\<rparr>) = pmm_inv s"
  by (simp_all add: pmm_inv_def)

lemma refcounts_grow_keeps:
  assumes inv: "pmm_inv s"
  shows "pmm_inv (refcounts_grow s)" "bitmap_len (refcounts_grow s) = bitmap_len s"
    "free_set (refcounts_grow s) \<subseteq> free_set s"
proof -
  let ?need = "(total_pages s * 2 + UIX_PAGE_SIZE - 1) div UIX_PAGE_SIZE"
  let ?s = "s\<lparr>refcounts_pages := ?need\<rparr>"
  have n: "0 < unat (total_pages s)" "unat (total_pages s) \<le> 2 ^ 52"
    using inv by (auto simp: pmm_inv_def word_less_nat_alt word_le_nat_alt)
  then have "unat ?need = (unat (total_pages s) * 2 + 4095) div 4096"
    by (simp add: uix_const unat_div unat_word_ariths)
  then have need: "0 < ?need" using n by (simp add: word_less_nat_alt)
  have inv': "pmm_inv ?s" using inv by simp
  have "pmm_inv (refcounts_grow s) \<and> bitmap_len (refcounts_grow s) = bitmap_len s \<and>
    free_set (refcounts_grow s) \<subseteq> free_set s"
    using inv' need
    by (cases rule: pmm_alloc_pages_cases [of ?s ?need])
      (auto simp: refcounts_grow_def Let_def inv split: option.splits)
  then show "pmm_inv (refcounts_grow s)" "bitmap_len (refcounts_grow s) = bitmap_len s"
    "free_set (refcounts_grow s) \<subseteq> free_set s" by blast+
qed

lemma pmm_ref_keeps:
  assumes "pmm_inv s"
  shows "pmm_inv (pmm_ref p s)" "bitmap_len (pmm_ref p s) = bitmap_len s" "free_set (pmm_ref p s) \<subseteq> free_set s"
  using assms refcounts_grow_keeps [OF assms]
  by (auto simp: pmm_ref_def Let_def split: option.splits)

section \<open>The allocator interface\<close>

text \<open>
  What the rest of the kernel relies on. \<open>avail\<close> is the set of pages that may be handed
  out, \<open>managed\<close> the pages that may be given back.
\<close>

locale page_allocator =
  fixes alloc :: "'s \<Rightarrow> paddr \<times> 's"
    and release :: "paddr \<Rightarrow> 's \<Rightarrow> 's res"
    and avail :: "'s \<Rightarrow> paddr set"
    and managed :: "'s \<Rightarrow> paddr set"
    and ok :: "'s \<Rightarrow> bool"
  assumes alloc_none: "ok s \<Longrightarrow> alloc s = (0, s') \<Longrightarrow> s' = s \<and> avail s = {}"
    and alloc_page: "ok s \<Longrightarrow> alloc s = (p, s') \<Longrightarrow> p \<noteq> 0 \<Longrightarrow>
      p \<in> avail s \<and> avail s' = avail s - {p} \<and> managed s' = managed s \<and> ok s'"
    and release_ok: "ok s \<Longrightarrow> p \<in> managed s \<Longrightarrow> p \<notin> avail s \<Longrightarrow>
      \<exists>s'. release p s = Inr s' \<and> avail s' = insert p (avail s) \<and> managed s' = managed s \<and> ok s'"
    and release_free: "ok s \<Longrightarrow> p \<in> avail s \<Longrightarrow> \<exists>m. release p s = Inl (Panic m)"
    and avail_managed: "ok s \<Longrightarrow> avail s \<subseteq> managed s"
    and avail_nonzero: "ok s \<Longrightarrow> 0 \<notin> avail s"

text \<open>Allocating \<open>n\<close> pages one by one, and giving a list of pages back.\<close>

fun alloc_loop :: "('s \<Rightarrow> paddr \<times> 's) \<Rightarrow> nat \<Rightarrow> 's \<Rightarrow> (paddr list \<times> 's) option" where
  "alloc_loop alloc 0 s = Some ([], s)"
| "alloc_loop alloc (Suc n) s =
     (case alloc s of (p, s1) \<Rightarrow>
       if p = 0 then None
       else (case alloc_loop alloc n s1 of None \<Rightarrow> None | Some (ps, s2) \<Rightarrow> Some (p # ps, s2)))"

fun release_loop :: "(paddr \<Rightarrow> 's \<Rightarrow> 's res) \<Rightarrow> paddr list \<Rightarrow> 's \<Rightarrow> 's res" where
  "release_loop release [] s = Inr s"
| "release_loop release (p # ps) s =
     (case release p s of Inl e \<Rightarrow> Inl e | Inr s1 \<Rightarrow> release_loop release ps s1)"

context page_allocator
begin

lemma alloc_loop_pages:
  "ok s \<Longrightarrow> alloc_loop alloc n s = Some (ps, s') \<Longrightarrow>
   length ps = n \<and> distinct ps \<and> set ps \<subseteq> avail s \<and> avail s' = avail s - set ps \<and>
   managed s' = managed s \<and> ok s'"
proof (induction n arbitrary: s ps s')
  case (Suc n)
  obtain p s1 where a: "alloc s = (p, s1)" by force
  with Suc.prems obtain qs where p: "p \<noteq> 0" and qs: "alloc_loop alloc n s1 = Some (qs, s')"
    and ps: "ps = p # qs"
    by (auto split: if_splits option.splits)
  note step = alloc_page [OF Suc.prems(1) a p]
  from Suc.IH [OF _ qs] step ps show ?case by auto
qed auto

lemma alloc_loop_enough:
  "ok s \<Longrightarrow> finite (avail s) \<Longrightarrow> n \<le> card (avail s) \<Longrightarrow> \<exists>ps s'. alloc_loop alloc n s = Some (ps, s')"
proof (induction n arbitrary: s)
  case (Suc n)
  obtain p s1 where a: "alloc s = (p, s1)" by force
  have p: "p \<noteq> 0"
    using alloc_none [OF Suc.prems(1)] a Suc.prems(3) by auto
  note step = alloc_page [OF Suc.prems(1) a p]
  then have "n \<le> card (avail s1)" using Suc.prems by simp
  with Suc.IH [of s1] step Suc.prems(2) a p show ?case by auto
qed simp

lemma release_loop_pages:
  "ok s \<Longrightarrow> distinct ps \<Longrightarrow> set ps \<subseteq> managed s \<Longrightarrow> set ps \<inter> avail s = {} \<Longrightarrow>
   \<exists>s'. release_loop release ps s = Inr s' \<and> avail s' = avail s \<union> set ps \<and> ok s'"
proof (induction ps arbitrary: s)
  case (Cons p ps)
  then obtain s1 where "release p s = Inr s1" "avail s1 = insert p (avail s)"
      "managed s1 = managed s" "ok s1"
    using release_ok [of s p] by auto
  with Cons.IH [of s1] Cons.prems show ?case by auto
qed simp

text \<open>Taking \<open>n\<close> pages and giving them back leaves the same pages available.\<close>

lemma alloc_release_loop:
  assumes "ok s" and "finite (avail s)" and "n \<le> card (avail s)"
  shows "\<exists>ps s1 s2. alloc_loop alloc n s = Some (ps, s1) \<and> length ps = n \<and> distinct ps \<and>
    release_loop release ps s1 = Inr s2 \<and> avail s2 = avail s \<and> ok s2"
proof -
  obtain ps s1 where a: "alloc_loop alloc n s = Some (ps, s1)"
    using alloc_loop_enough [OF assms] by blast
  note pages = alloc_loop_pages [OF assms(1) a]
  then obtain s2 where "release_loop release ps s1 = Inr s2" "avail s2 = avail s1 \<union> set ps" "ok s2"
    using release_loop_pages [of s1 ps] avail_managed [OF assms(1)] by auto
  with a pages show ?thesis by auto
qed

end

interpretation pmm_pages: page_allocator pmm_alloc pmm_free free_pages managed_pages pmm_inv
proof unfold_locales
  fix s s' :: pmm and p :: paddr
  assume inv: "pmm_inv s"
  show "s' = s \<and> free_pages s = {}" if "pmm_alloc s = (0, s')"
    using inv that page_addr_0 by (cases rule: pmm_alloc_cases) (auto simp: free_pages_def)
  show "p \<in> free_pages s \<and> free_pages s' = free_pages s - {p} \<and>
      managed_pages s' = managed_pages s \<and> pmm_inv s'" if a: "pmm_alloc s = (p, s')" "p \<noteq> 0"
    using inv
  proof (cases rule: pmm_alloc_cases)
    case (page i t)
    have "inj_on (push_bit 12) (free_set s)"
      by (rule inj_onI) (use page_addr_inj pmm_inv_lt [OF inv] in \<open>simp add: free_set_def\<close>)
    then have "push_bit 12 ` (free_set s - {i}) = free_pages s - {push_bit 12 i}"
      using page(2) by (simp add: free_pages_def inj_on_image_set_diff [where C = "free_set s"])
    with page a show ?thesis by (auto simp: free_pages_def managed_pages_def)
  qed (use a in simp)
  show "\<exists>s'. pmm_free p s = Inr s' \<and> free_pages s' = insert p (free_pages s) \<and>
      managed_pages s' = managed_pages s \<and> pmm_inv s'"
    if "p \<in> managed_pages s" "p \<notin> free_pages s"
  proof -
    from that obtain i where i: "p = push_bit 12 i" "0 < i" "i < bitmap_len s" "\<not> is_free i s"
      using free_pages_iff [OF inv] by (auto simp: managed_pages_def)
    from pmm_free_ok [OF inv i(3,4)] i(2) obtain t where
      "pmm_free (push_bit 12 i) s = Inr t" "free_set t = insert i (free_set s)" "pmm_inv t"
      "bitmap_len t = bitmap_len s" by (metis word_neq_0_conv)
    with i(1) show ?thesis by (auto simp: free_pages_def managed_pages_def)
  qed
  show "\<exists>m. pmm_free p s = Inl (Panic m)" if "p \<in> free_pages s"
    using that inv pmm_free_bad [of s p] pmm_inv_lt by (auto simp: free_pages_def free_set_def)
  show "free_pages s \<subseteq> managed_pages s"
    using inv word_neq_0_conv by (fastforce simp: free_pages_def managed_pages_def free_set_def pmm_inv_def)
  show "0 \<notin> free_pages s"
    using inv page_addr_0 pmm_inv_lt by (force simp: free_pages_def free_set_def pmm_inv_def)
qed

section \<open>Initialisation builds the invariant\<close>

lemma mark_free_run_frame [simp]:
  "bitmap_len (mark_free_run c p s) = bitmap_len s" "total_pages (mark_free_run c p s) = total_pages s"
  "next_free_scan (mark_free_run c p s) = next_free_scan s"
  "refcounts (mark_free_run c p s) = refcounts s" "bitmap_phys (mark_free_run c p s) = bitmap_phys s"
  "free_count (mark_free_run c p s) = free_count s + of_nat c"
  by (induction c p s rule: mark_free_run.induct) (simp_all add: algebra_simps)

lemma is_free_mark_free_run:
  "c \<le> 2 ^ 64 \<Longrightarrow> is_free j (mark_free_run c p s) \<longleftrightarrow> is_free j s \<or> unat (j - p) < c"
proof (induction c arbitrary: p s)
  case (Suc c)
  then show ?case by (cases "j = p") (auto simp: unat_dist_Suc)
qed simp

lemma reserve_run_frame [simp]:
  "bitmap_len (reserve_run c p s) = bitmap_len s" "total_pages (reserve_run c p s) = total_pages s"
  "next_free_scan (reserve_run c p s) = next_free_scan s"
  "refcounts (reserve_run c p s) = refcounts s" "bitmap_phys (reserve_run c p s) = bitmap_phys s"
  "free_count (reserve_run c p s) = free_count s - of_nat c"
  by (induction c p s rule: reserve_run.induct) (simp_all add: algebra_simps)

lemma is_free_reserve_run:
  "c \<le> 2 ^ 64 \<Longrightarrow> is_free j (reserve_run c p s) \<longleftrightarrow> is_free j s \<and> \<not> unat (j - p) < c"
proof (induction c arbitrary: p s)
  case (Suc c)
  then show ?case by (cases "j = p") (auto simp: unat_dist_Suc)
qed simp

lemma bitmap_byte_covers:
  assumes "i < (l :: nat)"
  shows "i mod 64 < 8 * ((l + 7) div 8 - 8 * (i div 64))"
proof -
  have "l \<le> 8 * ((l + 7) div 8)" by presburger
  moreover have "i mod 64 = i - 64 * (i div 64)" by (simp add: minus_mult_div_eq_mod)
  moreover have "64 * (i div 64) \<le> i" by simp
  ultimately show ?thesis using assms by (simp add: diff_mult_distrib2)
qed

lemma is_free_clear_bitmap:
  assumes "i < len" and "len \<le> 2 ^ 52"
    and "bitmap s = clear_bitmap ((len + 7) div 8) old"
  shows "\<not> is_free i s"
proof -
  let ?r = "unat ((len + 7) div 8) - 8 * (unat i div 64)"
  have "unat ((len + 7) div 8) = (unat len + 7) div 8"
    using assms(2) by (simp add: unat_div unat_word_ariths word_le_nat_alt)
  then have r: "unat i mod 64 < 8 * ?r"
    using bitmap_byte_covers [of "unat i" "unat len"] assms(1) by (simp add: word_less_nat_alt)
  have w: "unat (BM_WORD i) = unat i div 64"
    by (simp add: BM_WORD_def drop_bit_eq_div unat_div)
  have "\<not> bit (clear_bitmap ((len + 7) div 8) old (BM_WORD i)) (unat i mod 64)"
    using r by (auto simp: clear_bitmap_def Let_def w bit_push_bit_iff)
  then show ?thesis using assms(3) by (simp add: is_free_bit)
qed

text \<open>The page numbers of a memory map entry, and of the usable entries of a map.\<close>

definition entry_pages :: "limine_memmap_entry \<Rightarrow> u64 set" where
  "entry_pages e = run_pages (drop_bit 12 (mm_base e)) (drop_bit 12 (mm_length e))"

fun usable_pages :: "limine_memmap_entry list \<Rightarrow> u64 set" where
  "usable_pages [] = {}"
| "usable_pages (e # es) =
     (if mm_type e = LIMINE_MEMMAP_USABLE then entry_pages e \<union> usable_pages es else usable_pages es)"

text \<open>
  What the Limine protocol promises of usable entries: page-aligned, not wrapping around, not
  containing page 0, not overlapping other usable entries.
\<close>

definition wf_entry :: "limine_memmap_entry \<Rightarrow> bool" where
  "wf_entry e \<longleftrightarrow> mm_base e mod 4096 = 0 \<and> mm_length e mod 4096 = 0 \<and> 0x1000 \<le> mm_base e \<and>
     unat (mm_base e) + unat (mm_length e) < 2 ^ 64"

fun wf_memmap :: "limine_memmap_entry list \<Rightarrow> bool" where
  "wf_memmap [] \<longleftrightarrow> True"
| "wf_memmap (e # es) \<longleftrightarrow> wf_memmap es \<and>
     (mm_type e = LIMINE_MEMMAP_USABLE \<longrightarrow> wf_entry e \<and>
       (\<forall>f \<in> set es. mm_type f = LIMINE_MEMMAP_USABLE \<longrightarrow>
          unat (mm_base e) + unat (mm_length e) \<le> unat (mm_base f) \<or>
          unat (mm_base f) + unat (mm_length f) \<le> unat (mm_base e)))"

lemma unat_page_no: "unat (drop_bit 12 (x :: u64)) = unat x div 4096"
  by (simp add: drop_bit_eq_div unat_div)

lemma page_no_small: "unat (x :: u64) div 4096 < 2 ^ 52"
  by (subst div_less_iff_less_mult) simp_all

lemma entry_pages_iff:
  assumes "wf_entry e"
  shows "i \<in> entry_pages e \<longleftrightarrow>
    unat (mm_base e) \<le> 4096 * unat i \<and> 4096 * unat i < unat (mm_base e) + unat (mm_length e)"
proof -
  obtain b l where bl: "unat (mm_base e) = 4096 * b" "unat (mm_length e) = 4096 * l"
    using assms by (auto simp: wf_entry_def word_unat_eq_iff unat_mod elim!: dvdE)
  have "unat (mm_base e) div 4096 + unat (mm_length e) div 4096 \<le> 2 ^ 64"
    using assms by (auto simp: wf_entry_def)
  then show ?thesis using bl
    unfolding entry_pages_def by (subst run_pages_range) (auto simp: unat_page_no)
qed

lemma usable_pages_cases:
  "i \<in> usable_pages es \<longleftrightarrow> (\<exists>e \<in> set es. mm_type e = LIMINE_MEMMAP_USABLE \<and> i \<in> entry_pages e)"
  by (induction es) auto

lemma wf_memmap_entry: "wf_memmap es \<Longrightarrow> e \<in> set es \<Longrightarrow> mm_type e = LIMINE_MEMMAP_USABLE \<Longrightarrow> wf_entry e"
  by (induction es) auto

lemma card_entry_pages:
  assumes "wf_entry e"
  shows "card (entry_pages e) = unat (drop_bit 12 (mm_length e))"
proof -
  have "unat (mm_base e) div 4096 + unat (mm_length e) div 4096 \<le> 2 ^ 64"
    using assms by (auto simp: wf_entry_def)
  then show ?thesis unfolding entry_pages_def by (intro card_run_pages) (simp add: unat_page_no)
qed

lemma entry_pages_disjoint:
  assumes "wf_memmap (e # es)" and "mm_type e = LIMINE_MEMMAP_USABLE"
  shows "entry_pages e \<inter> usable_pages es = {}"
proof -
  have False if i: "i \<in> entry_pages e" "f \<in> set es" "mm_type f = LIMINE_MEMMAP_USABLE" "i \<in> entry_pages f"
    for i f
  proof -
    have "wf_entry e" "wf_entry f" using assms i wf_memmap_entry [of "e # es"] by auto
    with i assms show False by (fastforce simp: entry_pages_iff)
  qed
  then show ?thesis by (auto simp: usable_pages_cases)
qed

lemma mark_usable_spec:
  "wf_memmap es \<Longrightarrow>
   bitmap_len (mark_usable es s) = bitmap_len s \<and> total_pages (mark_usable es s) = total_pages s \<and>
   next_free_scan (mark_usable es s) = next_free_scan s \<and> refcounts (mark_usable es s) = refcounts s \<and>
   bitmap_phys (mark_usable es s) = bitmap_phys s \<and>
   free_count (mark_usable es s) = free_count s + of_nat (card (usable_pages es)) \<and>
   (\<forall>i. is_free i (mark_usable es s) \<longleftrightarrow> is_free i s \<or> i \<in> usable_pages es)"
proof (induction es arbitrary: s)
  case (Cons e es)
  show ?case
  proof (cases "mm_type e = LIMINE_MEMMAP_USABLE")
    case True
    have "card (entry_pages e \<union> usable_pages es) =
        unat (drop_bit 12 (mm_length e)) + card (usable_pages es)"
      using entry_pages_disjoint [OF Cons.prems True] Cons.prems True
      by (simp add: card_Un_disjoint card_entry_pages)
    with Cons True show ?thesis
      by (auto simp: Let_def uix_const entry_pages_def run_pages_def is_free_mark_free_run)
  qed (use Cons in simp)
qed simp

lemma top_of_memory_bound:
  "wf_memmap es \<Longrightarrow> m \<le> top_of_memory es m \<and>
   (\<forall>e \<in> set es. mm_type e = LIMINE_MEMMAP_USABLE \<longrightarrow>
      unat (mm_base e) + unat (mm_length e) \<le> unat (top_of_memory es m))"
proof (induction es arbitrary: m)
  case (Cons e es)
  show ?case
  proof (cases "mm_type e = LIMINE_MEMMAP_USABLE")
    case True
    then have "unat (mm_base e + mm_length e) = unat (mm_base e) + unat (mm_length e)"
      using Cons.prems by (simp add: wf_entry_def unat_word_ariths)
    with Cons.IH [of "if mm_base e + mm_length e > m then mm_base e + mm_length e else m"] Cons.prems True
    show ?thesis by (simp add: Let_def word_le_nat_alt word_less_nat_alt split: if_splits)
  qed (use Cons in simp)
qed simp

lemma find_bitmap_home_Some:
  assumes "\<exists>e \<in> set es. mm_type e = LIMINE_MEMMAP_USABLE \<and> (n + 1) * UIX_PAGE_SIZE \<le> mm_length e"
  shows "\<exists>e \<in> set es. mm_type e = LIMINE_MEMMAP_USABLE \<and> (n + 1) * UIX_PAGE_SIZE \<le> mm_length e \<and>
    find_bitmap_home n es = mm_base e"
  using assms
proof (induction es)
  case (Cons e es)
  then show ?case
    by (cases "mm_type e = LIMINE_MEMMAP_USABLE \<and> (n + 1) * UIX_PAGE_SIZE \<le> mm_length e") simp_all
qed simp

definition bitmap_pages :: "limine_memmap_entry list \<Rightarrow> u64" where
  "bitmap_pages es =
     ((drop_bit UIX_PAGE_SHIFT (top_of_memory es 0) + 7) div 8 + UIX_PAGE_SIZE - 1) div UIX_PAGE_SIZE"

lemma bitmap_pages_small: "unat (bitmap_pages es) \<le> 2 ^ 38"
proof -
  let ?n = "unat (top_of_memory es 0) div 4096"
  have "?n \<le> 2 ^ 52" using page_no_small less_imp_le by blast
  then have "unat (bitmap_pages es) = ((?n + 7) div 8 + 4095) div 4096"
    by (simp add: bitmap_pages_def uix_const unat_div unat_word_ariths unat_page_no)
  also have "\<dots> \<le> 2 ^ 38" using \<open>?n \<le> 2 ^ 52\<close> by simp
  finally show ?thesis .
qed

lemma home_in_entry:
  assumes "wf_entry e" and "(bitmap_pages es + 1) * UIX_PAGE_SIZE \<le> mm_length e"
  shows "run_pages (drop_bit 12 (mm_base e)) (bitmap_pages es) \<subseteq> entry_pages e"
proof -
  have "unat ((bitmap_pages es + 1) * UIX_PAGE_SIZE) = (unat (bitmap_pages es) + 1) * 4096"
    using bitmap_pages_small [of es] by (simp add: uix_const unat_word_ariths)
  then have "unat (bitmap_pages es) \<le> unat (drop_bit 12 (mm_length e))"
    using assms(2) by (simp add: word_le_nat_alt unat_page_no)
  then show ?thesis by (auto simp: entry_pages_def run_pages_def)
qed

lemma usable_pages_in_bitmap:
  assumes "wf_memmap es" and "i \<in> usable_pages es"
  shows "0 < i" and "i < drop_bit 12 (top_of_memory es 0)"
proof -
  obtain e where e: "e \<in> set es" "mm_type e = LIMINE_MEMMAP_USABLE" "i \<in> entry_pages e"
    using assms(2) by (auto simp: usable_pages_cases)
  then have wf: "wf_entry e" using assms(1) wf_memmap_entry by blast
  then have i: "unat (mm_base e) \<le> 4096 * unat i" "4096 * unat i < unat (mm_base e) + unat (mm_length e)"
    using e(3) by (simp_all add: entry_pages_iff)
  obtain b l where bl: "unat (mm_base e) = 4096 * b" "unat (mm_length e) = 4096 * l"
    using wf by (auto simp: wf_entry_def word_unat_eq_iff unat_mod elim!: dvdE)
  have top: "4096 * b + 4096 * l \<le> unat (top_of_memory es 0)"
    using top_of_memory_bound [OF assms(1), of 0] e(1,2) bl by fastforce
  have "b + l \<le> unat (top_of_memory es 0) div 4096" using top by simp
  then show "i < drop_bit 12 (top_of_memory es 0)"
    using i bl by (simp add: word_less_nat_alt unat_page_no)
  have "4096 \<le> unat (mm_base e)" using wf by (simp add: wf_entry_def word_le_nat_alt)
  then show "0 < i" using i(1) by (simp add: word_less_nat_alt)
qed

lemma pmm_init_result:
  assumes wf: "wf_memmap (memmap bi)" and scan: "next_free_scan s = 0"
    and room: "\<exists>e \<in> set (memmap bi). mm_type e = LIMINE_MEMMAP_USABLE \<and>
      (bitmap_pages (memmap bi) + 1) * UIX_PAGE_SIZE \<le> mm_length e"
  shows "\<exists>s' con' home. pmm_init bi old s con = Inr (s', con') \<and> pmm_inv s' \<and>
    bitmap_phys s' = home \<and> refcounts s' = refcounts s \<and>
    run_pages (drop_bit 12 home) (bitmap_pages (memmap bi)) \<subseteq> usable_pages (memmap bi) \<and>
    free_set s' = usable_pages (memmap bi) - run_pages (drop_bit 12 home) (bitmap_pages (memmap bi))"
proof -
  let ?es = "memmap bi" and ?top = "drop_bit 12 (top_of_memory (memmap bi) 0)"
  let ?bm = "bitmap_pages (memmap bi)"
  obtain e where e: "e \<in> set ?es" "mm_type e = LIMINE_MEMMAP_USABLE"
    "(?bm + 1) * UIX_PAGE_SIZE \<le> mm_length e" and home: "find_bitmap_home ?bm ?es = mm_base e"
    using find_bitmap_home_Some [OF room] by blast
  have wfe: "wf_entry e" using wf e wf_memmap_entry by blast
  then have nz: "mm_base e \<noteq> 0" by (auto simp: wf_entry_def)
  define home_pages where "home_pages = run_pages (drop_bit 12 (mm_base e)) ?bm"
  have sub: "home_pages \<subseteq> usable_pages ?es"
    using home_in_entry [OF wfe e(3)] e(1,2) unfolding home_pages_def usable_pages_cases subset_iff
    by blast
  have range: "unat (drop_bit 12 (mm_base e)) + unat ?bm \<le> 2 ^ 64"
    using bitmap_pages_small [of ?es] page_no_small [of "mm_base e"] by (simp add: unat_page_no)
  define s1 where "s1 = s\<lparr>total_pages := ?top, bitmap_len := ?top,
    bitmap := clear_bitmap ((?top + 7) div 8) old, bitmap_phys := mm_base e, free_count := 0\<rparr>"
  define s2 where "s2 = reserve_run (unat ?bm) (drop_bit 12 (mm_base e)) (mark_usable ?es s1)"
  note spec = mark_usable_spec [OF wf, of s1]
  have top: "?top \<le> 2 ^ 52"
    using page_no_small [of "top_of_memory ?es 0"] by (simp add: word_le_nat_alt unat_page_no)
  have len: "bitmap_len s2 = ?top" "total_pages s2 = ?top" "next_free_scan s2 = 0"
    using spec scan by (simp_all add: s2_def s1_def)
  have "is_free i s2 \<longleftrightarrow> i \<in> usable_pages ?es - home_pages" if "i < ?top" for i
    using spec is_free_clear_bitmap [OF that top, of s1 old] bitmap_pages_small [of ?es]
    by (simp add: s2_def is_free_reserve_run home_pages_def run_pages_def) (simp add: s1_def)
  then have fs: "free_set s2 = usable_pages ?es - home_pages"
    using usable_pages_in_bitmap [OF wf] len by (auto simp: free_set_def)
  have "free_count s2 = of_nat (card (usable_pages ?es)) - ?bm"
    using spec by (simp add: s2_def s1_def)
  then have cnt: "free_count s2 = of_nat (card (free_set s2))"
    using card_minus_run [OF _ range] sub fs by (simp add: home_pages_def)
  have "unat ((?bm + 1) * UIX_PAGE_SIZE) = (unat ?bm + 1) * 4096"
    using bitmap_pages_small [of ?es] by (simp add: uix_const unat_word_ariths)
  then have "1 \<le> unat (mm_length e) div 4096" using e(3) by (simp add: word_le_nat_alt)
  then have "drop_bit 12 (mm_base e) \<in> usable_pages ?es"
    using e(1,2) by (auto simp: usable_pages_cases entry_pages_def run_pages_def unat_page_no)
  then have pos: "0 < ?top" using usable_pages_in_bitmap [OF wf] order_less_trans by blast
  have "0 \<notin> free_set s2" using fs usable_pages_in_bitmap(1) [OF wf] by blast
  then have inv: "pmm_inv s2" using len top pos cnt by (simp add: pmm_inv_def)
  have "\<exists>con'. pmm_init bi old s con = Inr (s2, con')"
    using home nz by (simp add: pmm_init_def Let_def s2_def s1_def bitmap_pages_def uix_const)
  moreover have "bitmap_phys s2 = mm_base e" "refcounts s2 = refcounts s"
    using spec by (simp_all add: s2_def s1_def)
  ultimately show ?thesis using inv fs sub unfolding home_pages_def by blast
qed

section \<open>The properties\<close>

text \<open>A small manager to evaluate the theorems on: 8 pages, pages 1, 2, 3, 5 and 6 free.\<close>

definition pmm_example :: pmm where
  "pmm_example = \<lparr>bitmap = (\<lambda>_. 0)(0 := 0x6E), bitmap_len = 8, total_pages = 8, free_count = 5,
     bitmap_phys = 0x7000, next_free_scan = 4, refcounts = None, refcounts_pages = 0\<rparr>"

lemma free_set_list:
  "free_set s = set (filter (\<lambda>i. is_free i s) (map of_nat [0..<unat (bitmap_len s)]))"
proof -
  have "i \<in> of_nat ` {0..<unat l} \<longleftrightarrow> i < l" for i l :: u64
  proof
    assume "i < l"
    then show "i \<in> of_nat ` {0..<unat l}"
      by (intro image_eqI [of _ _ "unat i"]) (simp_all add: word_less_nat_alt)
  qed (auto simp: word_less_nat_alt unat_of_nat intro: le_less_trans [OF mod_less_eq_dividend])
  then show ?thesis by (auto simp: free_set_def)
qed

lemma free_set_example: "free_set pmm_example = {1, 2, 3, 5, 6}"
  by (simp add: free_set_list pmm_example_def is_free_def BM_WORD_def BM_BIT_def upt_conv_Cons insert_commute)

lemma pmm_inv_example: "pmm_inv pmm_example"
  by (simp add: pmm_inv_def free_set_example) (simp add: pmm_example_def)

text \<open>
  Claim C14. Single-page allocation. In a manager satisfying the invariant \<^verbatim>\<open>pmm_alloc\<close>
  fails (with 0) only when no page is free, and then changes nothing; otherwise it hands out a
  page that was free, exactly that page stops being free, the pages it accounts for stay the
  same and the invariant (the counter equals the number of free pages, the cursor is in range,
  page 0 is never free) is kept.
\<close>

theorem pmm_alloc_correct:
  assumes "pmm_inv s" and "pmm_alloc s = (p, s')"
  shows "if p = 0 then s' = s \<and> free_pages s = {}
    else p \<in> free_pages s \<and> free_pages s' = free_pages s - {p} \<and>
      managed_pages s' = managed_pages s \<and> pmm_inv s'"
  using assms pmm_pages.alloc_none [of s s'] pmm_pages.alloc_page [of s p s'] by auto

theorem pmm_alloc_correct_witness:
  "let s' = snd (pmm_alloc pmm_example) in
   pmm_alloc pmm_example = (0x5000, s') \<and> free_pages s' = free_pages pmm_example - {0x5000} \<and> pmm_inv s'"
proof -
  have "fst (pmm_alloc pmm_example) = 0x5000" by code_simp
  then have "pmm_alloc pmm_example = (0x5000, snd (pmm_alloc pmm_example))" by (simp add: prod_eq_iff)
  with pmm_alloc_correct [OF pmm_inv_example this] show ?thesis by (simp add: Let_def)
qed

text \<open>
  Allocation of runs is first fit: \<^verbatim>\<open>pmm_alloc_pages(n)\<close> with \<open>n > 0\<close> returns the
  address of the lowest window of \<open>n\<close> consecutive free pages and takes exactly those pages, and
  it returns 0 (changing nothing) only when the bitmap has no such window.
\<close>

theorem pmm_alloc_pages_first_fit:
  assumes "pmm_inv s" and "0 < n" and "pmm_alloc_pages n s = (p, s')"
  shows "if p = 0
    then s' = s \<and> (\<forall>b. b + unat n \<le> unat (bitmap_len s) \<longrightarrow> \<not> free_window s b (unat n))
    else free_window s (unat p div 4096) (unat n) \<and> unat p mod 4096 = 0 \<and>
      (\<forall>b. free_window s b (unat n) \<longrightarrow> unat p div 4096 \<le> b) \<and>
      free_set s' = free_set s - run_pages (drop_bit 12 p) n \<and> pmm_inv s'"
  using assms(1,2)
proof (cases rule: pmm_alloc_pages_cases)
  case none
  with assms(3) show ?thesis by simp
next
  case (run a t)
  have p: "p = push_bit 12 a" "t = s'" using run(1) assms(3) by auto
  have "unat a + unat n \<le> 2 ^ 64" using run(4) unat_lt_64 [of "bitmap_len s"] by linarith
  then have "free_window s (unat a) (unat n)"
    using run(5) unfolding free_window_def
    by (auto simp: subset_iff run_pages_range free_set_def unat_of_nat)
  with run p page_addr_0 [of a] page_addr_unat [of a] show ?thesis by simp
qed

theorem pmm_alloc_pages_first_fit_witness:
  "let s' = snd (pmm_alloc_pages 2 pmm_example) in
   pmm_alloc_pages 2 pmm_example = (0x1000, s') \<and>
   free_set s' = free_set pmm_example - run_pages 1 2 \<and> pmm_inv s'"
proof -
  have "fst (pmm_alloc_pages 2 pmm_example) = 0x1000" by code_simp
  then have "pmm_alloc_pages 2 pmm_example = (0x1000, snd (pmm_alloc_pages 2 pmm_example))"
    by (simp add: prod_eq_iff)
  with pmm_alloc_pages_first_fit [OF pmm_inv_example _ this] show ?thesis
    by (simp add: Let_def drop_bit_eq_div)
qed

text \<open>
  Claim C16. Freeing undoes allocation and double frees are caught: a page just allocated can
  be given back, after which the same pages are free as before and the invariant holds, and
  giving it back a second time panics instead of corrupting the bitmap.
\<close>

theorem pmm_free_undoes_alloc:
  assumes "pmm_inv s" and "pmm_alloc s = (p, s')" and "p \<noteq> 0"
  shows "\<exists>s''. pmm_free p s' = Inr s'' \<and> free_pages s'' = free_pages s \<and> pmm_inv s'' \<and>
    (\<exists>msg. pmm_free p s'' = Inl (Panic msg))"
proof -
  note a = pmm_pages.alloc_page [OF assms]
  then have "p \<in> managed_pages s'" using pmm_pages.avail_managed assms(1) by auto
  then obtain s'' where f: "pmm_free p s' = Inr s''" "free_pages s'' = insert p (free_pages s')" "pmm_inv s''"
    using a pmm_pages.release_ok [of s' p] by auto
  with a pmm_pages.release_free [of s'' p] show ?thesis by auto
qed

theorem pmm_free_undoes_alloc_witness:
  "\<exists>s''. pmm_free 0x5000 (snd (pmm_alloc pmm_example)) = Inr s'' \<and>
    free_pages s'' = free_pages pmm_example \<and> (\<exists>msg. pmm_free 0x5000 s'' = Inl (Panic msg))"
proof -
  have "fst (pmm_alloc pmm_example) = 0x5000" by code_simp
  then have "pmm_alloc pmm_example = (0x5000, snd (pmm_alloc pmm_example))" by (simp add: prod_eq_iff)
  from pmm_free_undoes_alloc [OF pmm_inv_example this] show ?thesis by auto
qed

text \<open>
  Claim C15. Initialisation. On a memory map as the boot protocol describes it, with some usable
  region that has room for the bitmap, \<^verbatim>\<open>pmm_init\<close> succeeds whatever the memory contained: it
  establishes the invariant, the bitmap lies within usable memory, and the free pages are exactly
  the usable pages other than those of the bitmap.
\<close>

theorem pmm_init_correct:
  assumes "wf_memmap (memmap bi)" and "next_free_scan s = 0"
    and "\<exists>e \<in> set (memmap bi). mm_type e = LIMINE_MEMMAP_USABLE \<and>
      (bitmap_pages (memmap bi) + 1) * UIX_PAGE_SIZE \<le> mm_length e"
  shows "\<exists>s' con'. pmm_init bi old s con = Inr (s', con') \<and> pmm_inv s' \<and>
    run_pages (drop_bit 12 (bitmap_phys s')) (bitmap_pages (memmap bi)) \<subseteq> usable_pages (memmap bi) \<and>
    free_set s' = usable_pages (memmap bi) -
      run_pages (drop_bit 12 (bitmap_phys s')) (bitmap_pages (memmap bi))"
  using pmm_init_result [OF assms] by metis

definition memmap_example :: "limine_memmap_entry list" where
  "memmap_example =
     [\<lparr>mm_base = 0x1000, mm_length = 0x9E000, mm_type = LIMINE_MEMMAP_USABLE\<rparr>,
      \<lparr>mm_base = 0x9F000, mm_length = 0x61000, mm_type = LIMINE_MEMMAP_RESERVED\<rparr>,
      \<lparr>mm_base = 0x100000, mm_length = 0x7EE0000, mm_type = LIMINE_MEMMAP_USABLE\<rparr>]"

theorem pmm_init_correct_witness:
  "\<exists>s' con'. pmm_init \<lparr>memmap = memmap_example, hhdm = 0xFFFF800000000000\<rparr> (\<lambda>_. -1)
      (pmm_example\<lparr>next_free_scan := 0\<rparr>) console_example = Inr (s', con') \<and> pmm_inv s' \<and>
    free_set s' = usable_pages memmap_example -
      run_pages (drop_bit 12 (bitmap_phys s')) (bitmap_pages memmap_example)"
proof -
  have "wf_memmap memmap_example"
    by (simp add: memmap_example_def wf_entry_def LIMINE_MEMMAP_USABLE_def LIMINE_MEMMAP_RESERVED_def)
  moreover have "bitmap_pages memmap_example = 1"
    by (simp add: memmap_example_def bitmap_pages_def Let_def uix_const
        LIMINE_MEMMAP_USABLE_def LIMINE_MEMMAP_RESERVED_def drop_bit_eq_div)
  ultimately show ?thesis
    using pmm_init_correct [of "\<lparr>memmap = memmap_example, hhdm = 0xFFFF800000000000\<rparr>"
        "pmm_example\<lparr>next_free_scan := 0\<rparr>" "\<lambda>_. -1" console_example]
    by (auto simp: memmap_example_def uix_const)
qed

end
