(* ===== verification/Vmm.thy ===== *)
theory Vmm
  imports Pmm
begin

text \<open>
  The virtual memory manager (\<^verbatim>\<open>core/memory/vmm.c\<close>): four-level x86-64 page tables.

  Physical memory is \<open>mem\<close>: the 512 words of the page at each page-aligned physical address. A
  table pointer \<^verbatim>\<open>pmm_phys_to_virt(e & PTE_MASK)\<close> is represented by the physical address
  \<open>e AND PTE_MASK\<close>, so \<^verbatim>\<open>t[i]\<close> is \<open>mem s t i\<close>. The variable \<^verbatim>\<open>pml4\<close>, the control
  register \<open>cr3\<close> and the instructions that affect the translation cache are part of the state.
\<close>

datatype tlb_op = Invlpg vaddr | LoadCr3 paddr

record vmm =
  pm :: pmm
  mem :: "paddr \<Rightarrow> nat \<Rightarrow> u64"
  pml4 :: paddr
  kernel_cr3 :: paddr
  cr3 :: paddr
  scratch_used :: "nat \<Rightarrow> u8"
  tlb_ops :: "tlb_op list"

definition VMM_PRESENT :: u64 where "VMM_PRESENT = 1"
definition VMM_WRITE :: u64 where "VMM_WRITE = 2"
definition VMM_USER :: u64 where "VMM_USER = 4"
definition VMM_NOEXEC :: u64 where "VMM_NOEXEC = push_bit 63 1"

definition PML4_IDX :: "u64 \<Rightarrow> nat" where "PML4_IDX va = unat (drop_bit 39 va AND 0x1FF)"
definition PDPT_IDX :: "u64 \<Rightarrow> nat" where "PDPT_IDX va = unat (drop_bit 30 va AND 0x1FF)"
definition PD_IDX :: "u64 \<Rightarrow> nat" where "PD_IDX va = unat (drop_bit 21 va AND 0x1FF)"
definition PT_IDX :: "u64 \<Rightarrow> nat" where "PT_IDX va = unat (drop_bit 12 va AND 0x1FF)"

definition SCRATCH_VA_BASE :: u64 where "SCRATCH_VA_BASE = 0xffffffff30000000"
definition SCRATCH_PAGES :: u64 where "SCRATCH_PAGES = 256"

definition PTE_MASK :: u64 where "PTE_MASK = 0x000FFFFFFFFFF000"
definition PDE_PS :: u64 where "PDE_PS = push_bit 7 1"
definition PDE2M_MASK :: u64 where "PDE2M_MASK = 0x000FFFFFFFE00000"
definition COW_MARK :: u64 where "COW_MARK = push_bit 9 1"

lemmas [uix_const] = VMM_PRESENT_def VMM_WRITE_def VMM_USER_def VMM_NOEXEC_def PTE_MASK_def
  PDE_PS_def PDE2M_MASK_def COW_MARK_def SCRATCH_VA_BASE_def SCRATCH_PAGES_def

section \<open>Table accesses\<close>

definition tbl_write :: "paddr \<Rightarrow> nat \<Rightarrow> u64 \<Rightarrow> vmm \<Rightarrow> vmm" where
  "tbl_write t i v s = s\<lparr>mem := (mem s)(t := (mem s t)(i := v))\<rparr>"

definition zero_page :: "paddr \<Rightarrow> vmm \<Rightarrow> vmm" where
  "zero_page t s = s\<lparr>mem := (mem s)(t := \<lambda>_. 0)\<rparr>"

definition vmm_alloc :: "vmm \<Rightarrow> paddr \<times> vmm" where
  "vmm_alloc s = (case pmm_alloc (pm s) of (t, p) \<Rightarrow> (t, s\<lparr>pm := p\<rparr>))"

definition invlpg :: "vaddr \<Rightarrow> vmm \<Rightarrow> vmm" where
  "invlpg va s = s\<lparr>tlb_ops := Invlpg va # tlb_ops s\<rparr>"

definition load_cr3 :: "paddr \<Rightarrow> vmm \<Rightarrow> vmm" where
  "load_cr3 pa s = s\<lparr>cr3 := pa, tlb_ops := LoadCr3 pa # tlb_ops s\<rparr>"

text \<open>
  The block \<^verbatim>\<open>pt_for\<close> repeats on each level: if entry \<open>i\<close> of table \<open>t\<close> is absent, install a
  zeroed page there (with \<open>create\<close>) or report the absence.
\<close>

definition ensure_entry :: "paddr \<Rightarrow> nat \<Rightarrow> bool \<Rightarrow> vmm \<Rightarrow> (bool \<times> vmm) res" where
  "ensure_entry t i create s =
     (if mem s t i AND VMM_PRESENT \<noteq> 0 then Inr (True, s)
      else if \<not> create then Inr (False, s)
      else (case vmm_alloc s of (n, s) \<Rightarrow>
        if n = 0 then Inl (Panic ''vmm: OOM building tables'')
        else (let s = zero_page n s
              in Inr (True, tbl_write t i (n OR VMM_PRESENT OR VMM_WRITE OR VMM_USER) s))))"

definition pt_for :: "u64 \<Rightarrow> bool \<Rightarrow> vmm \<Rightarrow> (paddr option \<times> vmm) res" where
  "pt_for va create s =
     rbind (ensure_entry (pml4 s) (PML4_IDX va) create s) (\<lambda>(ok, s).
     if \<not> ok then Inr (None, s)
     else let pdpt = mem s (pml4 s) (PML4_IDX va) AND PTE_MASK in
     rbind (ensure_entry pdpt (PDPT_IDX va) create s) (\<lambda>(ok, s).
     if \<not> ok then Inr (None, s)
     else let pdpte = mem s pdpt (PDPT_IDX va) in
     if pdpte AND PDE_PS \<noteq> 0 then Inr (None, s)
     else let pd = pdpte AND PTE_MASK; pde = mem s pd (PD_IDX va) in
     if pde AND VMM_PRESENT \<noteq> 0 \<and> pde AND PDE_PS \<noteq> 0 then Inr (None, s)
     else rbind (ensure_entry pd (PD_IDX va) create s) (\<lambda>(ok, s).
     if \<not> ok then Inr (None, s)
     else Inr (Some (mem s pd (PD_IDX va) AND PTE_MASK), s))))"

definition table_for :: "u64 \<Rightarrow> bool \<Rightarrow> vmm \<Rightarrow> (paddr option \<times> vmm) res" where
  "table_for va create s = pt_for va create s"

definition vmm_map :: "u64 \<Rightarrow> paddr \<Rightarrow> u64 \<Rightarrow> vmm \<Rightarrow> vmm res" where
  "vmm_map va pa flags s =
     rbind (table_for va True s) (\<lambda>(pt, s).
     case pt of
       None \<Rightarrow> Inl NullDeref
     | Some pt \<Rightarrow>
       if mem s pt (PT_IDX va) AND VMM_PRESENT \<noteq> 0 then Inl (Panic ''vmm: remap of present page %p'')
       else Inr (invlpg va (tbl_write pt (PT_IDX va) ((pa AND 0x000FFFFFFFFFF000) OR flags) s)))"

definition vmm_unmap :: "u64 \<Rightarrow> vmm \<Rightarrow> vmm res" where
  "vmm_unmap va s =
     rbind (table_for va False s) (\<lambda>(pt, s).
     case pt of
       None \<Rightarrow> Inr s
     | Some pt \<Rightarrow> Inr (invlpg va (tbl_write pt (PT_IDX va) 0 s)))"

text \<open>\<open>None\<close> is the result -1.\<close>

definition vmm_translate :: "u64 \<Rightarrow> vmm \<Rightarrow> paddr option" where
  "vmm_translate va s =
     (if mem s (pml4 s) (PML4_IDX va) AND VMM_PRESENT = 0 then None
      else let pdpt = mem s (pml4 s) (PML4_IDX va) AND PTE_MASK; pdpte = mem s pdpt (PDPT_IDX va) in
      if pdpte AND VMM_PRESENT = 0 then None
      else if pdpte AND PDE_PS \<noteq> 0 then Some ((pdpte AND 0x000FFFFFC0000000) + (va AND 0x3FFFFFFF))
      else let pd = pdpte AND PTE_MASK; pde = mem s pd (PD_IDX va) in
      if pde AND VMM_PRESENT = 0 then None
      else if pde AND PDE_PS \<noteq> 0 then Some ((pde AND PDE2M_MASK) + (va AND 0x1FFFFF))
      else let pt = pde AND PTE_MASK; pte = mem s pt (PT_IDX va) in
      if pte AND VMM_PRESENT = 0 then None
      else Some (pte AND PTE_MASK))"

section \<open>Early allocation\<close>

fun early_scan :: "nat \<Rightarrow> u64 \<Rightarrow> u64 \<Rightarrow> u64 \<Rightarrow> vmm \<Rightarrow> u64 option" where
  "early_scan 0 i run count s = None"
| "early_scan (Suc k) i run count s =
     (let run = (if scratch_used s (unat i) \<noteq> 0 then 0 else run + 1)
      in if run = count then Some i else early_scan k (i + 1) run count s)"

definition early_page :: "nat \<Rightarrow> vmm \<Rightarrow> vmm res" where
  "early_page j s = (case vmm_alloc s of (p, s) \<Rightarrow>
     if p = 0 then Inl (Panic ''vmm: early alloc OOM'')
     else rbind (vmm_map (SCRATCH_VA_BASE + of_nat j * UIX_PAGE_SIZE) p
                   (VMM_PRESENT OR VMM_WRITE OR VMM_NOEXEC) s) (\<lambda>s.
       Inr (s\<lparr>scratch_used := (scratch_used s)(j := 1)\<rparr>)))"

text \<open>Clearing one page through its virtual address: the store goes where the tables send it.\<close>

definition clear_virt_page :: "vaddr \<Rightarrow> vmm \<Rightarrow> vmm res" where
  "clear_virt_page va s = (case vmm_translate va s of None \<Rightarrow> Inl NullDeref | Some pa \<Rightarrow> Inr (zero_page pa s))"

definition vmm_early_alloc_pages :: "u64 \<Rightarrow> vmm \<Rightarrow> (vaddr option \<times> vmm) res" where
  "vmm_early_alloc_pages count s =
     (if count > SCRATCH_PAGES then Inr (None, s)
      else case early_scan (unat SCRATCH_PAGES) 0 0 count s of
        None \<Rightarrow> Inr (None, s)
      | Some i \<Rightarrow>
        (let first = i - count + 1 in
         rbind (for_res early_page [unat first..<unat i + 1] s) (\<lambda>s.
         let va = SCRATCH_VA_BASE + first * UIX_PAGE_SIZE in
         rbind (for_res (\<lambda>k. clear_virt_page (va + of_nat k * UIX_PAGE_SIZE)) [0..<unat count] s) (\<lambda>s.
         Inr (Some va, s)))))"

section \<open>Address spaces\<close>

definition vmm_switch :: "paddr \<Rightarrow> vmm \<Rightarrow> vmm" where
  "vmm_switch pml4_pa s = load_cr3 pml4_pa (s\<lparr>pml4 := pml4_pa\<rparr>)"

definition copy_entries :: "nat list \<Rightarrow> paddr \<Rightarrow> vmm \<Rightarrow> vmm" where
  "copy_entries is dst s = fold (\<lambda>i s. tbl_write dst i (mem s (pml4 s) i) s) is s"

definition vmm_create_space :: "vmm \<Rightarrow> (paddr \<times> vmm) res" where
  "vmm_create_space s = (case vmm_alloc s of (dst, s) \<Rightarrow>
     if dst = 0 then Inl (Panic ''vmm: OOM creating address space'')
     else let s = zero_page dst s in Inr (dst, copy_entries [256..<512] dst s))"

text \<open>
  \<^verbatim>\<open>clone_table\<close>: one round of its loop, given the clone of the next level (\<open>None\<close> on level 0,
  where every entry is a leaf).
\<close>

definition clone_entry ::
  "(u64 \<Rightarrow> vmm \<Rightarrow> (paddr \<times> vmm) res) option \<Rightarrow> paddr \<Rightarrow> paddr \<Rightarrow> nat \<Rightarrow> vmm \<Rightarrow> vmm res" where
  "clone_entry next src d i s =
     (let e = mem s src i in
      if e AND VMM_PRESENT = 0 then Inr (tbl_write d i 0 s)
      else case next of
        None \<Rightarrow> Inr (tbl_write d i e s)
      | Some clone \<Rightarrow>
        if e AND PDE_PS \<noteq> 0 then Inr (tbl_write d i e s)
        else rbind (clone e s) (\<lambda>(child, s). Inr (tbl_write d i (child OR (e AND 0xFFF)) s)))"

definition clone_body ::
  "(u64 \<Rightarrow> vmm \<Rightarrow> (paddr \<times> vmm) res) option \<Rightarrow> u64 \<Rightarrow> vmm \<Rightarrow> (paddr \<times> vmm) res" where
  "clone_body next src_entry s =
     (let src = src_entry AND PTE_MASK in
      case vmm_alloc s of (dst, s) \<Rightarrow>
      if dst = 0 then Inl (Panic ''vmm: OOM cloning tables'')
      else rbind (for_res (clone_entry next src dst) [0..<512] s) (\<lambda>s. Inr (dst, s)))"

primrec clone_table :: "nat \<Rightarrow> u64 \<Rightarrow> vmm \<Rightarrow> (paddr \<times> vmm) res" where
  "clone_table 0 = clone_body None"
| "clone_table (Suc level) = clone_body (Some (clone_table level))"

text \<open>
  \<^verbatim>\<open>fork_table\<close>. \<^verbatim>\<open>VMM_WRITE\<close> has type \<^verbatim>\<open>unsigned int\<close>, so \<^verbatim>\<open>~VMM_WRITE\<close> is the
  32-bit word 0xFFFFFFFD, zero-extended by the conjunction.
\<close>

definition cow_entry :: "u64 \<Rightarrow> u64" where
  "cow_entry e = (e AND ucast (NOT (2 :: u32))) OR COW_MARK"

definition fork_entry ::
  "nat \<Rightarrow> (paddr \<Rightarrow> paddr \<Rightarrow> vmm \<Rightarrow> vmm res) \<Rightarrow> paddr \<Rightarrow> paddr \<Rightarrow> nat \<Rightarrow> vmm \<Rightarrow> vmm res" where
  "fork_entry level next src dst i s =
     (let e = mem s src i in
      if e AND VMM_PRESENT = 0 then Inr (tbl_write dst i 0 s)
      else if level = 0 \<or> level = 1 \<and> e AND PDE_PS \<noteq> 0 then
        (if e AND VMM_USER \<noteq> 0
         then (let s = tbl_write dst i (cow_entry e) (tbl_write src i (cow_entry e) s)
               in Inr (s\<lparr>pm := pmm_ref (e AND PTE_MASK) (pm s)\<rparr>))
         else Inr (tbl_write dst i e s))
      else (case vmm_alloc s of (t, s) \<Rightarrow>
        if t = 0 then Inl (Panic ''vmm: OOM forking tables'')
        else rbind (next (e AND PTE_MASK) t (zero_page t s)) (\<lambda>s.
          Inr (tbl_write dst i (t OR (e AND 0xFFF)) s))))"

primrec fork_table :: "nat \<Rightarrow> paddr \<Rightarrow> paddr \<Rightarrow> vmm \<Rightarrow> vmm res" where
  "fork_table 0 = (\<lambda>src dst. for_res (fork_entry 0 (\<lambda>_ _. Inr) src dst) [0..<512])"
| "fork_table (Suc level) =
     (\<lambda>src dst. for_res (fork_entry (Suc level) (fork_table level) src dst) [0..<512])"

definition fork_pml4_entry :: "paddr \<Rightarrow> nat \<Rightarrow> vmm \<Rightarrow> vmm res" where
  "fork_pml4_entry dst i s =
     (if mem s (pml4 s) i AND VMM_PRESENT \<noteq> 0
      then (case vmm_alloc s of (t, s) \<Rightarrow>
        rbind (fork_table 2 (mem s (pml4 s) i AND PTE_MASK) t (zero_page t s)) (\<lambda>s.
        Inr (tbl_write dst i (t OR (mem s (pml4 s) i AND 0xFFF)) s)))
      else Inr s)"

definition vmm_fork_user_space :: "vmm \<Rightarrow> (paddr \<times> vmm) res" where
  "vmm_fork_user_space s = (case vmm_alloc s of (dst, s) \<Rightarrow>
     if dst = 0 then Inl (Panic ''vmm: OOM forking PML4'')
     else (let s = copy_entries [256..<512] dst (zero_page dst s) in
       rbind (for_res (fork_pml4_entry dst) [0..<256] s) (\<lambda>s. Inr (dst, s))))"

definition vmm_init :: "vmm \<Rightarrow> console \<Rightarrow> (vmm \<times> console) res" where
  "vmm_init s con =
     rbind (clone_table 3 (cr3 s) s) (\<lambda>(pml4_pa, s).
     let s = load_cr3 pml4_pa (s\<lparr>pml4 := pml4_pa, kernel_cr3 := pml4_pa\<rparr>);
         con = kprintf (KLOG_INFO @ ''vmm: switched to cloned CR3 @ phys %p'' @ nl) [KNum pml4_pa] con
     in Inr (s, con))"

section \<open>Page faults\<close>

definition fault_report :: "u64 \<Rightarrow> u64 \<Rightarrow> console \<Rightarrow> console" where
  "fault_report fault_addr err con =
     kprintf (KLOG_ERR @ ''page fault: addr=%p err=%p %s%s%s%s'' @ nl)
       [KNum fault_addr, KNum err,
        KStr (Some (if err AND 1 \<noteq> 0 then ''present '' else ''non-present '')),
        KStr (Some (if err AND 2 \<noteq> 0 then ''write '' else ''read '')),
        KStr (Some (if err AND 4 \<noteq> 0 then ''user '' else ''kernel '')),
        KStr (Some (if err AND 16 \<noteq> 0 then ''instruction-fetch'' else ''data''))] con"

definition cow_fault :: "u64 \<Rightarrow> paddr \<Rightarrow> u64 \<Rightarrow> vmm \<Rightarrow> vmm res" where
  "cow_fault va pt pte s =
     (let oldp = pte AND PTE_MASK in
      if pmm_getref oldp (pm s) > 1
      then (case vmm_alloc s of (newp, s) \<Rightarrow>
        if newp = 0 then Inl (Panic ''vmm: OOM in COW fault'')
        else (let s = s\<lparr>mem := (mem s)(newp := mem s oldp)\<rparr> in
          rbind (pmm_unref oldp (pm s)) (\<lambda>p.
          Inr (tbl_write pt (PT_IDX va)
                ((newp AND PTE_MASK) OR VMM_PRESENT OR VMM_WRITE OR VMM_USER OR (pte AND VMM_NOEXEC))
                (s\<lparr>pm := p\<rparr>)))))
      else Inr (tbl_write pt (PT_IDX va) ((pte AND NOT COW_MARK) OR VMM_WRITE) s))"

text \<open>The result is 0 (\<open>True\<close>: handled) or -1 (\<open>False\<close>).\<close>

definition vmm_page_fault :: "u64 \<Rightarrow> u64 \<Rightarrow> vmm \<Rightarrow> console \<Rightarrow> (bool \<times> vmm \<times> console) res" where
  "vmm_page_fault fault_addr err s con =
     (let report = (\<lambda>s. Inr (False, s, fault_report fault_addr err con)) in
      if err AND 3 = 3 \<and> fault_addr < 0x0000800000000000
      then (let va = fault_addr AND NOT (UIX_PAGE_SIZE - 1) in
        rbind (pt_for va False s) (\<lambda>(pt, s).
        case pt of
          None \<Rightarrow> report s
        | Some pt \<Rightarrow>
          (let pte = mem s pt (PT_IDX va) in
           if pte AND VMM_PRESENT \<noteq> 0 \<and> pte AND COW_MARK \<noteq> 0 \<and> pte AND VMM_USER \<noteq> 0
           then rbind (cow_fault va pt pte s) (\<lambda>s. Inr (True, invlpg fault_addr s, con))
           else report s)))
      else report s)"

definition dbg_pml4 :: "vmm \<Rightarrow> paddr" where
  "dbg_pml4 s = pml4 s"

section \<open>Entries\<close>

text \<open>A frame is a page-aligned physical address of at most 52 bits: what a table entry can hold.\<close>

definition is_frame :: "paddr \<Rightarrow> bool" where
  "is_frame p \<longleftrightarrow> p AND PTE_MASK = p"

lemma bit_PTE_MASK: "bit PTE_MASK k \<longleftrightarrow> 12 \<le> k \<and> k < 52"
proof -
  have m: "PTE_MASK = push_bit 12 (mask 40)" by (simp add: PTE_MASK_def mask_eq_exp_minus_1 push_bit_eq_mult)
  show ?thesis unfolding m bit_push_bit_iff bit_mask_iff by auto
qed

lemma bit_flag: "bit (push_bit n 1 :: u64) k \<longleftrightarrow> k = n \<and> n < 64"
  by (auto simp: bit_exp_iff)

lemma and_flag_zero: "n < 64 \<Longrightarrow> e AND push_bit n 1 = 0 \<longleftrightarrow> \<not> bit (e :: u64) n"
  by (auto simp: bit_eq_iff [where ?'a = u64] bit_and_iff bit_flag simp del: push_bit_of_1)

lemma present_bit: "e AND VMM_PRESENT = 0 \<longleftrightarrow> \<not> bit e 0"
  using and_flag_zero [of 0 e] by (simp add: VMM_PRESENT_def)

lemma ps_bit: "e AND PDE_PS = 0 \<longleftrightarrow> \<not> bit e 7"
  using and_flag_zero [of 7 e] by (simp add: PDE_PS_def)

lemma user_bit: "e AND VMM_USER = 0 \<longleftrightarrow> \<not> bit e 2"
  using and_flag_zero [of 2 e] by (simp add: VMM_USER_def)

lemma cow_bit: "e AND COW_MARK = 0 \<longleftrightarrow> \<not> bit e 9"
  using and_flag_zero [of 9 e] by (simp add: COW_MARK_def)

lemmas entry_bits = present_bit ps_bit user_bit cow_bit

lemma is_frame_bits: "is_frame p \<longleftrightarrow> (\<forall>k. bit p k \<longrightarrow> 12 \<le> k \<and> k < 52)"
  unfolding is_frame_def bit_eq_iff [where ?'a = u64] bit_and_iff bit_PTE_MASK
  using bit_imp_le_length [of p] by fastforce

lemma is_frame_mask [simp]: "is_frame (e AND PTE_MASK)"
  by (simp add: is_frame_bits bit_and_iff bit_PTE_MASK)

lemma is_frame_page:
  assumes "i < 2 ^ 40"
  shows "is_frame (push_bit 12 i)"
proof -
  have "\<not> bit i k" if "40 \<le> k" for k
  proof -
    have "take_bit 40 i = i" using assms by (simp add: take_bit_eq_mod word_unat_eq_iff unat_mod word_less_nat_alt)
    then show ?thesis using that by (metis bit_take_bit_iff not_le)
  qed
  then show ?thesis by (auto simp: is_frame_bits bit_push_bit_iff not_le [symmetric])
qed

lemma low_bits: "bit (7 :: u64) k \<longleftrightarrow> k < 3" "bit (0xFFF :: u64) k \<longleftrightarrow> k < 12"
proof -
  have "(7 :: u64) = mask 3" "(0xFFF :: u64) = mask 12" by (simp_all add: mask_eq_exp_minus_1)
  then show "bit (7 :: u64) k \<longleftrightarrow> k < 3" "bit (0xFFF :: u64) k \<longleftrightarrow> k < 12"
    by (simp_all only: bit_mask_iff) auto
qed

lemma frame_flags:
  assumes "is_frame n"
  shows "(n OR f AND 0xFFF) AND PTE_MASK = n" "bit (n OR f AND 0xFFF) k \<longleftrightarrow> bit n k \<or> bit f k \<and> k < 12"
proof -
  show bits: "bit (n OR f AND 0xFFF) k \<longleftrightarrow> bit n k \<or> bit f k \<and> k < 12" for k
    unfolding bit_or_iff bit_and_iff low_bits by auto
  show "(n OR f AND 0xFFF) AND PTE_MASK = n"
    unfolding bit_eq_iff [where ?'a = u64] bit_and_iff [of "n OR f AND 0xFFF"] bits bit_PTE_MASK
    using assms by (auto simp: is_frame_bits)
qed

lemma new_table_entry:
  assumes "is_frame n"
  shows "(n OR VMM_PRESENT OR VMM_WRITE OR VMM_USER) AND PTE_MASK = n"
    "bit (n OR VMM_PRESENT OR VMM_WRITE OR VMM_USER) 0"
    "\<not> bit (n OR VMM_PRESENT OR VMM_WRITE OR VMM_USER) 7"
proof -
  have e: "n OR VMM_PRESENT OR VMM_WRITE OR VMM_USER = n OR 7 AND 0xFFF"
    by (simp add: uix_const or.assoc)
  show "(n OR VMM_PRESENT OR VMM_WRITE OR VMM_USER) AND PTE_MASK = n"
    "bit (n OR VMM_PRESENT OR VMM_WRITE OR VMM_USER) 0"
    "\<not> bit (n OR VMM_PRESENT OR VMM_WRITE OR VMM_USER) 7"
    unfolding e using assms frame_flags [OF assms, of 7] by (auto simp: low_bits is_frame_bits)
qed

section \<open>The hardware's walk\<close>

text \<open>
  The translation the processor performs (Intel SDM vol. 3, 4-level paging): follow present
  entries until a leaf. The result is the leaf entry and how many levels it stands above a
  4 KiB page.
\<close>

fun walk :: "(paddr \<Rightarrow> nat \<Rightarrow> u64) \<Rightarrow> paddr \<Rightarrow> nat list \<Rightarrow> (u64 \<times> nat) option" where
  "walk m t [] = None"
| "walk m t (i # is) =
     (let e = m t i in
      if e AND VMM_PRESENT = 0 then None
      else if is = [] \<or> e AND PDE_PS \<noteq> 0 then Some (e, length is)
      else walk m (e AND PTE_MASK) is)"

definition va_path :: "vaddr \<Rightarrow> nat list" where
  "va_path va = [PML4_IDX va, PDPT_IDX va, PD_IDX va, PT_IDX va]"

definition mmu_translate :: "(paddr \<Rightarrow> nat \<Rightarrow> u64) \<Rightarrow> paddr \<Rightarrow> vaddr \<Rightarrow> paddr option" where
  "mmu_translate m root va = map_option
     (\<lambda>(e, k). (e AND PTE_MASK AND NOT (mask (12 + 9 * k))) + (va AND mask (12 + 9 * k)))
     (walk m root (va_path va))"

text \<open>The table reached by following a list of indices from a root.\<close>

fun table_at :: "(paddr \<Rightarrow> nat \<Rightarrow> u64) \<Rightarrow> paddr \<Rightarrow> nat list \<Rightarrow> paddr option" where
  "table_at m t [] = Some t"
| "table_at m t (i # is) =
     (let e = m t i in
      if e AND VMM_PRESENT = 0 \<or> e AND PDE_PS \<noteq> 0 then None else table_at m (e AND PTE_MASK) is)"

lemma table_at_snoc:
  "table_at m t (is @ [i]) = (case table_at m t is of
     None \<Rightarrow> None
   | Some u \<Rightarrow> if m u i AND VMM_PRESENT = 0 \<or> m u i AND PDE_PS \<noteq> 0 then None else Some (m u i AND PTE_MASK))"
  by (induction "is" arbitrary: t) (simp_all add: Let_def)

lemma table_at_append:
  "table_at m t (p @ q) = Option.bind (table_at m t p) (\<lambda>u. table_at m u q)"
  by (induction p arbitrary: t) (simp_all add: Let_def)

lemma walk_cong:
  assumes "\<And>k u. k < length p \<Longrightarrow> table_at m r (take k p) = Some u \<Longrightarrow> m' u (p ! k) = m u (p ! k)"
  shows "walk m' r p = walk m r p"
  using assms
proof (induction p arbitrary: r)
  case (Cons i p)
  have e: "m' r i = m r i" using Cons.prems [of 0 r] by simp
  show ?case
  proof (cases "m r i AND VMM_PRESENT = 0 \<or> m r i AND PDE_PS \<noteq> 0")
    case False
    have "walk m' (m r i AND PTE_MASK) p = walk m (m r i AND PTE_MASK) p"
      by (rule Cons.IH) (use Cons.prems [of "Suc _"] False in \<open>simp add: Let_def\<close>)
    with e show ?thesis by (simp add: Let_def)
  qed (auto simp: e Let_def)
qed simp

lemma table_at_cong:
  assumes "\<And>k u. k < length p \<Longrightarrow> table_at m r (take k p) = Some u \<Longrightarrow> m' u (p ! k) = m u (p ! k)"
  shows "table_at m' r p = table_at m r p"
  using assms
proof (induction p arbitrary: r)
  case (Cons i p)
  have e: "m' r i = m r i" using Cons.prems [of 0 r] by simp
  show ?case
  proof (cases "m r i AND VMM_PRESENT = 0 \<or> m r i AND PDE_PS \<noteq> 0")
    case False
    have "table_at m' (m r i AND PTE_MASK) p = table_at m (m r i AND PTE_MASK) p"
      by (rule Cons.IH) (use Cons.prems [of "Suc _"] False in \<open>simp add: Let_def\<close>)
    with e show ?thesis by (simp add: Let_def)
  qed (auto simp: e Let_def)
qed simp

lemma walk_at:
  "table_at m r p = Some t \<Longrightarrow> walk m r (p @ i # is) = walk m t (i # is)"
  by (induction p arbitrary: r) (auto simp: Let_def split: if_splits)

section \<open>Well-formed address spaces\<close>

definition path_ok :: "nat list \<Rightarrow> bool" where
  "path_ok p \<longleftrightarrow> length p \<le> 3 \<and> (\<forall>i \<in> set p. i < 512)"

definition space_tables :: "(paddr \<Rightarrow> nat \<Rightarrow> u64) \<Rightarrow> paddr \<Rightarrow> paddr set" where
  "space_tables m root = {t. \<exists>p. path_ok p \<and> table_at m root p = Some t}"

text \<open>The tables of a space form a tree, and the reserved large-page bit is clear in its root.\<close>

definition space_tree :: "(paddr \<Rightarrow> nat \<Rightarrow> u64) \<Rightarrow> paddr \<Rightarrow> bool" where
  "space_tree m root \<longleftrightarrow>
     (\<forall>p q t. path_ok p \<longrightarrow> path_ok q \<longrightarrow> table_at m root p = Some t \<longrightarrow> table_at m root q = Some t \<longrightarrow> p = q) \<and>
     (\<forall>i < 512. m root i AND VMM_PRESENT \<noteq> 0 \<longrightarrow> m root i AND PDE_PS = 0)"

definition vmm_wf :: "vmm \<Rightarrow> bool" where
  "vmm_wf s \<longleftrightarrow> pmm_inv (pm s) \<and> bitmap_len (pm s) \<le> 2 ^ 40 \<and> space_tree (mem s) (pml4 s) \<and>
     space_tables (mem s) (pml4 s) \<inter> free_pages (pm s) = {}"

lemma space_treeD:
  "space_tree m root \<Longrightarrow> path_ok p \<Longrightarrow> path_ok q \<Longrightarrow> table_at m root p = Some t \<Longrightarrow>
   table_at m root q = Some t \<Longrightarrow> p = q"
  by (simp add: space_tree_def)

lemma path_ok_take: "path_ok p \<Longrightarrow> path_ok (take k p)"
  by (auto simp: path_ok_def dest: in_set_takeD)

lemma path_ok_prefix: "path_ok (p @ q) \<Longrightarrow> path_ok p"
  by (simp add: path_ok_def)

definition leaf_path :: "nat list \<Rightarrow> bool" where
  "leaf_path p \<longleftrightarrow> length p = 4 \<and> (\<forall>i \<in> set p. i < 512)"

lemma leaf_path_take: "leaf_path p \<Longrightarrow> k < 4 \<Longrightarrow> path_ok (take k p)"
  by (auto simp: path_ok_def leaf_path_def dest: in_set_takeD)

lemma idx_bound: "unat (x AND 0x1FF :: u64) < 512"
proof -
  have "x AND 0x1FF = take_bit 9 x" by (simp add: take_bit_eq_mask mask_eq_exp_minus_1)
  then show ?thesis by (simp add: take_bit_eq_mod unat_mod)
qed

lemma leaf_path_va [simp]: "leaf_path (va_path va)"
  by (simp add: leaf_path_def va_path_def PML4_IDX_def PDPT_IDX_def PD_IDX_def PT_IDX_def idx_bound)

text \<open>Writing one entry only concerns the paths that go through it.\<close>

lemma walk_write_other:
  assumes tree: "space_tree m r" and q: "path_ok q" "table_at m r q = Some t"
    and p: "leaf_path p" "take (Suc (length q)) p \<noteq> q @ [i]"
  shows "walk (m(t := (m t)(i := v))) r p = walk m r p"
proof (rule walk_cong)
  fix k u assume k: "k < length p" and u: "table_at m r (take k p) = Some u"
  have len: "length p = 4" using p(1) by (simp add: leaf_path_def)
  have "p ! k \<noteq> i" if "u = t"
  proof
    assume "p ! k = i"
    have "take k p = q" using space_treeD [OF tree _ q(1) u] leaf_path_take [OF p(1)] k len q(2) that by simp
    then have "take (Suc (length q)) p = q @ [i]"
      using k \<open>p ! k = i\<close> by (metis length_take min.absorb2 less_imp_le take_Suc_conv_app_nth)
    with p(2) show False by simp
  qed
  then show "(m(t := (m t)(i := v))) u (p ! k) = m u (p ! k)" by auto
qed

lemma table_at_write_other:
  assumes tree: "space_tree m r" and q: "path_ok q" "table_at m r q = Some t"
    and p: "path_ok p" "take (Suc (length q)) p \<noteq> q @ [i]"
  shows "table_at (m(t := (m t)(i := v))) r p = table_at m r p"
proof (rule table_at_cong)
  fix k u assume k: "k < length p" and u: "table_at m r (take k p) = Some u"
  have "p ! k \<noteq> i" if "u = t"
  proof
    assume "p ! k = i"
    have "take k p = q" using space_treeD [OF tree path_ok_take [OF p(1)] q(1) u] q(2) that by simp
    then have "take (Suc (length q)) p = q @ [i]"
      using k \<open>p ! k = i\<close> by (metis length_take min.absorb2 less_imp_le take_Suc_conv_app_nth)
    with p(2) show False by simp
  qed
  then show "(m(t := (m t)(i := v))) u (p ! k) = m u (p ! k)" by auto
qed

text \<open>Writing pages that are no tables of the space does not affect it.\<close>

lemma space_outside:
  assumes "\<And>t. t \<in> space_tables m r \<Longrightarrow> m' t = m t"
  shows "leaf_path p \<Longrightarrow> walk m' r p = walk m r p"
    and "path_ok q \<Longrightarrow> table_at m' r q = table_at m r q"
proof -
  have same: "m' u j = m u j" if "path_ok q" "table_at m r q = Some u" for q u j
  proof -
    have "u \<in> space_tables m r" using that unfolding space_tables_def by blast
    then show ?thesis using assms by simp
  qed
  show "walk m' r p = walk m r p" if p: "leaf_path p"
  proof (rule walk_cong)
    fix k u assume "k < length p" and u: "table_at m r (take k p) = Some u"
    then have "path_ok (take k p)" using leaf_path_take [OF p, of k] p by (simp add: leaf_path_def)
    then show "m' u (p ! k) = m u (p ! k)" using same u by blast
  qed
  show "path_ok q \<Longrightarrow> table_at m' r q = table_at m r q"
    by (rule table_at_cong) (use same path_ok_take in blast)
qed

lemma space_tables_outside:
  assumes "\<And>t. t \<in> space_tables m r \<Longrightarrow> m' t = m t"
  shows "space_tables m' r = space_tables m r"
  using space_outside(2) [OF assms] by (auto simp: space_tables_def)

lemma root_in_tables [simp]: "r \<in> space_tables m r"
  by (auto simp: space_tables_def path_ok_def intro: exI [of _ "[]"])

lemma space_tree_outside:
  assumes "\<And>t. t \<in> space_tables m r \<Longrightarrow> m' t = m t" and "space_tree m r"
  shows "space_tree m' r"
proof -
  have "table_at m' r q = table_at m r q" if "path_ok q" for q using space_outside(2) [OF assms(1) that] .
  moreover have "m' r = m r" using assms(1) by simp
  ultimately show ?thesis using assms(2) unfolding space_tree_def by simp
qed

text \<open>Hanging an empty table into an absent entry: no translation changes.\<close>

definition hang_table :: "paddr \<Rightarrow> nat \<Rightarrow> paddr \<Rightarrow> u64 \<Rightarrow> (paddr \<Rightarrow> nat \<Rightarrow> u64) \<Rightarrow> paddr \<Rightarrow> nat \<Rightarrow> u64" where
  "hang_table t i n e m = (let m0 = m(n := \<lambda>_. 0) in m0(t := (m0 t)(i := e)))"

lemma take_Suc_path: "take (Suc (length q)) p = q @ [i] \<Longrightarrow> \<exists>p'. p = q @ i # p'"
  by (metis append_take_drop_id append.assoc append_Cons append_Nil)

lemma hang_table_facts:
  assumes tree: "space_tree m r" and q: "path_ok q" "length q < 3" "table_at m r q = Some t" and i: "i < 512"
    and absent: "m t i AND VMM_PRESENT = 0" and fresh: "n \<notin> space_tables m r"
    and e: "e AND PTE_MASK = n" "e AND VMM_PRESENT \<noteq> 0" "e AND PDE_PS = 0"
  defines "m' \<equiv> hang_table t i n e m"
  shows "leaf_path p \<Longrightarrow> walk m' r p = walk m r p"
    and "path_ok p \<Longrightarrow> take (Suc (length q)) p \<noteq> q @ [i] \<Longrightarrow> table_at m' r p = table_at m r p"
    and "table_at m' r (q @ [i]) = Some n"
    and "path_ok (q @ i # p) \<Longrightarrow> p \<noteq> [] \<Longrightarrow> table_at m' r (q @ i # p) = None"
    and "table_at m r (q @ [i]) = None"
proof -
  define m0 where "m0 = m(n := \<lambda>_. 0)"
  have t: "t \<in> space_tables m r" using q unfolding space_tables_def by blast
  have m': "m' = m0(t := (m0 t)(i := e))" by (simp add: m'_def hang_table_def m0_def Let_def)
  have same: "u \<in> space_tables m r \<Longrightarrow> m0 u = m u" for u using fresh by (auto simp: m0_def)
  have tree0: "space_tree m0 r" by (rule space_tree_outside [OF same tree])
  have q0: "table_at m0 r q = Some t" using space_outside(2) [OF same q(1)] q(3) by simp
  have n: "m' n = (\<lambda>_. 0)" using t fresh by (auto simp: m' m0_def)
  have "\<not> Suc (length q) \<le> length q" by simp
  then have "table_at m' r q = Some t"
    using table_at_write_other [OF tree0 q(1) q0 q(1), of i e] q0 unfolding m' by fastforce
  then show hung: "table_at m' r (q @ [i]) = Some n"
    using e by (simp add: table_at_snoc m')
  show none: "table_at m r (q @ [i]) = None" using q(3) absent by (simp add: table_at_snoc)
  have stop: "walk m' r (q @ i # j # p) = None" "table_at m' r (q @ i # j # p) = None" for j p
  proof -
    show "walk m' r (q @ i # j # p) = None" using walk_at [OF hung, of j p] n by simp
    have "table_at m' r ((q @ [i]) @ j # p) = None" for p
    proof (induction p rule: rev_induct)
      case Nil
      show ?case using hung n table_at_snoc [of m' r "q @ [i]" j] by simp
    next
      case (snoc k p)
      then show ?case using table_at_snoc [of m' r "(q @ [i]) @ j # p" k] by simp
    qed
    then show "table_at m' r (q @ i # j # p) = None" by simp
  qed
  show "table_at m' r p = table_at m r p" if "path_ok p" "take (Suc (length q)) p \<noteq> q @ [i]"
    using table_at_write_other [OF tree0 q(1) q0 that] space_outside(2) [OF same that(1)] unfolding m' by simp
  show "table_at m' r (q @ i # p) = None" if "p \<noteq> []" using that stop(2) by (cases p) auto
  show "walk m' r p = walk m r p" if p: "leaf_path p"
  proof (cases "take (Suc (length q)) p = q @ [i]")
    case True
    then obtain p' where p': "p = q @ i # p'" using take_Suc_path [OF True] by blast
    then obtain j p'' where "p' = j # p''" using p q(2) by (cases p') (auto simp: leaf_path_def)
    then show ?thesis using stop(1) p' walk_at [OF q(3), of i p'] absent by simp
  next
    case False
    then show ?thesis
      using walk_write_other [OF tree0 q(1) q0 p] space_outside(1) [OF same p] unfolding m' by simp
  qed
qed

lemma hang_table_wf:
  assumes tree: "space_tree m r" and q: "path_ok q" "length q < 3" "table_at m r q = Some t" and i: "i < 512"
    and absent: "m t i AND VMM_PRESENT = 0" and fresh: "n \<notin> space_tables m r"
    and e: "e AND PTE_MASK = n" "e AND VMM_PRESENT \<noteq> 0" "e AND PDE_PS = 0"
  shows "space_tree (hang_table t i n e m) r"
    and "space_tables (hang_table t i n e m) r \<subseteq> insert n (space_tables m r)"
proof -
  let ?m' = "hang_table t i n e m"
  note facts = hang_table_facts [OF assms]
  have cases': "(p = q @ [i] \<and> u = n) \<or> (p \<noteq> q @ [i] \<and> table_at m r p = Some u)"
    if "path_ok p" "table_at ?m' r p = Some u" for p u
  proof (cases "take (Suc (length q)) p = q @ [i]")
    case True
    then obtain p' where "p = q @ i # p'" using take_Suc_path [OF True] by blast
    then show ?thesis using that facts(3) facts(4) [of p'] by (cases p') auto
  next
    case False
    then show ?thesis using that facts(2) [of p] by auto
  qed
  have known: "u \<noteq> n" if "path_ok p" "table_at m r p = Some u" for p u
    using that fresh unfolding space_tables_def by blast
  show "space_tables ?m' r \<subseteq> insert n (space_tables m r)"
    using cases' unfolding space_tables_def by blast
  have root: "?m' r j AND VMM_PRESENT \<noteq> 0 \<longrightarrow> ?m' r j AND PDE_PS = 0" if "j < 512" for j
    using that tree fresh e root_in_tables [of r m] unfolding space_tree_def hang_table_def Let_def
    by auto
  show "space_tree ?m' r"
    unfolding space_tree_def
  proof (intro conjI allI impI)
    fix p p' u assume "path_ok p" "path_ok p'" "table_at ?m' r p = Some u" "table_at ?m' r p' = Some u"
    then show "p = p'" using cases' [of p u] cases' [of p' u] known space_treeD [OF tree] by blast
  qed (use root in blast)
qed

section \<open>Building tables\<close>

lemma vmm_alloc_page:
  assumes "pmm_inv (pm s)" and "bitmap_len (pm s) \<le> 2 ^ 40" and "vmm_alloc s = (n, s')" and "n \<noteq> 0"
  shows "n \<in> free_pages (pm s)" "is_frame n" "free_pages (pm s') = free_pages (pm s) - {n}"
    "pmm_inv (pm s')" "bitmap_len (pm s') = bitmap_len (pm s)" "refcounts (pm s') = refcounts (pm s)"
    "s' = s\<lparr>pm := pm s'\<rparr>"
proof -
  obtain p where a: "pmm_alloc (pm s) = (n, p)" and s': "s' = s\<lparr>pm := p\<rparr>"
    using assms(3) by (auto simp: vmm_alloc_def split: prod.splits)
  note page = pmm_pages.alloc_page [OF assms(1) a assms(4)]
  show "n \<in> free_pages (pm s)" "free_pages (pm s') = free_pages (pm s) - {n}" "pmm_inv (pm s')"
    using page s' by simp_all
  show "s' = s\<lparr>pm := pm s'\<rparr>" using s' by simp
  from page obtain i where "n = push_bit 12 i" "i < bitmap_len (pm s)" by (auto simp: free_pages_def free_set_def)
  then show "is_frame n" using is_frame_page [of i] assms(2) by simp
  from assms(1) show "bitmap_len (pm s') = bitmap_len (pm s)" "refcounts (pm s') = refcounts (pm s)"
    by (cases rule: pmm_alloc_cases; use a s' in auto)+
qed

text \<open>
  \<open>extends s s'\<close>: from \<open>s\<close> to \<open>s'\<close> tables were added, taken from free pages; no translation
  of the space and no page in use other than its tables changed.
\<close>

definition extends :: "vmm \<Rightarrow> vmm \<Rightarrow> bool" where
  "extends s s' \<longleftrightarrow> vmm_wf s' \<and> pml4 s' = pml4 s \<and> free_pages (pm s') \<subseteq> free_pages (pm s) \<and>
     (\<forall>p t. path_ok p \<longrightarrow> table_at (mem s) (pml4 s) p = Some t \<longrightarrow> table_at (mem s') (pml4 s) p = Some t) \<and>
     space_tables (mem s') (pml4 s) \<subseteq> space_tables (mem s) (pml4 s) \<union> free_pages (pm s) \<and>
     (\<forall>u. u \<notin> space_tables (mem s) (pml4 s) \<union> free_pages (pm s) \<longrightarrow> mem s' u = mem s u) \<and>
     (\<forall>p. leaf_path p \<longrightarrow> walk (mem s') (pml4 s) p = walk (mem s) (pml4 s) p)"

lemma extends_refl: "vmm_wf s \<Longrightarrow> extends s s"
  by (auto simp: extends_def)

lemma extends_trans: "extends s s1 \<Longrightarrow> extends s1 s2 \<Longrightarrow> extends s s2"
proof -
  assume a: "extends s s1" and b: "extends s1 s2"
  have r: "pml4 s1 = pml4 s" using a by (simp add: extends_def)
  note a' = a [unfolded extends_def] and b' = b [unfolded extends_def r]
  have "u \<notin> space_tables (mem s) (pml4 s) \<union> free_pages (pm s) \<Longrightarrow> mem s2 u = mem s u" for u
    using a' b' by (metis Un_iff subsetD)
  with a' b' show "extends s s2" unfolding extends_def by (auto 0 3)
qed

lemma extends_table:
  "extends s s' \<Longrightarrow> path_ok p \<Longrightarrow> table_at (mem s) (pml4 s) p = Some t \<Longrightarrow> table_at (mem s') (pml4 s') p = Some t"
  by (simp add: extends_def)

lemma ensure_entry_extends:
  assumes wf: "vmm_wf s" and q: "path_ok q" "length q < 3" "table_at (mem s) (pml4 s) q = Some t"
    and i: "i < 512" and ens: "ensure_entry t i create s = Inr (ok, s')"
  shows "extends s s'" and "ok \<Longrightarrow> mem s' t i AND VMM_PRESENT \<noteq> 0" and "create \<Longrightarrow> ok"
    and "\<not> create \<Longrightarrow> s' = s" and "\<not> ok \<Longrightarrow> mem s t i AND VMM_PRESENT = 0"
    and "mem s' t i AND PDE_PS \<noteq> 0 \<Longrightarrow> s' = s"
proof -
  have "extends s s' \<and> (ok \<longrightarrow> mem s' t i AND VMM_PRESENT \<noteq> 0) \<and> (create \<longrightarrow> ok) \<and>
      (\<not> create \<longrightarrow> s' = s) \<and> (\<not> ok \<longrightarrow> mem s t i AND VMM_PRESENT = 0) \<and>
      (mem s' t i AND PDE_PS \<noteq> 0 \<longrightarrow> s' = s)"
  proof (cases "mem s t i AND VMM_PRESENT \<noteq> 0 \<or> \<not> create")
    case True
    then show ?thesis using ens extends_refl [OF wf] by (auto simp: ensure_entry_def split: if_splits)
  next
    case False
    obtain n s1 where a: "vmm_alloc s = (n, s1)" by force
    let ?e = "n OR VMM_PRESENT OR VMM_WRITE OR VMM_USER"
    have n0: "n \<noteq> 0" and ok: "ok" and s': "s' = tbl_write t i ?e (zero_page n s1)"
      using ens False a by (auto simp: ensure_entry_def Let_def split: if_splits)
    have inv: "pmm_inv (pm s)" "bitmap_len (pm s) \<le> 2 ^ 40" "space_tree (mem s) (pml4 s)"
      "space_tables (mem s) (pml4 s) \<inter> free_pages (pm s) = {}"
      using wf by (simp_all add: vmm_wf_def)
    note page = vmm_alloc_page [OF inv(1,2) a n0]
    have fresh: "n \<notin> space_tables (mem s) (pml4 s)" using page(1) inv(4) by auto
    have e: "?e AND PTE_MASK = n" "?e AND VMM_PRESENT \<noteq> 0" "?e AND PDE_PS = 0"
      using new_table_entry [OF page(2)] by (simp_all add: entry_bits)
    have s1: "mem s1 = mem s" "pml4 s1 = pml4 s"
      using arg_cong [OF page(7), of mem] arg_cong [OF page(7), of pml4] by simp_all
    then have m': "mem s' = hang_table t i n ?e (mem s)" and pm': "pm s' = pm s1" "pml4 s' = pml4 s"
      by (simp_all add: s' tbl_write_def zero_page_def hang_table_def Let_def)
    have absent: "mem s t i AND VMM_PRESENT = 0" using False by simp
    note facts = hang_table_facts [OF inv(3) q i absent fresh e]
      and tree = hang_table_wf [OF inv(3) q i absent fresh e]
    have t: "t \<in> space_tables (mem s) (pml4 s)" using q unfolding space_tables_def by blast
    have keep: "table_at (mem s') (pml4 s) p = Some u"
      if "path_ok p" "table_at (mem s) (pml4 s) p = Some u" for p u
    proof (cases "take (Suc (length q)) p = q @ [i]")
      case True
      then obtain p' where "p = (q @ [i]) @ p'" using take_Suc_path [OF True] by auto
      then show ?thesis using that facts(5) table_at_append [of _ _ "q @ [i]" p'] by simp
    qed (use that facts(2) [of p] m' in simp)
    have "vmm_wf s'"
      using inv page tree pm' m' unfolding vmm_wf_def by auto
    moreover have "mem s' u = mem s u" if "u \<notin> space_tables (mem s) (pml4 s) \<union> free_pages (pm s)" for u
      using that t page(1) by (auto simp: m' hang_table_def Let_def)
    ultimately have "extends s s'"
      using page(1,3) keep facts(1) tree(2) pm' m' unfolding extends_def by auto
    moreover have "mem s' t i = ?e" using t fresh by (auto simp: m' hang_table_def Let_def)
    ultimately show ?thesis using ok e(2,3) False by simp
  qed
  then show "extends s s'" and "ok \<Longrightarrow> mem s' t i AND VMM_PRESENT \<noteq> 0" and "create \<Longrightarrow> ok"
    and "\<not> create \<Longrightarrow> s' = s" and "\<not> ok \<Longrightarrow> mem s t i AND VMM_PRESENT = 0"
    and "mem s' t i AND PDE_PS \<noteq> 0 \<Longrightarrow> s' = s" by blast+
qed

lemma idx_lt [simp]: "PML4_IDX va < 512" "PDPT_IDX va < 512" "PD_IDX va < 512" "PT_IDX va < 512"
  by (simp_all add: PML4_IDX_def PDPT_IDX_def PD_IDX_def PT_IDX_def idx_bound)

lemma va_path_ok [simp]:
  "path_ok []" "path_ok [PML4_IDX va]" "path_ok [PML4_IDX va, PDPT_IDX va]"
  "path_ok [PML4_IDX va, PDPT_IDX va, PD_IDX va]"
  by (simp_all add: path_ok_def)

abbreviation pt_path :: "vaddr \<Rightarrow> nat list" where
  "pt_path va \<equiv> [PML4_IDX va, PDPT_IDX va, PD_IDX va]"

lemma table_at_step:
  "table_at m r q = Some t \<Longrightarrow> table_at m r (q @ [i]) =
   (if m t i AND VMM_PRESENT = 0 \<or> m t i AND PDE_PS \<noteq> 0 then None else Some (m t i AND PTE_MASK))"
  by (simp add: table_at_snoc)

lemma table_at_None_step: "table_at m r q = None \<Longrightarrow> table_at m r (q @ p) = None"
  by (simp add: table_at_append)

lemma ensure_step:
  assumes "vmm_wf s" and "path_ok q" and "length q < 3" and t: "table_at (mem s) (pml4 s) q = Some t"
    and "i < 512" and "ensure_entry t i create s = Inr (ok, s')"
  shows "extends s s'" "vmm_wf s'" "pml4 s' = pml4 s" "\<not> create \<Longrightarrow> s' = s"
    and "table_at (mem s') (pml4 s') (q @ [i]) =
      (if ok \<and> mem s' t i AND PDE_PS = 0 then Some (mem s' t i AND PTE_MASK) else None)"
    and "mem s t i AND VMM_PRESENT \<noteq> 0 \<Longrightarrow> s' = s" and "mem s' t i AND PDE_PS \<noteq> 0 \<Longrightarrow> s' = s"
proof -
  note e = ensure_entry_extends [OF assms]
  show ext: "extends s s'" using e(1) .
  then show "vmm_wf s'" "pml4 s' = pml4 s" by (simp_all add: extends_def)
  show "\<not> create \<Longrightarrow> s' = s" using e(4) .
  show "mem s t i AND VMM_PRESENT \<noteq> 0 \<Longrightarrow> s' = s" using assms(6) by (simp add: ensure_entry_def)
  show "mem s' t i AND PDE_PS \<noteq> 0 \<Longrightarrow> s' = s" using e(6) .
  have "table_at (mem s') (pml4 s') q = Some t" using extends_table [OF ext assms(2) t] .
  from table_at_step [OF this, of i] e(2-5)
  show "table_at (mem s') (pml4 s') (q @ [i]) =
      (if ok \<and> mem s' t i AND PDE_PS = 0 then Some (mem s' t i AND PTE_MASK) else None)"
    by (cases ok) auto
qed

lemma pml4_step:
  assumes wf: "vmm_wf s" and e: "ensure_entry (pml4 s) (PML4_IDX va) create s = Inr (ok, s')"
  shows "extends s s'" "vmm_wf s'" "pml4 s' = pml4 s" "\<not> create \<Longrightarrow> s' = s" "create \<Longrightarrow> ok"
    "table_at (mem s') (pml4 s') [PML4_IDX va] =
       (if ok then Some (mem s' (pml4 s') (PML4_IDX va) AND PTE_MASK) else None)"
proof -
  have q: "path_ok []" "length ([] :: nat list) < 3" "table_at (mem s) (pml4 s) [] = Some (pml4 s)" by simp_all
  note x = ensure_step [OF wf q idx_lt(1) e]
  show "extends s s'" "vmm_wf s'" "pml4 s' = pml4 s" "\<not> create \<Longrightarrow> s' = s" using x(1-4) .
  show "create \<Longrightarrow> ok" using ensure_entry_extends(3) [OF wf q idx_lt(1) e] .
  have "mem s' (pml4 s') (PML4_IDX va) AND VMM_PRESENT \<noteq> 0 \<Longrightarrow> mem s' (pml4 s') (PML4_IDX va) AND PDE_PS = 0"
    using x(2) by (simp add: vmm_wf_def space_tree_def)
  then show "table_at (mem s') (pml4 s') [PML4_IDX va] =
       (if ok then Some (mem s' (pml4 s') (PML4_IDX va) AND PTE_MASK) else None)"
    using x(3,5) ensure_entry_extends(2) [OF wf q idx_lt(1) e] by auto
qed

text \<open>\<^verbatim>\<open>pt_for\<close> returns exactly the page table the walk reaches, after adding what was missing.\<close>

lemma pt_for_spec:
  assumes wf: "vmm_wf s" and pt: "pt_for va create s = Inr (r, s')"
  shows "extends s s' \<and> (\<not> create \<longrightarrow> s' = s) \<and> r = table_at (mem s') (pml4 s') (pt_path va) \<and>
    (create \<longrightarrow> r = None \<longrightarrow> walk (mem s') (pml4 s') (va_path va) \<noteq> None)"
proof -
  let ?i4 = "PML4_IDX va" and ?i3 = "PDPT_IDX va" and ?i2 = "PD_IDX va"
  obtain ok1 s1 where e1: "ensure_entry (pml4 s) ?i4 create s = Inr (ok1, s1)"
    using pt by (auto simp: pt_for_def rbind_eq_Inr)
  note x1 = pml4_step [OF wf e1]
  define pdpt where "pdpt = mem s1 (pml4 s1) ?i4 AND PTE_MASK"
  note t1 = x1(6) [folded pdpt_def]
  show ?thesis
  proof (cases ok1)
    case False
    then have "r = None" "s' = s1" using pt e1 by (auto simp: pt_for_def)
    then show ?thesis
      using x1(1,4,5) t1 False table_at_None_step [of _ _ "[?i4]" "[?i3, ?i2]"] by auto
  next
    case ok1: True
    obtain ok2 s2 where e2: "ensure_entry pdpt ?i3 create s1 = Inr (ok2, s2)"
      using pt e1 ok1 x1(3) by (auto simp: pt_for_def rbind_eq_Inr pdpt_def Let_def)
    have "path_ok [?i4]" "length [?i4] < 3" "table_at (mem s1) (pml4 s1) [?i4] = Some pdpt"
      using t1 ok1 by simp_all
    note x2 = ensure_step [OF x1(2) this idx_lt(2) e2]
      and y2 = ensure_entry_extends(2,3) [OF x1(2) this idx_lt(2) e2]
    have "table_at (mem s2) (pml4 s2) [?i4] = Some pdpt"
      by (rule extends_table [OF x2(1)]) (use t1 ok1 in auto)
    note w2 = walk_at [OF this, of ?i3 "[?i2, PT_IDX va]"]
    have x12: "extends s s2" "\<not> create \<Longrightarrow> s2 = s"
      using extends_trans [OF x1(1) x2(1)] x1(4) x2(4) by auto
    show ?thesis
    proof (cases "ok2 \<and> mem s2 pdpt ?i3 AND PDE_PS = 0")
      case False
      then have "r = None" "s' = s2"
        using pt e1 e2 ok1 x1(3) by (auto simp: pt_for_def pdpt_def Let_def split: if_splits)
      moreover have "table_at (mem s2) (pml4 s2) [?i4, ?i3] = None" using x2(5) False by auto
      moreover have "walk (mem s2) (pml4 s2) (va_path va) \<noteq> None" if create
        using w2 False y2 that by (auto simp: va_path_def)
      ultimately show ?thesis using x12 table_at_None_step [of _ _ "[?i4, ?i3]" "[?i2]"] by simp
    next
      case ok2: True
      define pd where "pd = mem s2 pdpt ?i3 AND PTE_MASK"
      have t2: "path_ok [?i4, ?i3]" "length [?i4, ?i3] < 3" "table_at (mem s2) (pml4 s2) [?i4, ?i3] = Some pd"
        using x2(5) ok2 by (simp_all add: pd_def)
      show ?thesis
      proof (cases "mem s2 pd ?i2 AND VMM_PRESENT \<noteq> 0 \<and> mem s2 pd ?i2 AND PDE_PS \<noteq> 0")
        case True
        then have "r = None" "s' = s2"
          using pt e1 e2 ok1 ok2 x1(3) by (auto simp: pt_for_def pdpt_def pd_def Let_def)
        then show ?thesis
          using table_at_step [OF t2(3), of ?i2] True x12 walk_at [OF t2(3), of ?i2 "[PT_IDX va]"]
          by (simp add: va_path_def)
      next
        case small: False
        obtain ok3 where e3: "ensure_entry pd ?i2 create s2 = Inr (ok3, s')"
          and r: "r = (if ok3 then Some (mem s' pd ?i2 AND PTE_MASK) else None)"
          using pt e1 e2 ok1 ok2 x1(3) small
          by (auto simp: pt_for_def rbind_eq_Inr pdpt_def pd_def Let_def split: if_splits)
        note x3 = ensure_step [OF x2(2) t2 idx_lt(3) e3]
        have "ok3 \<Longrightarrow> mem s' pd ?i2 AND PDE_PS = 0"
          using small x3(7) ensure_entry_extends(2) [OF x2(2) t2 idx_lt(3) e3] by metis
        then have "r = table_at (mem s') (pml4 s') (pt_path va)" using x3(5) r by auto
        then show ?thesis
          using extends_trans [OF x12(1) x3(1)] x12(2) x3(4) r
            ensure_entry_extends(3) [OF x2(2) t2 idx_lt(3) e3] by auto
      qed
    qed
  qed
qed

text \<open>With a page to spare for each level the tables can always be built.\<close>

lemma ensure_entry_total:
  assumes wf: "vmm_wf s" and "free_pages (pm s) \<noteq> {}"
  shows "\<exists>ok s'. ensure_entry t i create s = Inr (ok, s') \<and> card (free_pages (pm s)) \<le> Suc (card (free_pages (pm s')))"
proof (cases "mem s t i AND VMM_PRESENT \<noteq> 0 \<or> \<not> create")
  case False
  obtain n s1 where a: "vmm_alloc s = (n, s1)" by force
  have inv: "pmm_inv (pm s)" "bitmap_len (pm s) \<le> 2 ^ 40" using wf by (simp_all add: vmm_wf_def)
  have n: "n \<noteq> 0"
    using a assms(2) pmm_pages.alloc_none [OF inv(1)] by (auto simp: vmm_alloc_def split: prod.splits)
  have "card (free_pages (pm s)) \<le> Suc (card (free_pages (pm s1)))"
    using vmm_alloc_page [OF inv a n] by (simp add: card_Suc_Diff1)
  then show ?thesis
    using a n False by (auto simp: ensure_entry_def Let_def tbl_write_def zero_page_def)
qed (auto simp: ensure_entry_def)

lemma pt_for_total:
  assumes wf: "vmm_wf s" and room: "3 \<le> card (free_pages (pm s))"
  shows "\<exists>r s'. pt_for va create s = Inr (r, s') \<and> card (free_pages (pm s)) \<le> card (free_pages (pm s')) + 3"
proof -
  let ?i4 = "PML4_IDX va" and ?i3 = "PDPT_IDX va" and ?i2 = "PD_IDX va"
  obtain ok1 s1 where e1: "ensure_entry (pml4 s) ?i4 create s = Inr (ok1, s1)"
    and n1: "card (free_pages (pm s)) \<le> Suc (card (free_pages (pm s1)))"
    using ensure_entry_total [OF wf, of "pml4 s" ?i4 create] room by fastforce
  have c1: "2 \<le> card (free_pages (pm s1))" using n1 room by simp
  note x1 = pml4_step [OF wf e1]
  show ?thesis
  proof (cases ok1)
    case ok1: True
    define pdpt where "pdpt = mem s1 (pml4 s1) ?i4 AND PTE_MASK"
    have t1: "path_ok [?i4]" "length [?i4] < 3" "table_at (mem s1) (pml4 s1) [?i4] = Some pdpt"
      using x1(6) ok1 by (simp_all add: pdpt_def)
    obtain ok2 s2 where e2: "ensure_entry pdpt ?i3 create s1 = Inr (ok2, s2)"
      and n2: "card (free_pages (pm s1)) \<le> Suc (card (free_pages (pm s2)))"
      using ensure_entry_total [OF x1(2), of pdpt ?i3 create] c1 by fastforce
    have c2: "free_pages (pm s2) \<noteq> {}" using n2 c1 by auto
    note x2 = ensure_step [OF x1(2) t1 idx_lt(2) e2]
    obtain ok3 s3 where "ensure_entry (mem s2 pdpt ?i3 AND PTE_MASK) ?i2 create s2 = Inr (ok3, s3)"
      "card (free_pages (pm s2)) \<le> Suc (card (free_pages (pm s3)))"
      using ensure_entry_total [OF x2(2) c2] by blast
    with e1 e2 ok1 x1(3) n1 n2 show ?thesis
      by (cases ok3) (auto simp: pt_for_def Let_def pdpt_def)
  qed (use e1 n1 in \<open>simp add: pt_for_def\<close>)
qed

section \<open>Mapping and unmapping\<close>

lemma vmm_translate_walk:
  assumes "space_tree (mem s) (pml4 s)"
  shows "vmm_translate va s = map_option
    (\<lambda>(e, k). (e AND PTE_MASK AND NOT (mask (12 + 9 * k))) + (if k = 0 then 0 else va AND mask (12 + 9 * k)))
    (walk (mem s) (pml4 s) (va_path va))"
proof -
  have ps: "mem s (pml4 s) (PML4_IDX va) AND VMM_PRESENT \<noteq> 0 \<Longrightarrow> mem s (pml4 s) (PML4_IDX va) AND PDE_PS = 0"
    using assms by (simp add: space_tree_def)
  have "PTE_MASK AND NOT (mask 12) = PTE_MASK" "PTE_MASK AND NOT (mask 21) = PDE2M_MASK"
    "PTE_MASK AND NOT (mask 30) = 0x000FFFFFC0000000"
    by (simp_all add: PTE_MASK_def PDE2M_MASK_def mask_eq_exp_minus_1)
  moreover have "(mask 21 :: u64) = 0x1FFFFF" "(mask 30 :: u64) = 0x3FFFFFFF"
    by (simp_all add: mask_eq_exp_minus_1)
  ultimately show ?thesis
    using ps by (auto simp: vmm_translate_def va_path_def Let_def and.assoc)
qed

text \<open>The virtual page an address belongs to: the 36 bits the walk looks at.\<close>

definition vpage :: "vaddr \<Rightarrow> u64" where
  "vpage va = take_bit 36 (drop_bit 12 va)"

lemma va_path_vpage: "va_path va = va_path va' \<Longrightarrow> vpage va = vpage va'"
proof -
  assume "va_path va = va_path va'"
  then have idx: "drop_bit 39 va AND 0x1FF = drop_bit 39 va' AND 0x1FF"
    "drop_bit 30 va AND 0x1FF = drop_bit 30 va' AND 0x1FF"
    "drop_bit 21 va AND 0x1FF = drop_bit 21 va' AND 0x1FF"
    "drop_bit 12 va AND 0x1FF = drop_bit 12 va' AND 0x1FF"
    by (simp_all add: va_path_def PML4_IDX_def PDPT_IDX_def PD_IDX_def PT_IDX_def word_unat_eq_iff)
  have m: "(0x1FF :: u64) = mask 9" by (simp add: mask_eq_exp_minus_1)
  have eq: "bit va (k + j) = bit va' (k + j)" if "drop_bit k va AND 0x1FF = drop_bit k va' AND 0x1FF" "j < 9" for k j
    using arg_cong [OF that(1), of "\<lambda>w. bit w j"] that(2) unfolding m
    by (simp add: bit_and_iff bit_mask_iff bit_drop_bit_eq)
  have "bit va (12 + n) = bit va' (12 + n)" if n: "n < 36" for n
  proof -
    consider "n < 9" | "9 \<le> n" "n < 18" | "18 \<le> n" "n < 27" | "27 \<le> n" "n < 36"
      using n by linarith
    then show ?thesis
    proof cases
      case 1 then show ?thesis using eq [OF idx(4)] by simp
    next
      case 2 then show ?thesis using eq [OF idx(3), of "n - 9"] by simp
    next
      case 3 then show ?thesis using eq [OF idx(2), of "n - 18"] by simp
    next
      case 4 then show ?thesis using eq [OF idx(1), of "n - 27"] by simp
    qed
  qed
  then show ?thesis
    by (simp add: vpage_def bit_eq_iff [where ?'a = u64] bit_take_bit_iff bit_drop_bit_eq) blast
qed

lemma pt_entry_write:
  fixes v :: u64
  assumes wf: "vmm_wf s" and t: "table_at (mem s) (pml4 s) (pt_path va) = Some t"
  defines "s' \<equiv> tbl_write t (PT_IDX va) v s"
  shows "vmm_wf s'" and "space_tables (mem s') (pml4 s') = space_tables (mem s) (pml4 s)"
    and "walk (mem s') (pml4 s') (va_path va) = (if v AND VMM_PRESENT = 0 then None else Some (v, 0))"
    and "vpage va' \<noteq> vpage va \<Longrightarrow> walk (mem s') (pml4 s') (va_path va') = walk (mem s) (pml4 s) (va_path va')"
proof -
  have tree: "space_tree (mem s) (pml4 s)" using wf by (simp add: vmm_wf_def)
  have m': "mem s' = (mem s)(t := (mem s t)(PT_IDX va := v))" "pml4 s' = pml4 s" "pm s' = pm s"
    by (simp_all add: s'_def tbl_write_def)
  have same: "table_at (mem s') (pml4 s) p = table_at (mem s) (pml4 s) p" if "path_ok p" for p
    unfolding m' by (rule table_at_write_other [OF tree _ t that]) (use that in \<open>auto simp: path_ok_def dest: arg_cong [where f = length]\<close>)
  then show tables: "space_tables (mem s') (pml4 s') = space_tables (mem s) (pml4 s)"
    by (auto simp: space_tables_def m'(2))
  have "pml4 s \<noteq> t"
    using space_treeD [OF tree, of "[]" "pt_path va"] t by auto
  then have "space_tree (mem s') (pml4 s')"
    using tree same unfolding space_tree_def m' by simp
  then show "vmm_wf s'" using wf tables by (simp add: vmm_wf_def m')
  have "table_at (mem s') (pml4 s') (pt_path va) = Some t"
    unfolding m'(2) same [OF va_path_ok(4)] by (rule t)
  from walk_at [OF this, of "PT_IDX va" "[]"]
  show "walk (mem s') (pml4 s') (va_path va) = (if v AND VMM_PRESENT = 0 then None else Some (v, 0))"
    by (simp add: va_path_def m')
  show "walk (mem s') (pml4 s') (va_path va') = walk (mem s) (pml4 s) (va_path va')" if "vpage va' \<noteq> vpage va"
  proof -
    have "take (Suc (length (pt_path va))) (va_path va') \<noteq> pt_path va @ [PT_IDX va]"
      using that va_path_vpage [of va' va] by (auto simp: va_path_def)
    then show ?thesis unfolding m' by (intro walk_write_other [OF tree va_path_ok(4) t leaf_path_va])
  qed
qed

lemma extends_data:
  "extends s s' \<Longrightarrow> u \<notin> space_tables (mem s) (pml4 s) \<union> free_pages (pm s) \<Longrightarrow> mem s' u = mem s u"
  by (simp add: extends_def)

lemma extends_walk: "extends s s' \<Longrightarrow> walk (mem s') (pml4 s') (va_path va) = walk (mem s) (pml4 s) (va_path va)"
  by (simp add: extends_def)

text \<open>What \<open>vmm_map\<close> and \<open>vmm_unmap\<close> do to the space, when they return.\<close>

lemma vmm_map_result:
  assumes wf: "vmm_wf s" and map: "vmm_map va pa flags s = Inr s'"
  shows "vmm_wf s'" and "pml4 s' = pml4 s" and "free_pages (pm s') \<subseteq> free_pages (pm s)"
    and "walk (mem s) (pml4 s) (va_path va) = None"
    and "flags AND VMM_PRESENT \<noteq> 0 \<Longrightarrow> walk (mem s') (pml4 s') (va_path va) = Some (pa AND PTE_MASK OR flags, 0)"
    and "vpage va' \<noteq> vpage va \<Longrightarrow> walk (mem s') (pml4 s') (va_path va') = walk (mem s) (pml4 s) (va_path va')"
    and "u \<notin> space_tables (mem s) (pml4 s) \<union> free_pages (pm s) \<Longrightarrow> mem s' u = mem s u"
    and "space_tables (mem s') (pml4 s) \<subseteq> space_tables (mem s) (pml4 s) \<union> free_pages (pm s)"
proof -
  let ?e = "pa AND PTE_MASK OR flags"
  obtain t s1 where pt: "pt_for va True s = Inr (Some t, s1)"
    and absent: "mem s1 t (PT_IDX va) AND VMM_PRESENT = 0"
    and s': "s' = invlpg va (tbl_write t (PT_IDX va) ?e s1)"
    using map by (auto simp: vmm_map_def table_for_def rbind_eq_Inr PTE_MASK_def split: option.splits if_splits)
  have ext: "extends s s1" and t: "table_at (mem s1) (pml4 s1) (pt_path va) = Some t"
    using pt_for_spec [OF wf pt] by auto
  have wf1: "vmm_wf s1" and p1: "pml4 s1 = pml4 s" using ext by (simp_all add: extends_def)
  note w = pt_entry_write [OF wf1 t, where v = ?e]
  have m': "mem s' = mem (tbl_write t (PT_IDX va) ?e s1)" "pml4 s' = pml4 (tbl_write t (PT_IDX va) ?e s1)"
    "pm s' = pm (tbl_write t (PT_IDX va) ?e s1)" by (simp_all add: s' invlpg_def)
  show "vmm_wf s'" using w(1) by (simp add: vmm_wf_def m')
  show p': "pml4 s' = pml4 s" by (simp add: m' tbl_write_def p1)
  show "free_pages (pm s') \<subseteq> free_pages (pm s)" using ext by (simp add: extends_def m' tbl_write_def)
  show "walk (mem s) (pml4 s) (va_path va) = None"
    using extends_walk [OF ext, of va] walk_at [OF t, of "PT_IDX va" "[]"] absent by (simp add: va_path_def)
  show "walk (mem s') (pml4 s') (va_path va) = Some (?e, 0)" if "flags AND VMM_PRESENT \<noteq> 0"
  proof -
    have "?e AND VMM_PRESENT \<noteq> 0" using that by (simp add: present_bit bit_or_iff)
    then show ?thesis using w(3) unfolding m' by simp
  qed
  show "walk (mem s') (pml4 s') (va_path va') = walk (mem s) (pml4 s) (va_path va')" if "vpage va' \<noteq> vpage va"
    using w(4) [OF that] extends_walk [OF ext, of va'] unfolding m' by simp
  have tt: "t \<in> space_tables (mem s1) (pml4 s1)" using t va_path_ok(4) unfolding space_tables_def by blast
  have sub: "space_tables (mem s1) (pml4 s) \<subseteq> space_tables (mem s) (pml4 s) \<union> free_pages (pm s)"
    using ext by (simp add: extends_def)
  show "mem s' u = mem s u" if "u \<notin> space_tables (mem s) (pml4 s) \<union> free_pages (pm s)"
    using extends_data [OF ext that] tt sub that p1 by (auto simp: m' tbl_write_def)
  show "space_tables (mem s') (pml4 s) \<subseteq> space_tables (mem s) (pml4 s) \<union> free_pages (pm s)"
    using w(2) sub p1 p' unfolding m' by simp
qed

lemma vmm_map_total:
  assumes wf: "vmm_wf s" and room: "3 \<le> card (free_pages (pm s))"
    and unmapped: "walk (mem s) (pml4 s) (va_path va) = None"
  shows "\<exists>s'. vmm_map va pa flags s = Inr s' \<and> card (free_pages (pm s)) \<le> card (free_pages (pm s')) + 3"
proof -
  obtain r s1 where pt: "pt_for va True s = Inr (r, s1)" and n: "card (free_pages (pm s)) \<le> card (free_pages (pm s1)) + 3"
    using pt_for_total [OF wf room] by blast
  note spec = pt_for_spec [OF wf pt]
  then have none: "walk (mem s1) (pml4 s1) (va_path va) = None" using extends_walk unmapped by metis
  with spec obtain t where r: "r = Some t" and t: "table_at (mem s1) (pml4 s1) (pt_path va) = Some t" by fastforce
  then have "mem s1 t (PT_IDX va) AND VMM_PRESENT = 0"
    using none walk_at [OF t, of "PT_IDX va" "[]"] by (simp add: va_path_def Let_def split: if_splits)
  then show ?thesis using pt r n by (simp add: vmm_map_def table_for_def invlpg_def tbl_write_def)
qed

lemma vmm_unmap_result:
  assumes wf: "vmm_wf s"
  shows "\<exists>s'. vmm_unmap va s = Inr s' \<and> vmm_wf s' \<and> pml4 s' = pml4 s \<and> pm s' = pm s \<and>
    (table_at (mem s) (pml4 s) (pt_path va) \<noteq> None \<longrightarrow> walk (mem s') (pml4 s') (va_path va) = None) \<and>
    (\<forall>va'. vpage va' \<noteq> vpage va \<longrightarrow> walk (mem s') (pml4 s') (va_path va') = walk (mem s) (pml4 s) (va_path va')) \<and>
    (\<forall>u. u \<notin> space_tables (mem s) (pml4 s) \<longrightarrow> mem s' u = mem s u)"
proof -
  obtain r where pt: "pt_for va False s = Inr (r, s)"
  proof -
    have "\<exists>r s'. pt_for va False s = Inr (r, s')"
      by (auto simp: pt_for_def ensure_entry_def Let_def)
    then show ?thesis using that pt_for_spec [OF wf] by metis
  qed
  have r: "r = table_at (mem s) (pml4 s) (pt_path va)" using pt_for_spec [OF wf pt] by simp
  show ?thesis
  proof (cases r)
    case None
    then have "vmm_unmap va s = Inr s" using pt by (simp add: vmm_unmap_def table_for_def)
    then show ?thesis using wf r None by (simp del: table_at.simps)
  next
    case (Some t)
    then have t: "table_at (mem s) (pml4 s) (pt_path va) = Some t" using r by simp
    let ?s = "tbl_write t (PT_IDX va) 0 s"
    have u: "vmm_unmap va s = Inr (invlpg va ?s)" using pt Some by (simp add: vmm_unmap_def table_for_def)
    have inv: "mem (invlpg va ?s) = mem ?s" "pml4 (invlpg va ?s) = pml4 ?s" "pm (invlpg va ?s) = pm ?s"
      by (simp_all add: invlpg_def)
    have m: "pml4 ?s = pml4 s" "pm ?s = pm s" by (simp_all add: tbl_write_def)
    note w = pt_entry_write [OF wf t, where v = 0]
    have "vmm_wf (invlpg va ?s)" using w(1) by (simp add: vmm_wf_def inv)
    moreover have "t \<in> space_tables (mem s) (pml4 s)" using t va_path_ok(4) unfolding space_tables_def by blast
    then have "mem ?s u = mem s u" if "u \<notin> space_tables (mem s) (pml4 s)" for u
      using that by (auto simp: tbl_write_def)
    ultimately show ?thesis using u w(3,4) inv m by (intro exI [of _ "invlpg va ?s"]) simp
  qed
qed

section \<open>An example space\<close>

text \<open>
  Sixteen pages; pages 8 to 11 are the tables of a space that maps 0x400000 (readable, writable,
  user) to page 12; pages 1 to 7 and 13 to 15 are free.
\<close>

definition vmm_example :: vmm where
  "vmm_example = \<lparr>
     pm = \<lparr>bitmap = (\<lambda>_. 0)(0 := 0xE0FE), bitmap_len = 16, total_pages = 16, free_count = 10,
           bitmap_phys = 0, next_free_scan = 0, refcounts = None, refcounts_pages = 0\<rparr>,
     mem = (\<lambda>_ _. 0)(0x8000 := (\<lambda>_. 0)(0 := 0x9007), 0x9000 := (\<lambda>_. 0)(0 := 0xA007),
       0xA000 := (\<lambda>_. 0)(2 := 0xB007), 0xB000 := (\<lambda>_. 0)(0 := 0xC007), 0xC000 := of_nat),
     pml4 = 0x8000, kernel_cr3 = 0x8000, cr3 = 0x8000, scratch_used = (\<lambda>_. 0), tlb_ops = []\<rparr>"

lemma free_set_vmm_example: "free_set (pm vmm_example) = {1, 2, 3, 4, 5, 6, 7, 13, 14, 15}"
  by (simp add: free_set_list vmm_example_def is_free_def BM_WORD_def BM_BIT_def upt_conv_Cons insert_commute)

lemma pmm_inv_vmm_example: "pmm_inv (pm vmm_example)"
  by (simp add: pmm_inv_def free_set_vmm_example) (simp add: vmm_example_def)

lemma free_pages_vmm_example:
  "free_pages (pm vmm_example) = {0x1000, 0x2000, 0x3000, 0x4000, 0x5000, 0x6000, 0x7000, 0xD000, 0xE000, 0xF000}"
  by (simp add: free_pages_def free_set_vmm_example push_bit_eq_mult)

lemma vmm_example_tables:
  assumes "table_at (mem vmm_example) (pml4 vmm_example) p = Some t" and "length p \<le> 3"
  shows "(p, t) \<in> {([], 0x8000), ([0], 0x9000), ([0, 0], 0xA000), ([0, 0, 2], 0xB000)}"
proof -
  have c: "length p \<le> 3 \<Longrightarrow> p = [] \<or> (\<exists>a. p = [a]) \<or> (\<exists>a b. p = [a, b]) \<or> (\<exists>a b c. p = [a, b, c])"
    by (cases p; cases "tl p"; cases "tl (tl p)"; cases "tl (tl (tl p))") auto
  show ?thesis
    using c [OF assms(2)] assms(1)
    by (auto simp: vmm_example_def Let_def uix_const split: if_splits)
qed

lemma vmm_wf_example: "vmm_wf vmm_example"
proof -
  let ?m = "mem vmm_example" and ?r = "pml4 vmm_example"
  have inj: "p = q" if "path_ok p" "path_ok q" "table_at ?m ?r p = Some t" "table_at ?m ?r q = Some t" for p q t
    using that vmm_example_tables [of p t] vmm_example_tables [of q t] by (auto simp: path_ok_def)
  have "space_tables ?m ?r \<subseteq> {0x8000, 0x9000, 0xA000, 0xB000}"
    using vmm_example_tables by (fastforce simp: space_tables_def path_ok_def)
  moreover have "space_tree ?m ?r"
    using inj by (auto simp: space_tree_def) (simp add: vmm_example_def uix_const split: if_splits)
  moreover have "bitmap_len (pm vmm_example) \<le> 2 ^ 40" by (simp add: vmm_example_def)
  ultimately show ?thesis
    using pmm_inv_vmm_example free_pages_vmm_example by (auto simp: vmm_wf_def)
qed

section \<open>The properties\<close>

lemma vmm_translate_None: "vmm_wf s \<Longrightarrow> vmm_translate va s = None \<longleftrightarrow> walk (mem s) (pml4 s) (va_path va) = None"
  by (simp add: vmm_translate_walk vmm_wf_def)

lemma pte_frame: "flags AND PTE_MASK = 0 \<Longrightarrow> (pa AND PTE_MASK OR flags) AND PTE_MASK = pa AND PTE_MASK"
  by (simp add: bit.conj_disj_distrib2 and.assoc)

lemma pte_mask_12: "e AND PTE_MASK AND NOT (mask 12) = e AND PTE_MASK"
proof -
  have "PTE_MASK AND NOT (mask 12) = PTE_MASK" by (simp add: PTE_MASK_def mask_eq_exp_minus_1)
  then show ?thesis by (simp add: and.assoc)
qed

text \<open>
  Claim C2. Mapping a page. When the address is not mapped yet and a page is free for each table
  that may have to be built, \<^verbatim>\<open>vmm_map\<close> returns, the space stays well formed, the address then
  translates to the given frame with exactly the given flags, every other page translates as
  before, and no page in use other than the tables is written.
\<close>

theorem vmm_map_correct:
  assumes "vmm_wf s" and "3 \<le> card (free_pages (pm s))" and "vmm_translate va s = None"
    and "flags AND VMM_PRESENT \<noteq> 0" and "flags AND PTE_MASK = 0"
  shows "\<exists>s'. vmm_map va pa flags s = Inr s' \<and> vmm_wf s' \<and> vmm_translate va s' = Some (pa AND PTE_MASK) \<and>
    walk (mem s') (pml4 s') (va_path va) = Some (pa AND PTE_MASK OR flags, 0) \<and>
    (\<forall>va'. vpage va' \<noteq> vpage va \<longrightarrow> vmm_translate va' s' = vmm_translate va' s) \<and>
    (\<forall>u. u \<notin> space_tables (mem s) (pml4 s) \<union> free_pages (pm s) \<longrightarrow> mem s' u = mem s u)"
proof -
  have none: "walk (mem s) (pml4 s) (va_path va) = None" using assms(1,3) vmm_translate_None by simp
  obtain s' where map: "vmm_map va pa flags s = Inr s'" using vmm_map_total [OF assms(1,2) none] by blast
  note r = vmm_map_result [OF assms(1) map]
  have tree: "space_tree (mem s') (pml4 s')" "space_tree (mem s) (pml4 s)"
    using r(1) assms(1) by (simp_all add: vmm_wf_def)
  have "vmm_translate va s' = Some (pa AND PTE_MASK)"
    using r(5) [OF assms(4)] by (simp add: vmm_translate_walk [OF tree(1)] pte_frame [OF assms(5)] pte_mask_12)
  moreover have "vmm_translate va' s' = vmm_translate va' s" if "vpage va' \<noteq> vpage va" for va'
    using r(6) [OF that] by (simp add: vmm_translate_walk tree)
  ultimately show ?thesis using map r(1,7) r(5) [OF assms(4)] by blast
qed

theorem vmm_map_correct_witness:
  "\<exists>s'. vmm_map 0x401000 0xD000 (VMM_PRESENT OR VMM_WRITE OR VMM_USER) vmm_example = Inr s' \<and>
    vmm_translate 0x401000 s' = Some 0xD000 \<and> vmm_translate 0x400000 s' = Some 0xC000"
proof -
  have "3 \<le> card (free_pages (pm vmm_example))" by (simp add: free_pages_vmm_example)
  moreover have "vmm_translate 0x401000 vmm_example = None" "vmm_translate 0x400000 vmm_example = Some 0xC000"
    by (simp_all add: vmm_translate_def vmm_example_def PML4_IDX_def PDPT_IDX_def PD_IDX_def PT_IDX_def
        uix_const Let_def drop_bit_eq_div)
  moreover have "vpage 0x400000 \<noteq> vpage 0x401000" by (simp add: vpage_def drop_bit_eq_div take_bit_eq_mod)
  moreover have "(0xD000 :: u64) AND PTE_MASK = 0xD000" by (simp add: PTE_MASK_def)
  ultimately show ?thesis
    using vmm_map_correct [OF vmm_wf_example, of "0x401000" "VMM_PRESENT OR VMM_WRITE OR VMM_USER" "0xD000"]
    by (force simp: uix_const)
qed

text \<open>
  \<^verbatim>\<open>vmm_map\<close> on an address that is mapped already changes nothing: it panics when a
  4 KiB page is there, and it dereferences the NULL table \<^verbatim>\<open>pt_for\<close> returned when the address
  lies in a 2 MiB or 1 GiB page (its caller does not check).
\<close>

theorem vmm_map_mapped:
  assumes "vmm_wf s" and "walk (mem s) (pml4 s) (va_path va) = Some (e, k)"
  shows "vmm_map va pa flags s = Inl (if k = 0 then Panic ''vmm: remap of present page %p'' else NullDeref)"
proof -
  have ps: "mem s (pml4 s) (PML4_IDX va) AND VMM_PRESENT \<noteq> 0 \<Longrightarrow> mem s (pml4 s) (PML4_IDX va) AND PDE_PS = 0"
    using assms(1) by (simp add: vmm_wf_def space_tree_def)
  show ?thesis
    using assms(2) ps
    by (auto simp: vmm_map_def table_for_def pt_for_def ensure_entry_def va_path_def Let_def split: if_splits)
qed

theorem vmm_map_mapped_witness:
  "vmm_map 0x400000 0xD000 7 vmm_example = Inl (Panic ''vmm: remap of present page %p'')"
proof -
  have "walk (mem vmm_example) (pml4 vmm_example) (va_path 0x400000) = Some (0xC007, 0)"
    by (simp add: va_path_def vmm_example_def PML4_IDX_def PDPT_IDX_def PD_IDX_def PT_IDX_def
        uix_const Let_def drop_bit_eq_div)
  from vmm_map_mapped [OF vmm_wf_example this] show ?thesis by simp
qed

text \<open>
  Claim C19. \<^verbatim>\<open>vmm_translate\<close> computes the processor's translation, for 4 KiB, 2 MiB and 1 GiB
  pages, except that it drops the offset within a 4 KiB page (and only there).
\<close>

theorem vmm_translate_matches_mmu:
  assumes "vmm_wf s"
  shows "vmm_translate va s = mmu_translate (mem s) (pml4 s)
    (case walk (mem s) (pml4 s) (va_path va) of Some (e, 0) \<Rightarrow> va AND NOT (mask 12) | _ \<Rightarrow> va)"
proof -
  have tree: "space_tree (mem s) (pml4 s)" using assms by (simp add: vmm_wf_def)
  have base: "va_path (va AND NOT (mask 12)) = va_path va"
  proof -
    have "drop_bit n (va AND NOT (mask 12)) = drop_bit n va" if "12 \<le> n" for n
      using that bit_imp_le_length [of va]
      by (auto simp: bit_eq_iff [where ?'a = u64] bit_drop_bit_eq bit_and_iff bit_not_iff bit_mask_iff)
    then show ?thesis by (simp add: va_path_def PML4_IDX_def PDPT_IDX_def PD_IDX_def PT_IDX_def)
  qed
  have off: "(va AND NOT (mask 12)) AND mask 12 = 0" by (simp add: and.assoc)
  show ?thesis
  proof (cases "walk (mem s) (pml4 s) (va_path va)")
    case (Some r)
    obtain e k where r: "r = (e, k)" by force
    show ?thesis
    proof (cases k)
      case 0
      then show ?thesis using Some r base off by (simp add: vmm_translate_walk [OF tree] mmu_translate_def)
    next
      case (Suc j)
      then show ?thesis using Some r by (simp add: vmm_translate_walk [OF tree] mmu_translate_def)
    qed
  qed (simp add: vmm_translate_walk [OF tree] mmu_translate_def)
qed

theorem vmm_translate_matches_mmu_witness:
  "vmm_translate 0x400123 vmm_example = mmu_translate (mem vmm_example) (pml4 vmm_example) 0x400000 \<and>
   vmm_translate 0x400123 vmm_example = Some 0xC000"
proof -
  have "walk (mem vmm_example) (pml4 vmm_example) (va_path 0x400123) = Some (0xC007, 0)"
    "vmm_translate 0x400123 vmm_example = Some 0xC000"
    by (simp_all add: va_path_def vmm_translate_def vmm_example_def PML4_IDX_def PDPT_IDX_def PD_IDX_def PT_IDX_def
        uix_const Let_def drop_bit_eq_div)
  moreover have "(0x400123 :: u64) AND NOT (mask 12) = 0x400000" by (simp add: mask_eq_exp_minus_1)
  ultimately show ?thesis using vmm_translate_matches_mmu [OF vmm_wf_example, of "0x400123"] by simp
qed



end
