(* ===== verification/Vmm_Spaces.thy ===== *)
theory Vmm_Spaces
  imports Vmm
begin

text \<open>
  Whole address spaces: \<^verbatim>\<open>clone_table\<close> (used by \<^verbatim>\<open>vmm_init\<close> to take over the boot
  loader's tables), \<^verbatim>\<open>vmm_create_space\<close> and the copy-on-write duplication of
  \<^verbatim>\<open>fork_table\<close>, \<^verbatim>\<open>vmm_fork_user_space\<close> and \<^verbatim>\<open>vmm_page_fault\<close>. The
  definitions are in \<open>Vmm\<close>; here is what they do to every translation.
\<close>

section \<open>Cloning an address space\<close>

text \<open>The tables within \<open>n\<close> levels below a table, and the paths that end in a leaf there.\<close>

definition sub_tables :: "(paddr \<Rightarrow> nat \<Rightarrow> u64) \<Rightarrow> nat \<Rightarrow> paddr \<Rightarrow> paddr set" where
  "sub_tables m n t = {u. \<exists>p. length p \<le> n \<and> (\<forall>i \<in> set p. i < 512) \<and> table_at m t p = Some u}"

definition sub_path :: "nat \<Rightarrow> nat list \<Rightarrow> bool" where
  "sub_path n p \<longleftrightarrow> length p = Suc n \<and> (\<forall>i \<in> set p. i < 512)"

abbreviation absent :: "u64 \<Rightarrow> bool" where "absent e \<equiv> e AND VMM_PRESENT = 0"
abbreviation interior :: "u64 \<Rightarrow> bool" where "interior e \<equiv> e AND VMM_PRESENT \<noteq> 0 \<and> e AND PDE_PS = 0"

lemma sub_tables_self [simp]: "t \<in> sub_tables m n t"
  by (auto simp: sub_tables_def intro: exI [of _ "[]"])

lemma sub_tables_0: "sub_tables m 0 t = {t}"
  by (auto simp: sub_tables_def)

lemma sub_tables_step:
  assumes "i < 512" and "interior (m t i)" and "u \<in> sub_tables m n (m t i AND PTE_MASK)"
  shows "u \<in> sub_tables m (Suc n) t"
proof -
  obtain p where "length p \<le> n" "\<forall>i \<in> set p. i < 512" "table_at m (m t i AND PTE_MASK) p = Some u"
    using assms(3) by (auto simp: sub_tables_def)
  then show ?thesis using assms(1,2) by (auto simp: sub_tables_def Let_def intro!: exI [of _ "i # p"])
qed

lemma sub_tables_cases:
  assumes "u \<in> sub_tables m (Suc n) t"
  obtains "u = t" | i where "i < 512" "interior (m t i)" "u \<in> sub_tables m n (m t i AND PTE_MASK)"
proof -
  obtain p where p: "length p \<le> Suc n" "\<forall>i \<in> set p. i < 512" "table_at m t p = Some u"
    using assms by (auto simp: sub_tables_def)
  show ?thesis
  proof (cases p)
    case Nil
    then show ?thesis using p that(1) by simp
  next
    case (Cons i q)
    then show ?thesis
      using p that(2) [of i] by (auto simp: sub_tables_def Let_def split: if_splits)
  qed
qed

lemma sub_tables_mono: "n \<le> k \<Longrightarrow> sub_tables m n t \<subseteq> sub_tables m k t"
  by (auto simp: sub_tables_def) (meson le_trans)

lemma sub_outside:
  assumes "\<And>u. u \<in> sub_tables m n t \<Longrightarrow> m' u = m u"
  shows "sub_path n p \<Longrightarrow> walk m' t p = walk m t p" and "sub_tables m' n t = sub_tables m n t"
proof -
  have same: "m' u j = m u j"
    if "length q \<le> n" "\<forall>i \<in> set q. i < 512" "table_at m t q = Some u" for q u j
  proof -
    have "u \<in> sub_tables m n t" using that unfolding sub_tables_def by blast
    then show ?thesis using assms by simp
  qed
  show "walk m' t p = walk m t p" if p: "sub_path n p"
  proof (rule walk_cong)
    fix k u assume k: "k < length p" and u: "table_at m t (take k p) = Some u"
    have "length (take k p) \<le> n" "\<forall>i \<in> set (take k p). i < 512"
      using p k by (auto simp: sub_path_def dest: in_set_takeD)
    then show "m' u (p ! k) = m u (p ! k)" using same u by blast
  qed
  have "table_at m' t p = table_at m t p" if p: "length p \<le> n" "\<forall>i \<in> set p. i < 512" for p
  proof (rule table_at_cong)
    fix k u assume k: "k < length p" and u: "table_at m t (take k p) = Some u"
    have "length (take k p) \<le> n" "\<forall>i \<in> set (take k p). i < 512"
      using p k by (auto dest: in_set_takeD)
    then show "m' u (p ! k) = m u (p ! k)" using same u by blast
  qed
  then show "sub_tables m' n t = sub_tables m n t" by (auto simp: sub_tables_def)
qed

lemma walk_step:
  "walk m t (i # p) = (if absent (m t i) then None
     else if p = [] \<or> m t i AND PDE_PS \<noteq> 0 then Some (m t i, length p) else walk m (m t i AND PTE_MASK) p)"
  by (simp add: Let_def)

text \<open>The pages taken between two states, and the part of the state all cloning keeps.\<close>

definition taken :: "vmm \<Rightarrow> vmm \<Rightarrow> paddr set" where
  "taken s s' = free_pages (pm s) - free_pages (pm s')"

definition grows :: "vmm \<Rightarrow> vmm \<Rightarrow> bool" where
  "grows s s' \<longleftrightarrow> pmm_inv (pm s') \<and> bitmap_len (pm s') = bitmap_len (pm s) \<and>
     free_pages (pm s') \<subseteq> free_pages (pm s) \<and> pml4 s' = pml4 s \<and> cr3 s' = cr3 s"

lemma grows_trans: "grows s s1 \<Longrightarrow> grows s1 s2 \<Longrightarrow> grows s s2"
  by (auto simp: grows_def)

lemma taken_trans: "grows s s1 \<Longrightarrow> grows s1 s2 \<Longrightarrow> taken s s2 = taken s s1 \<union> taken s1 s2"
  by (auto simp: grows_def taken_def)

text \<open>
  What a clone of the table \<open>src\<close>, \<open>n\<close> levels above the pages, promises: only pages it takes
  are written, the new table and everything below it consists of such pages, and all walks agree.
\<close>

definition is_clone :: "nat \<Rightarrow> paddr \<Rightarrow> vmm \<Rightarrow> paddr \<Rightarrow> vmm \<Rightarrow> bool" where
  "is_clone n src s c s' \<longleftrightarrow> grows s s' \<and> (\<forall>u. u \<notin> taken s s' \<longrightarrow> mem s' u = mem s u) \<and> is_frame c \<and>
     sub_tables (mem s') n c \<subseteq> taken s s' \<and> (\<forall>p. sub_path n p \<longrightarrow> walk (mem s') c p = walk (mem s) src p)"

definition clone_rel :: "nat \<Rightarrow> vmm \<Rightarrow> vmm \<Rightarrow> vmm \<Rightarrow> u64 \<Rightarrow> u64 \<Rightarrow> bool" where
  "clone_rel n s s1 t e e' \<longleftrightarrow>
     (if absent e then absent e'
      else if n = 0 \<or> e AND PDE_PS \<noteq> 0 then e' = e
      else interior e' \<and> sub_tables (mem t) (n - 1) (e' AND PTE_MASK) \<subseteq> taken s1 t \<and>
        (\<forall>p. sub_path (n - 1) p \<longrightarrow> walk (mem t) (e' AND PTE_MASK) p = walk (mem s) (e AND PTE_MASK) p))"

lemma clone_rel_keep:
  assumes rel: "clone_rel n s s1 t e e'" and grow: "grows s1 t" "grows t t'"
    and keep: "\<And>u. u \<in> taken s1 t \<Longrightarrow> mem t' u = mem t u"
  shows "clone_rel n s s1 t' e e'"
proof (cases "absent e \<or> n = 0 \<or> e AND PDE_PS \<noteq> 0")
  case False
  then have sub: "sub_tables (mem t) (n - 1) (e' AND PTE_MASK) \<subseteq> taken s1 t"
    using rel by (simp add: clone_rel_def)
  then have same: "\<And>u. u \<in> sub_tables (mem t) (n - 1) (e' AND PTE_MASK) \<Longrightarrow> mem t' u = mem t u"
    using keep by blast
  have "taken s1 t \<subseteq> taken s1 t'" using taken_trans [OF grow] by blast
  with rel False sub sub_outside [OF same] show ?thesis by (auto simp: clone_rel_def)
qed (use rel in \<open>auto simp: clone_rel_def\<close>)

definition clones_below :: "nat \<Rightarrow> (u64 \<Rightarrow> vmm \<Rightarrow> (paddr \<times> vmm) res) \<Rightarrow> bool" where
  "clones_below n f \<longleftrightarrow> (\<forall>e s c s'. pmm_inv (pm s) \<longrightarrow> bitmap_len (pm s) \<le> 2 ^ 40 \<longrightarrow>
     sub_tables (mem s) n (e AND PTE_MASK) \<inter> free_pages (pm s) = {} \<longrightarrow> f e s = Inr (c, s') \<longrightarrow>
     is_clone n (e AND PTE_MASK) s c s')"

text \<open>The state in the middle of the loop of \<open>clone_body\<close>.\<close>

definition clone_inv :: "nat \<Rightarrow> paddr \<Rightarrow> paddr \<Rightarrow> vmm \<Rightarrow> vmm \<Rightarrow> nat \<Rightarrow> vmm \<Rightarrow> bool" where
  "clone_inv n src dst s s1 i t \<longleftrightarrow> grows s1 t \<and> (\<forall>u. u \<notin> taken s t \<longrightarrow> mem t u = mem s u) \<and>
     (\<forall>j < i. clone_rel n s s1 t (mem s src j) (mem t dst j))"

lemma clone_inv_write:
  assumes inv: "clone_inv n src dst s s1 i t" and grow: "grows s s1" "grows t t1"
    and dst: "dst \<in> taken s s1" and only: "\<And>u. u \<notin> taken t t1 \<Longrightarrow> mem t1 u = mem t u"
    and rel: "clone_rel n s s1 (tbl_write dst i v t1) (mem s src i) v"
  shows "clone_inv n src dst s s1 (Suc i) (tbl_write dst i v t1)"
proof -
  let ?t = "tbl_write dst i v t1"
  have g: "grows s1 t" using inv by (simp add: clone_inv_def)
  have pm: "pm ?t = pm t1" "pml4 ?t = pml4 t1" "cr3 ?t = cr3 t1" by (simp_all add: tbl_write_def)
  then have g2: "grows t ?t" using grow(2) by (simp add: grows_def)
  have "dst \<notin> taken s1 t" "dst \<notin> taken t t1" using dst g by (auto simp: taken_def grows_def)
  then have keep: "mem ?t u = mem t u" if "u \<in> taken s1 t" for u
    using that only [of u] by (auto simp: tbl_write_def taken_def)
  have mem_dst: "mem ?t dst j = (if j = i then v else mem t dst j)" for j
    using only [OF \<open>dst \<notin> taken t t1\<close>] by (simp add: tbl_write_def)
  have "clone_rel n s s1 ?t (mem s src j) (mem ?t dst j)" if "j < Suc i" for j
  proof (cases "j = i")
    case False
    then have "clone_rel n s s1 t (mem s src j) (mem t dst j)" using inv that by (simp add: clone_inv_def)
    then show ?thesis using clone_rel_keep [OF _ g g2 keep] False by (simp add: mem_dst)
  qed (use rel mem_dst in simp)
  moreover have "mem ?t u = mem s u" if "u \<notin> taken s ?t" for u
  proof -
    have t: "taken s ?t = taken s s1 \<union> taken s1 t \<union> taken t t1"
      using taken_trans [OF grow(1) grows_trans [OF g g2]] taken_trans [OF g g2]
      by (auto simp: taken_def pm)
    then have "u \<noteq> dst" "u \<notin> taken t t1" "u \<notin> taken s t"
      using that dst taken_trans [OF grow(1) g] by auto
    then show ?thesis using only [of u] inv by (simp add: tbl_write_def clone_inv_def)
  qed
  ultimately show ?thesis using grows_trans [OF g g2] by (simp add: clone_inv_def)
qed

lemma interior_child:
  assumes "is_frame c" and "interior e"
  shows "interior (c OR e AND 0xFFF)" and "(c OR e AND 0xFFF) AND PTE_MASK = c"
  using assms frame_flags [OF assms(1), of e] by (auto simp: entry_bits is_frame_bits)

lemma clone_entry_step:
  assumes inv: "clone_inv n src dst s s1 i t" and i: "i < 512"
    and start: "pmm_inv (pm s)" "bitmap_len (pm s) \<le> 2 ^ 40" "grows s s1" "dst \<in> taken s s1"
    and src: "sub_tables (mem s) n src \<inter> free_pages (pm s) = {}"
    and next_ok: "case nxt of None \<Rightarrow> n = 0 | Some f \<Rightarrow> 0 < n \<and> clones_below (n - 1) f"
    and step: "clone_entry nxt src dst i t = Inr t'"
  shows "clone_inv n src dst s s1 (Suc i) t'"
proof -
  have g: "grows s1 t" using inv by (simp add: clone_inv_def)
  have gt: "grows t t" using g by (simp add: grows_def)
  have src_same: "mem t u = mem s u" if "u \<in> sub_tables (mem s) n src" for u
    using that src inv by (auto simp: clone_inv_def taken_def)
  let ?e = "mem s src i"
  have e: "mem t src i = ?e" using src_same [of src] by simp
  show ?thesis
  proof (cases "absent ?e \<or> n = 0 \<or> ?e AND PDE_PS \<noteq> 0")
    case True
    then have "t' = tbl_write dst i (if absent ?e then 0 else ?e) t"
      using step next_ok by (auto simp: clone_entry_def Let_def e split: option.splits if_splits)
    with True show ?thesis
      using clone_inv_write [OF inv start(3) gt start(4)] by (auto simp: clone_rel_def)
  next
    case False
    then obtain f c t1 where f: "nxt = Some f" "clones_below (n - 1) f" and c: "f ?e t = Inr (c, t1)"
      and t': "t' = tbl_write dst i (c OR ?e AND 0xFFF) t1"
      using step next_ok by (auto simp: clone_entry_def Let_def e rbind_eq_Inr split: option.splits)
    have below: "sub_tables (mem s) (n - 1) (?e AND PTE_MASK) \<subseteq> sub_tables (mem s) n src"
      using sub_tables_step [of i "mem s" src _ "n - 1"] i False by auto
    then have same: "\<And>u. u \<in> sub_tables (mem s) (n - 1) (?e AND PTE_MASK) \<Longrightarrow> mem t u = mem s u"
      using src_same by blast
    have "free_pages (pm t) \<subseteq> free_pages (pm s)" "pmm_inv (pm t)" "bitmap_len (pm t) \<le> 2 ^ 40"
      using g start by (auto simp: grows_def)
    moreover have "sub_tables (mem t) (n - 1) (?e AND PTE_MASK) \<inter> free_pages (pm t) = {}"
      using sub_outside(2) [where m = "mem s" and m' = "mem t", OF same] below src calculation(1) by blast
    ultimately have cl: "is_clone (n - 1) (?e AND PTE_MASK) t c t1"
      using f(2) c unfolding clones_below_def by blast
    then have gc: "grows t t1" and only: "\<And>u. u \<notin> taken t t1 \<Longrightarrow> mem t1 u = mem t u" and fc: "is_frame c"
      and sub: "sub_tables (mem t1) (n - 1) c \<subseteq> taken t t1"
      by (auto simp: is_clone_def)
    have child: "interior (c OR ?e AND 0xFFF)" "(c OR ?e AND 0xFFF) AND PTE_MASK = c"
      using interior_child [OF fc] False by auto
    have "dst \<notin> taken t t1" using start(4) g by (auto simp: taken_def grows_def)
    then have w: "mem t' u = mem t1 u" if "u \<in> sub_tables (mem t1) (n - 1) c" for u
      using that sub by (auto simp: t' tbl_write_def)
    have "taken t t1 \<subseteq> taken s1 t'" using g by (auto simp: taken_def grows_def t' tbl_write_def)
    moreover have "walk (mem t') c p = walk (mem s) (?e AND PTE_MASK) p" if "sub_path (n - 1) p" for p
      using sub_outside(1) [where m = "mem t1" and m' = "mem t'", OF w that]
        sub_outside(1) [where m = "mem s" and m' = "mem t", OF same that] cl that by (simp add: is_clone_def)
    ultimately have "clone_rel n s s1 t' ?e (c OR ?e AND 0xFFF)"
      using False child sub sub_outside(2) [where m = "mem t1" and m' = "mem t'", OF w]
      by (auto simp: clone_rel_def)
    then show ?thesis
      using clone_inv_write [OF inv start(3) gc start(4) only] unfolding t' by blast
  qed
qed

lemma clone_inv_done:
  assumes inv: "clone_inv n src dst s s1 512 t" and start: "grows s s1" "dst \<in> taken s s1" "is_frame dst"
  shows "is_clone n src s dst t"
proof -
  have g: "grows s1 t" using inv by (simp add: clone_inv_def)
  have rel: "clone_rel n s s1 t (mem s src j) (mem t dst j)" if "j < 512" for j
    using inv that by (simp add: clone_inv_def)
  have tk: "taken s t = taken s s1 \<union> taken s1 t" using taken_trans [OF start(1) g] .
  have "sub_tables (mem t) n dst \<subseteq> taken s t"
  proof
    fix u assume u: "u \<in> sub_tables (mem t) n dst"
    show "u \<in> taken s t"
    proof (cases n)
      case (Suc k)
      have "u \<in> sub_tables (mem t) (Suc k) dst" using u Suc by simp
      then show ?thesis
      proof (cases rule: sub_tables_cases)
        case (2 j)
        then have "sub_tables (mem t) k (mem t dst j AND PTE_MASK) \<subseteq> taken s1 t"
          using rel [of j] Suc by (auto simp: clone_rel_def split: if_splits)
        then show ?thesis using 2 tk by auto
      qed (use start(2) tk in auto)
    qed (use u start(2) tk in \<open>auto simp: sub_tables_0\<close>)
  qed
  moreover have "walk (mem t) dst p = walk (mem s) src p" if p: "sub_path n p" for p
  proof -
    obtain j q where q: "p = j # q" "j < 512" "length q = n" "\<forall>i \<in> set q. i < 512"
      using p by (cases p) (auto simp: sub_path_def)
    then have "sub_path (n - 1) q" if "0 < n" using that by (simp add: sub_path_def)
    then show ?thesis using rel [OF q(2)] q(1,3) unfolding q(1) walk_step
      by (auto simp: clone_rel_def split: if_splits)
  qed
  ultimately show ?thesis
    using inv grows_trans [OF start(1) g] start(3) by (auto simp: is_clone_def clone_inv_def)
qed

lemma clone_body_correct:
  assumes start: "pmm_inv (pm s)" "bitmap_len (pm s) \<le> 2 ^ 40"
    and src: "sub_tables (mem s) n (e AND PTE_MASK) \<inter> free_pages (pm s) = {}"
    and next_ok: "case nxt of None \<Rightarrow> n = 0 | Some f \<Rightarrow> 0 < n \<and> clones_below (n - 1) f"
    and body: "clone_body nxt e s = Inr (c, s')"
  shows "is_clone n (e AND PTE_MASK) s c s'"
proof -
  obtain s1 where a: "vmm_alloc s = (c, s1)" and c: "c \<noteq> 0"
    and loop: "for_res (clone_entry nxt (e AND PTE_MASK) c) [0..<512] s1 = Inr s'"
    using body by (auto simp: clone_body_def Let_def rbind_eq_Inr split: prod.splits if_splits)
  note page = vmm_alloc_page [OF start a c]
  have g: "grows s s1" "c \<in> taken s s1"
    using page(1-6) arg_cong [OF page(7), of pml4] arg_cong [OF page(7), of cr3]
    by (auto simp: grows_def taken_def)
  have "mem s1 = mem s" using arg_cong [OF page(7), of mem] by simp
  then have i0: "clone_inv n (e AND PTE_MASK) c s s1 0 s1"
    using g(1) by (simp add: clone_inv_def grows_def)
  have "clone_inv n (e AND PTE_MASK) c s s1 512 s'"
    by (rule for_res_upt_invariant [OF loop, where P = "clone_inv n (e AND PTE_MASK) c s s1"])
      (use i0 clone_entry_step [OF _ _ start g src next_ok] in auto)
  from clone_inv_done [OF this g page(2)] show ?thesis .
qed

lemma clone_table_correct: "clones_below n (clone_table n)"
proof (induction n)
  case 0
  show ?case unfolding clones_below_def by (auto intro!: clone_body_correct [where nxt = None])
next
  case (Suc n)
  then show ?case unfolding clones_below_def
    by (auto intro!: clone_body_correct [where nxt = "Some (clone_table n)"] simp: clones_below_def)
qed

lemma sub_tables_space: "sub_tables m 3 t = space_tables m t"
  by (simp add: sub_tables_def space_tables_def path_ok_def conj_assoc)

lemma sub_path_va: "sub_path 3 (va_path va)"
  using leaf_path_va [of va] by (simp add: sub_path_def leaf_path_def)

lemma clone_table_error:
  "clone_table n e s = Inl err \<Longrightarrow> err = Panic ''vmm: OOM cloning tables''"
proof (induction n arbitrary: e s)
  case 0
  have "clone_entry None src d i t \<noteq> Inl err" for src d i t
    by (simp add: clone_entry_def Let_def)
  with 0 show ?case
    by (auto simp: clone_body_def Let_def rbind_def split: prod.splits if_splits sum.splits
        dest!: for_res_error)
next
  case (Suc n)
  have "err = Panic ''vmm: OOM cloning tables''"
    if "clone_entry (Some (clone_table n)) src d i t = Inl err" for src d i t
    using that Suc.IH by (auto simp: clone_entry_def Let_def rbind_def split: if_splits sum.splits)
  with Suc.prems show ?case
    by (auto simp: clone_body_def Let_def rbind_def split: prod.splits if_splits sum.splits
        dest!: for_res_error)
qed


section \<open>Duplicating an address space for fork\<close>

text \<open>The tables below a table form a tree.\<close>

definition sub_tree :: "(paddr \<Rightarrow> nat \<Rightarrow> u64) \<Rightarrow> nat \<Rightarrow> paddr \<Rightarrow> bool" where
  "sub_tree m n t \<longleftrightarrow> (\<forall>p q u. length p \<le> n \<longrightarrow> length q \<le> n \<longrightarrow> (\<forall>i \<in> set p \<union> set q. i < 512) \<longrightarrow>
     table_at m t p = Some u \<longrightarrow> table_at m t q = Some u \<longrightarrow> p = q)"

lemma sub_tree_child:
  assumes tree: "sub_tree m (Suc n) t" and i: "i < 512" and int: "interior (m t i)"
  shows "sub_tree m n (m t i AND PTE_MASK)" and "t \<notin> sub_tables m n (m t i AND PTE_MASK)"
    and "\<And>j. j < 512 \<Longrightarrow> j \<noteq> i \<Longrightarrow> interior (m t j) \<Longrightarrow>
      sub_tables m n (m t i AND PTE_MASK) \<inter> sub_tables m n (m t j AND PTE_MASK) = {}"
proof -
  have step: "table_at m t (k # p) = table_at m (m t k AND PTE_MASK) p" if "interior (m t k)" for k p
    using that by (simp add: Let_def)
  have uniq: "p = q" if "length p \<le> Suc n" "length q \<le> Suc n" "\<forall>i \<in> set p \<union> set q. i < 512"
    "table_at m t p = Some u" "table_at m t q = Some u" for p q u
    using tree that unfolding sub_tree_def by blast
  have below: "\<exists>p. length p \<le> n \<and> (\<forall>i \<in> set p. i < 512) \<and> table_at m t (k # p) = Some u"
    if "interior (m t k)" "u \<in> sub_tables m n (m t k AND PTE_MASK)" for k u
    using that step [OF that(1)] by (simp add: sub_tables_def)
  show "sub_tree m n (m t i AND PTE_MASK)"
    unfolding sub_tree_def
  proof (intro allI impI)
    fix p q u assume "length p \<le> n" "length q \<le> n" "\<forall>i \<in> set p \<union> set q. i < 512"
      "table_at m (m t i AND PTE_MASK) p = Some u" "table_at m (m t i AND PTE_MASK) q = Some u"
    then show "p = q" using uniq [of "i # p" "i # q" u] step [OF int] i by simp
  qed
  show "t \<notin> sub_tables m n (m t i AND PTE_MASK)"
    using below [OF int, of t] uniq [of "[]" "i # _" t] i by fastforce
  show "sub_tables m n (m t i AND PTE_MASK) \<inter> sub_tables m n (m t j AND PTE_MASK) = {}"
    if j: "j < 512" "j \<noteq> i" "interior (m t j)" for j
  proof -
    have False if u: "u \<in> sub_tables m n (m t i AND PTE_MASK)" "u \<in> sub_tables m n (m t j AND PTE_MASK)" for u
    proof -
      obtain p q where "length p \<le> n" "\<forall>i \<in> set p. i < 512" "table_at m t (i # p) = Some u"
        "length q \<le> n" "\<forall>i \<in> set q. i < 512" "table_at m t (j # q) = Some u"
        using below [OF int u(1)] below [OF j(3) u(2)] by blast
      then show False using uniq [of "i # p" "j # q" u] i j by auto
    qed
    then show ?thesis by blast
  qed
qed

text \<open>The leaf entry after the fork, in both spaces.\<close>

definition cow_leaf :: "u64 \<Rightarrow> u64" where
  "cow_leaf e = (if e AND VMM_USER \<noteq> 0 then cow_entry e else e)"

definition cow_walk :: "(u64 \<times> nat) option \<Rightarrow> (u64 \<times> nat) option" where
  "cow_walk = map_option (\<lambda>(e, k). (cow_leaf e, k))"

lemma cow_leaf_flags:
  "absent (cow_leaf e) \<longleftrightarrow> absent e" "cow_leaf e AND PDE_PS = 0 \<longleftrightarrow> e AND PDE_PS = 0"
proof -
  have "(ucast (NOT (2 :: u32)) :: u64) = 0xFFFFFFFD" by simp
  moreover have "bit (0xFFFFFFFD :: u64) 0" "bit (0xFFFFFFFD :: u64) 7" "\<not> bit (COW_MARK) 0" "\<not> bit COW_MARK 7"
    by (simp_all add: COW_MARK_def bit_numeral_rec)
  ultimately show "absent (cow_leaf e) \<longleftrightarrow> absent e" "cow_leaf e AND PDE_PS = 0 \<longleftrightarrow> e AND PDE_PS = 0"
    by (simp_all add: cow_leaf_def cow_entry_def entry_bits bit_or_iff bit_and_iff)
qed

text \<open>\<^verbatim>\<open>fork_table\<close> stops at level 0 and at 2 MiB entries.\<close>

abbreviation fork_leaf :: "nat \<Rightarrow> u64 \<Rightarrow> bool" where
  "fork_leaf n e \<equiv> n = 0 \<or> n = 1 \<and> e AND PDE_PS \<noteq> 0"

definition fork_rel :: "nat \<Rightarrow> vmm \<Rightarrow> vmm \<Rightarrow> u64 \<Rightarrow> u64 \<Rightarrow> u64 \<Rightarrow> bool" where
  "fork_rel n s t e es ed \<longleftrightarrow>
     (if absent e then es = e \<and> absent ed
      else if fork_leaf n e then es = cow_leaf e \<and> ed = cow_leaf e
      else es = e \<and> interior ed \<and> sub_tables (mem t) (n - 1) (ed AND PTE_MASK) \<subseteq> taken s t \<and>
        (\<forall>p. length p \<le> n - 1 \<longrightarrow> (\<forall>i \<in> set p. i < 512) \<longrightarrow>
           table_at (mem t) (e AND PTE_MASK) p = table_at (mem s) (e AND PTE_MASK) p) \<and>
        (\<forall>p. sub_path (n - 1) p \<longrightarrow>
           walk (mem t) (e AND PTE_MASK) p = cow_walk (walk (mem s) (e AND PTE_MASK) p) \<and>
           walk (mem t) (ed AND PTE_MASK) p = cow_walk (walk (mem s) (e AND PTE_MASK) p)))"

lemma fork_rel_interior:
  assumes "\<not> absent e" and "\<not> fork_leaf n e"
  shows "fork_rel n s t e es ed \<longleftrightarrow>
    es = e \<and> interior ed \<and> sub_tables (mem t) (n - 1) (ed AND PTE_MASK) \<subseteq> taken s t \<and>
    (\<forall>p. length p \<le> n - 1 \<longrightarrow> (\<forall>i \<in> set p. i < 512) \<longrightarrow>
       table_at (mem t) (e AND PTE_MASK) p = table_at (mem s) (e AND PTE_MASK) p) \<and>
    (\<forall>p. sub_path (n - 1) p \<longrightarrow>
       walk (mem t) (e AND PTE_MASK) p = cow_walk (walk (mem s) (e AND PTE_MASK) p) \<and>
       walk (mem t) (ed AND PTE_MASK) p = cow_walk (walk (mem s) (e AND PTE_MASK) p))"
  unfolding fork_rel_def if_not_P [OF assms(1)] if_not_P [OF assms(2)] by (rule refl)

lemma fork_rel_leaf:
  assumes "absent e \<or> fork_leaf n e"
  shows "fork_rel n s t e es ed \<longleftrightarrow>
    (if absent e then es = e \<and> absent ed else es = cow_leaf e \<and> ed = cow_leaf e)"
  using assms by (auto simp: fork_rel_def)

definition is_fork :: "nat \<Rightarrow> paddr \<Rightarrow> paddr \<Rightarrow> vmm \<Rightarrow> vmm \<Rightarrow> bool" where
  "is_fork n src dst s s' \<longleftrightarrow> grows s s' \<and>
     (\<forall>u. u \<notin> taken s s' \<union> {dst} \<union> sub_tables (mem s) n src \<longrightarrow> mem s' u = mem s u) \<and>
     sub_tables (mem s') n dst \<subseteq> insert dst (taken s s') \<and>
     (\<forall>p. length p \<le> n \<longrightarrow> (\<forall>i \<in> set p. i < 512) \<longrightarrow> table_at (mem s') src p = table_at (mem s) src p) \<and>
     (\<forall>p. sub_path n p \<longrightarrow> walk (mem s') src p = cow_walk (walk (mem s) src p) \<and>
        walk (mem s') dst p = cow_walk (walk (mem s) src p))"

definition fork_pre :: "nat \<Rightarrow> paddr \<Rightarrow> paddr \<Rightarrow> vmm \<Rightarrow> bool" where
  "fork_pre n src dst s \<longleftrightarrow> pmm_inv (pm s) \<and> bitmap_len (pm s) \<le> 2 ^ 40 \<and> sub_tree (mem s) n src \<and>
     sub_tables (mem s) n src \<inter> free_pages (pm s) = {} \<and> dst \<notin> free_pages (pm s) \<and>
     dst \<notin> sub_tables (mem s) n src \<and>
     (\<forall>i < 512. 2 \<le> n \<longrightarrow> \<not> absent (mem s src i) \<longrightarrow> mem s src i AND PDE_PS = 0)"

definition forks_below :: "nat \<Rightarrow> (paddr \<Rightarrow> paddr \<Rightarrow> vmm \<Rightarrow> vmm res) \<Rightarrow> bool" where
  "forks_below n f \<longleftrightarrow> (\<forall>src dst s s'. fork_pre n src dst s \<longrightarrow> f src dst s = Inr s' \<longrightarrow> is_fork n src dst s s')"

lemma sub_tables_cong:
  assumes "\<And>p. length p \<le> n \<Longrightarrow> \<forall>i \<in> set p. i < 512 \<Longrightarrow> table_at m' t p = table_at m t p"
  shows "sub_tables m' n t = sub_tables m n t"
  using assms by (auto simp: sub_tables_def)

lemma table_at_outside:
  assumes "\<And>u. u \<in> sub_tables m n t \<Longrightarrow> m' u = m u" and "length p \<le> n" and "\<forall>i \<in> set p. i < 512"
  shows "table_at m' t p = table_at m t p"
proof (rule table_at_cong)
  fix k u assume k: "k < length p" and u: "table_at m t (take k p) = Some u"
  then have "length (take k p) \<le> n" "\<forall>i \<in> set (take k p). i < 512"
    using assms(2,3) by (auto dest: in_set_takeD)
  then have "u \<in> sub_tables m n t" using u unfolding sub_tables_def by blast
  then show "m' u (p ! k) = m u (p ! k)" using assms(1) by simp
qed

lemma fork_rel_keep:
  assumes rel: "fork_rel n s t e es ed" and grow: "grows s t" "grows t t'"
    and keep: "\<And>u. u \<in> taken s t \<Longrightarrow> mem t' u = mem t u"
    and below: "\<And>u. interior e \<Longrightarrow> \<not> fork_leaf n e \<Longrightarrow> u \<in> sub_tables (mem s) (n - 1) (e AND PTE_MASK) \<Longrightarrow> mem t' u = mem t u"
    and no_ps: "2 \<le> n \<Longrightarrow> \<not> absent e \<Longrightarrow> e AND PDE_PS = 0"
  shows "fork_rel n s t' e es ed"
proof (cases "absent e \<or> fork_leaf n e")
  case False
  then have int: "interior e" using no_ps by (cases "n = 1") auto
  have sub: "sub_tables (mem t) (n - 1) (ed AND PTE_MASK) \<subseteq> taken s t"
    and tab: "\<And>p. length p \<le> n - 1 \<Longrightarrow> \<forall>i \<in> set p. i < 512 \<Longrightarrow>
      table_at (mem t) (e AND PTE_MASK) p = table_at (mem s) (e AND PTE_MASK) p"
    using rel False fork_rel_interior [of e n s t es ed] by blast+
  have d: "mem t' u = mem t u" if "u \<in> sub_tables (mem t) (n - 1) (ed AND PTE_MASK)" for u
    using that sub keep by blast
  have "sub_tables (mem t) (n - 1) (e AND PTE_MASK) = sub_tables (mem s) (n - 1) (e AND PTE_MASK)"
    by (rule sub_tables_cong [OF tab])
  then have b: "mem t' u = mem t u" if "u \<in> sub_tables (mem t) (n - 1) (e AND PTE_MASK)" for u
    using that below int False by blast
  have "taken s t \<subseteq> taken s t'" using taken_trans [OF grow] by blast
  with sub have sub': "sub_tables (mem t') (n - 1) (ed AND PTE_MASK) \<subseteq> taken s t'"
    using sub_outside(2) [where m = "mem t" and m' = "mem t'", OF d] by blast
  have rel': "es = e" "interior ed"
    "\<And>p. sub_path (n - 1) p \<Longrightarrow> walk (mem t) (e AND PTE_MASK) p = cow_walk (walk (mem s) (e AND PTE_MASK) p)"
    "\<And>p. sub_path (n - 1) p \<Longrightarrow> walk (mem t) (ed AND PTE_MASK) p = cow_walk (walk (mem s) (e AND PTE_MASK) p)"
    using rel False fork_rel_interior [of e n s t es ed] by blast+
  show ?thesis
    using False sub' rel' tab sub_outside(1) [where m = "mem t" and m' = "mem t'", OF d]
      sub_outside(1) [where m = "mem t" and m' = "mem t'", OF b]
      table_at_outside [where m = "mem t" and m' = "mem t'", OF b]
    by (subst fork_rel_interior) simp_all
next
  case True
  then show ?thesis using rel fork_rel_leaf [OF True] by blast
qed

text \<open>The state in the middle of the loop of \<open>fork_table\<close>.\<close>

definition fork_inv :: "nat \<Rightarrow> paddr \<Rightarrow> paddr \<Rightarrow> vmm \<Rightarrow> nat \<Rightarrow> vmm \<Rightarrow> bool" where
  "fork_inv n src dst s i t \<longleftrightarrow> grows s t \<and>
     (\<forall>u. u \<notin> taken s t \<union> {dst} \<union> sub_tables (mem s) n src \<longrightarrow> mem t u = mem s u) \<and>
     (\<forall>j < i. fork_rel n s t (mem s src j) (mem t src j) (mem t dst j)) \<and>
     (\<forall>j. i \<le> j \<longrightarrow> mem t src j = mem s src j) \<and>
     (\<forall>j. i \<le> j \<longrightarrow> j < 512 \<longrightarrow> interior (mem s src j) \<longrightarrow> 0 < n \<longrightarrow>
        (\<forall>u \<in> sub_tables (mem s) (n - 1) (mem s src j AND PTE_MASK). mem t u = mem s u))"

lemma fork_untouched:
  "fork_inv n src dst s i t \<Longrightarrow> i \<le> j \<Longrightarrow> j < 512 \<Longrightarrow> interior (mem s src j) \<Longrightarrow> 0 < n \<Longrightarrow>
   u \<in> sub_tables (mem s) (n - 1) (mem s src j AND PTE_MASK) \<Longrightarrow> mem t u = mem s u"
  unfolding fork_inv_def by blast

definition fork_below :: "nat \<Rightarrow> vmm \<Rightarrow> u64 \<Rightarrow> paddr set" where
  "fork_below n s e = (if absent e \<or> fork_leaf n e then {} else sub_tables (mem s) (n - 1) (e AND PTE_MASK))"

lemma fork_below_facts:
  assumes pre: "fork_pre n src dst s" and i: "i < 512"
  shows "fork_below n s (mem s src i) \<subseteq> sub_tables (mem s) n src" and "src \<notin> fork_below n s (mem s src i)"
    and "j < 512 \<Longrightarrow> j \<noteq> i \<Longrightarrow> fork_below n s (mem s src i) \<inter> fork_below n s (mem s src j) = {}"
proof -
  have tree: "sub_tree (mem s) n src" using pre by (simp add: fork_pre_def)
  have int: "0 < n" "interior (mem s src j)" "fork_below n s (mem s src j) = sub_tables (mem s) (n - 1) (mem s src j AND PTE_MASK)"
    if "fork_below n s (mem s src j) \<noteq> {}" "j < 512" for j
    using that pre by (cases "n = 1"; auto simp: fork_pre_def fork_below_def split: if_splits)+
  show "fork_below n s (mem s src i) \<subseteq> sub_tables (mem s) n src"
  proof (cases "fork_below n s (mem s src i) = {}")
    case False
    then show ?thesis
      using int [OF False i] sub_tables_step [OF i, where m = "mem s" and t = src and n = "n - 1"] by auto
  qed simp
  show "src \<notin> fork_below n s (mem s src i)"
  proof (cases "fork_below n s (mem s src i) = {}")
    case False
    then show ?thesis
      using int [OF False i] sub_tree_child(2) [OF _ i, where m = "mem s" and t = src and n = "n - 1"] tree by auto
  qed simp
  show "fork_below n s (mem s src i) \<inter> fork_below n s (mem s src j) = {}" if j: "j < 512" "j \<noteq> i"
  proof (cases "fork_below n s (mem s src i) = {} \<or> fork_below n s (mem s src j) = {}")
    case False
    then show ?thesis
      using int [OF _ i] int [OF _ j(1)] tree
        sub_tree_child(3) [OF _ i _ j, where m = "mem s" and t = src and n = "n - 1"] by auto
  qed auto
qed

lemma fork_inv_advance:
  assumes inv: "fork_inv n src dst s i t" and pre: "fork_pre n src dst s" and i: "i < 512"
    and grow: "grows t t'"
    and only: "\<And>u. u \<notin> taken t t' \<union> fork_below n s (mem s src i) \<union> {src, dst} \<Longrightarrow> mem t' u = mem t u"
    and others: "\<And>j. j \<noteq> i \<Longrightarrow> mem t' src j = mem t src j \<and> mem t' dst j = mem t dst j"
    and rel: "fork_rel n s t' (mem s src i) (mem t' src i) (mem t' dst i)"
  shows "fork_inv n src dst s (Suc i) t'"
proof -
  note facts = fork_below_facts [OF pre]
  have g: "grows s t" using inv by (simp add: fork_inv_def)
  have tk: "taken s t' = taken s t \<union> taken t t'" using taken_trans [OF g grow] .
  have tfree: "taken t t' \<subseteq> free_pages (pm s)" "taken s t \<inter> taken t t' = {}" "taken s t \<subseteq> free_pages (pm s)"
    using g by (auto simp: taken_def grows_def)
  have src: "sub_tables (mem s) n src \<inter> free_pages (pm s) = {}" "dst \<notin> free_pages (pm s)"
    "dst \<notin> sub_tables (mem s) n src"
    using pre by (simp_all add: fork_pre_def)
  have src_self: "src \<in> sub_tables (mem s) n src" by simp
  have keep: "mem t' u = mem t u" if "u \<in> taken s t" for u
    using that only [of u] facts(1) [OF i] tfree src src_self by blast
  have below: "mem t' u = mem t u" if "u \<in> fork_below n s (mem s src j)" "j < 512" "j \<noteq> i" for u j
    using that only [of u] facts(1,2) [OF that(2)] facts(3) [OF i that(2,3)] tfree src by blast
  have old: "fork_rel n s t (mem s src j) (mem t src j) (mem t dst j)" if "j < i" for j
    using inv that by (simp add: fork_inv_def)
  have "fork_rel n s t' (mem s src j) (mem t' src j) (mem t' dst j)" if "j < Suc i" for j
  proof (cases "j = i")
    case False
    then have j: "j < i" "j < 512" using that i by auto
    have "fork_rel n s t' (mem s src j) (mem t src j) (mem t dst j)"
    proof (rule fork_rel_keep [OF old [OF j(1)] g grow keep])
      show "mem t' u = mem t u" if "interior (mem s src j)" "\<not> fork_leaf n (mem s src j)"
        "u \<in> sub_tables (mem s) (n - 1) (mem s src j AND PTE_MASK)" for u
        using below [OF _ j(2) False] that by (simp add: fork_below_def)
      show "mem s src j AND PDE_PS = 0" if "2 \<le> n" "\<not> absent (mem s src j)"
        using pre that j(2) by (simp add: fork_pre_def)
    qed
    then show ?thesis using others [OF False] by simp
  qed (use rel in simp)
  moreover have "mem t' u = mem s u" if "u \<notin> taken s t' \<union> {dst} \<union> sub_tables (mem s) n src" for u
  proof -
    have "mem t' u = mem t u" using only [of u] that tk facts(1) [OF i] src_self by blast
    moreover have "mem t u = mem s u" using inv that tk by (simp add: fork_inv_def)
    ultimately show ?thesis by simp
  qed
  moreover have "mem t' src j = mem s src j" if "Suc i \<le> j" for j
    using inv others [of j] that by (simp add: fork_inv_def)
  moreover have "mem t' u = mem s u"
    if "Suc i \<le> j" "j < 512" "interior (mem s src j)" "0 < n" "u \<in> sub_tables (mem s) (n - 1) (mem s src j AND PTE_MASK)" for j u
  proof -
    have "mem t' u = mem t u" using that below [of u j] by (simp add: fork_below_def)
    moreover have "mem t u = mem s u"
      using that inv Suc_leD [OF that(1)] unfolding fork_inv_def by blast
    ultimately show ?thesis by simp
  qed
  ultimately show ?thesis using grows_trans [OF g grow] by (simp add: fork_inv_def)
qed

lemma vmm_alloc_grows:
  assumes "pmm_inv (pm s)" and "bitmap_len (pm s) \<le> 2 ^ 40" and "vmm_alloc s = (n, s')" and "n \<noteq> 0"
  shows "grows s s'" "taken s s' = {n}" "is_frame n" "mem s' = mem s" "n \<in> free_pages (pm s)"
    "n \<notin> free_pages (pm s')"
proof -
  note page = vmm_alloc_page [OF assms]
  show "mem s' = mem s" using arg_cong [OF page(7), of mem] by simp
  show "grows s s'" using page(3-5) arg_cong [OF page(7), of pml4] arg_cong [OF page(7), of cr3]
    by (auto simp: grows_def)
  show "taken s s' = {n}" "n \<notin> free_pages (pm s')" using page(1,3) by (auto simp: taken_def)
  show "is_frame n" "n \<in> free_pages (pm s)" by (rule page)+
qed

lemma pmm_ref_grows:
  assumes "pmm_inv (pm s)"
  shows "grows s (s\<lparr>pm := pmm_ref p (pm s)\<rparr>)"
  using pmm_ref_keeps [OF assms, of p] by (auto simp: grows_def free_pages_def)

lemma fork_leaf_step:
  assumes inv: "fork_inv n src dst s i t" and pre: "fork_pre n src dst s" and i: "i < 512"
    and leaf: "absent (mem s src i) \<or> fork_leaf n (mem s src i)"
    and step: "fork_entry n f src dst i t = Inr t'"
  shows "fork_inv n src dst s (Suc i) t'"
proof -
  let ?e = "mem s src i"
  have e: "mem t src i = ?e" and g: "grows s t" using inv by (simp_all add: fork_inv_def)
  have nd: "src \<noteq> dst" using pre by (auto simp: fork_pre_def)
  have inv_t: "pmm_inv (pm t)" "grows t t" using g by (simp_all add: grows_def)
  let ?w = "if absent ?e then tbl_write dst i 0 t
    else if ?e AND VMM_USER \<noteq> 0 then tbl_write dst i (cow_entry ?e) (tbl_write src i (cow_entry ?e) t)
    else tbl_write dst i ?e t"
  let ?pm = "if absent ?e \<or> ?e AND VMM_USER = 0 then pm t else pmm_ref (?e AND PTE_MASK) (pm t)"
  have t': "t' = ?w\<lparr>pm := ?pm\<rparr>"
    using step leaf by (auto simp: fork_entry_def Let_def e tbl_write_def)
  show ?thesis
  proof (rule fork_inv_advance [OF inv pre i])
    show "grows t t'"
      using inv_t pmm_ref_grows [OF inv_t(1), of "?e AND PTE_MASK"] by (auto simp: t' grows_def tbl_write_def)
    show "mem t' u = mem t u" if "u \<notin> taken t t' \<union> fork_below n s ?e \<union> {src, dst}" for u
      using that by (auto simp: t' tbl_write_def)
    show "mem t' src j = mem t src j \<and> mem t' dst j = mem t dst j" if "j \<noteq> i" for j
      using that by (auto simp: t' tbl_write_def)
    show "fork_rel n s t' ?e (mem t' src i) (mem t' dst i)"
      unfolding fork_rel_leaf [OF leaf] using nd e by (auto simp: t' tbl_write_def cow_leaf_def)
  qed
qed

lemma sub_tree_outside:
  assumes "\<And>u. u \<in> sub_tables m n t \<Longrightarrow> m' u = m u" and "sub_tree m n t"
  shows "sub_tree m' n t"
proof -
  have "table_at m' t p = table_at m t p" if "length p \<le> n" "\<forall>i \<in> set p. i < 512" for p
    using table_at_outside [where m = m and m' = m', OF assms(1) that] by blast
  then show ?thesis using assms(2) unfolding sub_tree_def by simp
qed

text \<open>Forking the table below one interior entry, and hanging the copy into \<open>dst\<close>.\<close>

lemma fork_child:
  fixes i :: nat
  assumes g: "grows s t" and pm: "pmm_inv (pm s)" "bitmap_len (pm s) \<le> 2 ^ 40"
    and int: "interior e" "\<not> fork_leaf n e"
    and untouched: "\<And>u. u \<in> sub_tables (mem s) (n - 1) (e AND PTE_MASK) \<Longrightarrow> mem t u = mem s u"
    and tree: "sub_tree (mem s) (n - 1) (e AND PTE_MASK)"
    and used: "sub_tables (mem s) (n - 1) (e AND PTE_MASK) \<inter> free_pages (pm s) = {}"
    and large: "\<And>i. 2 \<le> n - 1 \<Longrightarrow> i < 512 \<Longrightarrow> \<not> absent (mem s (e AND PTE_MASK) i) \<Longrightarrow>
      mem s (e AND PTE_MASK) i AND PDE_PS = 0"
    and dst: "dst \<notin> sub_tables (mem s) (n - 1) (e AND PTE_MASK)" "dst \<notin> free_pages (pm t)"
    and f: "forks_below (n - 1) f" and a: "vmm_alloc t = (c, t1)" "c \<noteq> 0"
    and call: "f (e AND PTE_MASK) c (zero_page c t1) = Inr t3"
  defines "t' \<equiv> tbl_write dst i (c OR e AND 0xFFF) t3"
  shows "grows t t'"
    and "u \<notin> taken t t' \<union> sub_tables (mem s) (n - 1) (e AND PTE_MASK) \<union> {dst} \<Longrightarrow> mem t' u = mem t u"
    and "mem t' dst = (mem t dst)(i := c OR e AND 0xFFF)"
    and "fork_rel n s t' e e (c OR e AND 0xFFF)"
proof -
  let ?S = "sub_tables (mem s) (n - 1) (e AND PTE_MASK)"
  have pt: "pmm_inv (pm t)" "bitmap_len (pm t) \<le> 2 ^ 40" "free_pages (pm t) \<subseteq> free_pages (pm s)"
    using g pm by (auto simp: grows_def)
  note al = vmm_alloc_grows [OF pt(1,2) a]
  define t2 where "t2 = zero_page c t1"
  have pm2: "pm t2 = pm t1" by (simp add: t2_def zero_page_def)
  have g2: "grows t t2" "taken t t2 = {c}" using al(1,2) by (simp_all add: t2_def zero_page_def grows_def taken_def)
  have c: "c \<notin> ?S" "?S \<inter> free_pages (pm t2) = {}"
    using al(5) pt(3) used g2(1) by (auto simp: grows_def)
  have same: "mem t2 u = mem s u" if "u \<in> ?S" for u
    using that c untouched by (auto simp: t2_def zero_page_def al(4))
  have subs: "sub_tables (mem t2) (n - 1) (e AND PTE_MASK) = ?S"
    by (rule sub_outside(2) [where m = "mem s" and m' = "mem t2", OF same])
  have "sub_tree (mem t2) (n - 1) (e AND PTE_MASK)"
    using sub_tree_outside [where m = "mem s" and m' = "mem t2", OF same] tree by blast
  moreover have "mem t2 (e AND PTE_MASK) = mem s (e AND PTE_MASK)" using same by simp
  ultimately have "fork_pre (n - 1) (e AND PTE_MASK) c t2"
    unfolding fork_pre_def subs using g2(1) pt al(6) c large by (simp add: grows_def pm2)
  then have fk: "is_fork (n - 1) (e AND PTE_MASK) c t2 t3"
    using f call unfolding forks_below_def t2_def by blast
  have g3: "grows t2 t3" and only3: "\<And>u. u \<notin> taken t2 t3 \<union> {c} \<union> ?S \<Longrightarrow> mem t3 u = mem t2 u"
    and sub3: "sub_tables (mem t3) (n - 1) c \<subseteq> insert c (taken t2 t3)"
    and tab3: "\<And>p. length p \<le> n - 1 \<Longrightarrow> \<forall>i \<in> set p. i < 512 \<Longrightarrow>
      table_at (mem t3) (e AND PTE_MASK) p = table_at (mem t2) (e AND PTE_MASK) p"
    using fk unfolding is_fork_def subs by blast+
  show gt: "grows t t'" using grows_trans [OF g2(1) g3] by (simp add: t'_def tbl_write_def grows_def)
  have tk: "taken t t' = insert c (taken t2 t3)"
    using taken_trans [OF g2(1) g3] g2(2) by (simp add: taken_def t'_def tbl_write_def)
  have dst_t: "dst \<notin> taken t t'" using dst(2) by (auto simp: taken_def)
  have m3: "mem t3 u = mem t u" if "u \<notin> taken t t' \<union> ?S" for u
    using that only3 [of u] by (simp add: tk t2_def zero_page_def al(4))
  have m': "mem t' u = (if u = dst then (mem t dst)(i := c OR e AND 0xFFF) else mem t3 u)" for u
    using m3 [of dst] dst_t dst(1) by (simp add: t'_def tbl_write_def)
  then show "mem t' dst = (mem t dst)(i := c OR e AND 0xFFF)" by simp
  show "mem t' u = mem t u" if "u \<notin> taken t t' \<union> ?S \<union> {dst}" using that m3 [of u] by (simp add: m')
  have child: "interior (c OR e AND 0xFFF)" "(c OR e AND 0xFFF) AND PTE_MASK = c"
    using interior_child [OF al(3) int(1)] by auto
  have dc: "mem t' u = mem t3 u" if "u \<in> sub_tables (mem t3) (n - 1) c" for u
    using that sub3 dst_t tk by (auto simp: m')
  have dS: "mem t' u = mem t3 u" if "u \<in> sub_tables (mem t3) (n - 1) (e AND PTE_MASK)" for u
    using that dst(1) sub_tables_cong [OF tab3] subs by (auto simp: m')
  show "fork_rel n s t' e e (c OR e AND 0xFFF)"
    unfolding fork_rel_interior [OF conjunct1 [OF int(1)] int(2)] child(2)
  proof (intro conjI allI impI)
    show "sub_tables (mem t') (n - 1) c \<subseteq> taken s t'"
      using sub3 sub_outside(2) [where m = "mem t3" and m' = "mem t'", OF dc] tk taken_trans [OF g gt] by blast
    fix p
    show "table_at (mem t') (e AND PTE_MASK) p = table_at (mem s) (e AND PTE_MASK) p"
      if "length p \<le> n - 1" "\<forall>i \<in> set p. i < 512"
      using tab3 [OF that] table_at_outside [where m = "mem t3" and m' = "mem t'", OF dS that]
        table_at_outside [where m = "mem s" and m' = "mem t2", OF same that] by simp
    assume p: "sub_path (n - 1) p"
    have w: "walk (mem t3) (e AND PTE_MASK) p = cow_walk (walk (mem t2) (e AND PTE_MASK) p)"
      "walk (mem t3) c p = cow_walk (walk (mem t2) (e AND PTE_MASK) p)"
      using fk p unfolding is_fork_def by blast+
    show "walk (mem t') (e AND PTE_MASK) p = cow_walk (walk (mem s) (e AND PTE_MASK) p)"
      "walk (mem t') c p = cow_walk (walk (mem s) (e AND PTE_MASK) p)"
      using w sub_outside(1) [where m = "mem t3" and m' = "mem t'", OF dS p]
        sub_outside(1) [where m = "mem t3" and m' = "mem t'", OF dc p]
        sub_outside(1) [where m = "mem s" and m' = "mem t2", OF same p] by simp_all
  qed (use child in simp_all)
qed

lemma fork_interior_step:
  assumes inv: "fork_inv n src dst s i t" and pre: "fork_pre n src dst s" and i: "i < 512" and n: "n \<le> 2"
    and int: "\<not> absent (mem s src i)" "\<not> fork_leaf n (mem s src i)" and f: "forks_below (n - 1) f"
    and step: "fork_entry n f src dst i t = Inr t'"
  shows "fork_inv n src dst s (Suc i) t'"
proof -
  let ?e = "mem s src i"
  have e: "mem t src i = ?e" and g: "grows s t" using inv by (simp_all add: fork_inv_def)
  have n0: "0 < n" and ie: "interior ?e" using int i pre by (auto simp: fork_pre_def)
  have fb: "fork_below n s ?e = sub_tables (mem s) (n - 1) (?e AND PTE_MASK)"
    using int unfolding fork_below_def by presburger
  note bf = fork_below_facts [OF pre i, unfolded fb]
  have src: "sub_tables (mem s) (n - 1) (?e AND PTE_MASK) \<inter> free_pages (pm s) = {}"
    "dst \<notin> sub_tables (mem s) (n - 1) (?e AND PTE_MASK)" "dst \<notin> free_pages (pm t)"
    "src \<noteq> dst" "src \<notin> free_pages (pm t)"
    using bf(1) pre g sub_tables_self [of src "mem s" n] unfolding fork_pre_def grows_def by blast+
  have tree: "sub_tree (mem s) (n - 1) (?e AND PTE_MASK)"
    using sub_tree_child(1) [where m = "mem s" and t = src and n = "n - 1", OF _ i ie] pre n0 by (simp add: fork_pre_def)
  have untouched: "mem t u = mem s u" if "u \<in> sub_tables (mem s) (n - 1) (?e AND PTE_MASK)" for u
    using fork_untouched [OF inv order_refl i ie n0 that] .
  have pm: "pmm_inv (pm s)" "bitmap_len (pm s) \<le> 2 ^ 40" using pre by (simp_all add: fork_pre_def)
  obtain c t1 t3 where a: "vmm_alloc t = (c, t1)" "c \<noteq> 0"
    and call: "f (?e AND PTE_MASK) c (zero_page c t1) = Inr t3"
    and t': "t' = tbl_write dst i (c OR ?e AND 0xFFF) t3"
    using step int by (auto simp: fork_entry_def Let_def e rbind_eq_Inr split: prod.splits if_splits)
  have large: "2 \<le> n - 1 \<Longrightarrow> k < 512 \<Longrightarrow> \<not> absent (mem s (?e AND PTE_MASK) k) \<Longrightarrow>
      mem s (?e AND PTE_MASK) k AND PDE_PS = 0" for k
    using n by simp
  note ch = fork_child [OF g pm ie int(2) untouched tree src(1) large src(2,3) f a call, where i = i, folded t']
  have ms: "mem t' src = mem t src"
    using ch(2) [of src] src(4,5) bf(2) by (auto simp: taken_def)
  show ?thesis
  proof (rule fork_inv_advance [OF inv pre i ch(1)])
    show "fork_rel n s t' ?e (mem t' src i) (mem t' dst i)" using ch(3,4) ms e by simp
    show "mem t' u = mem t u" if "u \<notin> taken t t' \<union> fork_below n s ?e \<union> {src, dst}" for u
      using ch(2) [of u] that unfolding fb by simp
    show "mem t' src j = mem t src j \<and> mem t' dst j = mem t dst j" if "j \<noteq> i" for j
      using that fun_cong [OF ms, of j] fun_cong [OF ch(3), of j] by simp
  qed
qed

lemma cow_walk_simps [simp]: "cow_walk None = None" "cow_walk (Some (e, k)) = Some (cow_leaf e, k)"
  by (simp_all add: cow_walk_def)

lemma fork_inv_done:
  assumes inv: "fork_inv n src dst s 512 t" and pre: "fork_pre n src dst s"
  shows "is_fork n src dst s t"
proof -
  have rel: "fork_rel n s t (mem s src j) (mem t src j) (mem t dst j)" if "j < 512" for j
    using inv that by (simp add: fork_inv_def)
  have leaf: "(if absent (mem s src j) then mem t src j = mem s src j \<and> absent (mem t dst j)
      else mem t src j = cow_leaf (mem s src j) \<and> mem t dst j = cow_leaf (mem s src j))"
    if "absent (mem s src j) \<or> fork_leaf n (mem s src j)" "j < 512" for j
    using rel [OF that(2)] fork_rel_leaf [OF that(1)] by blast
  have int: "mem t src j = mem s src j \<and> interior (mem s src j) \<and> interior (mem t dst j) \<and>
      sub_tables (mem t) (n - 1) (mem t dst j AND PTE_MASK) \<subseteq> taken s t \<and>
      (\<forall>p. length p \<le> n - 1 \<longrightarrow> (\<forall>i \<in> set p. i < 512) \<longrightarrow>
         table_at (mem t) (mem s src j AND PTE_MASK) p = table_at (mem s) (mem s src j AND PTE_MASK) p) \<and>
      (\<forall>p. sub_path (n - 1) p \<longrightarrow>
         walk (mem t) (mem s src j AND PTE_MASK) p = cow_walk (walk (mem s) (mem s src j AND PTE_MASK) p) \<and>
         walk (mem t) (mem t dst j AND PTE_MASK) p = cow_walk (walk (mem s) (mem s src j AND PTE_MASK) p))"
    if "\<not> absent (mem s src j)" "\<not> fork_leaf n (mem s src j)" "j < 512" for j
  proof -
    have "interior (mem s src j)" using that pre by (cases "n = 1") (auto simp: fork_pre_def)
    then show ?thesis using rel [OF that(3)] fork_rel_interior [OF that(1,2)] by blast
  qed
  have "sub_tables (mem t) n dst \<subseteq> insert dst (taken s t)"
  proof (cases n)
    case (Suc k)
    have "u \<in> insert dst (taken s t)" if "u \<in> sub_tables (mem t) (Suc k) dst" for u
      using that
    proof (cases rule: sub_tables_cases)
      case (2 j)
      show ?thesis
      proof (cases "absent (mem s src j) \<or> fork_leaf n (mem s src j)")
        case True
        then show ?thesis using leaf [OF True 2(1)] 2(2) Suc cow_leaf_flags by (auto split: if_splits)
      next
        case False
        then show ?thesis using int [OF _ _ 2(1)] 2(3) Suc by auto
      qed
    qed simp
    then show ?thesis using Suc by blast
  qed (simp add: sub_tables_0)
  moreover have "table_at (mem t) src p = table_at (mem s) src p" if p: "length p \<le> n" "\<forall>i \<in> set p. i < 512" for p
  proof (cases p)
    case (Cons j q)
    then have j: "j < 512" "length q \<le> n - 1" "\<forall>i \<in> set q. i < 512" "0 < n" using p by auto
    show ?thesis
    proof (cases "absent (mem s src j) \<or> fork_leaf n (mem s src j)")
      case True
      then show ?thesis using leaf [OF True j(1)] cow_leaf_flags j(4) unfolding Cons
        by (auto simp: Let_def split: if_splits)
    next
      case False
      then show ?thesis using int [OF _ _ j(1)] j unfolding Cons by (auto simp: Let_def)
    qed
  qed simp
  moreover have "walk (mem t) src p = cow_walk (walk (mem s) src p) \<and>
      walk (mem t) dst p = cow_walk (walk (mem s) src p)" if p: "sub_path n p" for p
  proof -
    obtain j q where q: "p = j # q" "j < 512" "length q = n" "\<forall>i \<in> set q. i < 512"
      using p by (cases p) (auto simp: sub_path_def)
    have sq: "sub_path (n - 1) q" if "0 < n" using that q by (simp add: sub_path_def)
    show ?thesis
    proof (cases "absent (mem s src j) \<or> fork_leaf n (mem s src j)")
      case True
      then show ?thesis using leaf [OF True q(2)] cow_leaf_flags q(3) unfolding q(1) walk_step
        by (auto split: if_splits)
    next
      case False
      then have "0 < n" "q \<noteq> []" using q(3) by auto
      with False int [OF _ _ q(2)] sq show ?thesis unfolding q(1) walk_step by auto
    qed
  qed
  ultimately show ?thesis using inv unfolding is_fork_def fork_inv_def by blast
qed

lemma fork_loop_correct:
  assumes pre: "fork_pre n src dst s" and n: "n \<le> 2" and f: "0 < n \<Longrightarrow> forks_below (n - 1) f"
    and loop: "for_res (fork_entry n f src dst) [0..<512] s = Inr s'"
  shows "is_fork n src dst s s'"
proof -
  have "fork_inv n src dst s 0 s" using pre by (simp add: fork_inv_def fork_pre_def grows_def)
  moreover have "fork_inv n src dst s (Suc i) t'"
    if "i < 512" "fork_inv n src dst s i t" "fork_entry n f src dst i t = Inr t'" for i t t'
  proof (cases "absent (mem s src i) \<or> fork_leaf n (mem s src i)")
    case True
    then show ?thesis using fork_leaf_step [OF that(2) pre that(1) True that(3)] by blast
  next
    case False
    then show ?thesis using fork_interior_step [OF that(2) pre that(1) n _ _ f that(3)] by auto
  qed
  ultimately have "fork_inv n src dst s 512 s'"
    by (intro for_res_upt_invariant [OF loop, where P = "fork_inv n src dst s"]) auto
  then show ?thesis using fork_inv_done pre by blast
qed

lemma fork_table_correct: "n \<le> 2 \<Longrightarrow> forks_below n (fork_table n)"
proof (induction n)
  case 0
  then show ?case using fork_loop_correct [of 0] by (auto simp: forks_below_def)
next
  case (Suc n)
  then show ?case using fork_loop_correct [of "Suc n"] by (auto simp: forks_below_def)
qed

subsection \<open>The whole space\<close>

lemma copy_entries_frame [simp]:
  "pm (copy_entries is dst s) = pm s" "pml4 (copy_entries is dst s) = pml4 s" "cr3 (copy_entries is dst s) = cr3 s"
  unfolding copy_entries_def by (induction "is" arbitrary: s) (simp_all add: tbl_write_def)

lemma copy_entries_frame2:
  "kernel_cr3 (copy_entries is dst s) = kernel_cr3 s" "scratch_used (copy_entries is dst s) = scratch_used s"
  "tlb_ops (copy_entries is dst s) = tlb_ops s"
  unfolding copy_entries_def by (induction "is" arbitrary: s) (simp_all add: tbl_write_def)

lemma copy_entries_mem:
  "dst \<noteq> pml4 s \<Longrightarrow> mem (copy_entries is dst s) =
   (mem s)(dst := \<lambda>i. if i \<in> set is then mem s (pml4 s) i else mem s dst i)"
  unfolding copy_entries_def
  by (induction "is" arbitrary: s) (auto simp: tbl_write_def fun_eq_iff)

lemma copy_entries_upt:
  "dst \<noteq> pml4 s \<Longrightarrow> mem (copy_entries [a..<b] dst s) =
   (mem s)(dst := \<lambda>i. if a \<le> i \<and> i < b then mem s (pml4 s) i else mem s dst i)"
  by (simp add: copy_entries_mem)

text \<open>With no page left, none can come back: a failed allocation stays visible.\<close>

definition out_of_pages :: "vmm \<Rightarrow> bool" where
  "out_of_pages t \<longleftrightarrow> pmm_inv (pm t) \<and> free_pages (pm t) = {}"

lemma out_of_pages_alloc: "out_of_pages t \<Longrightarrow> vmm_alloc t = (0, t)"
  using pmm_pages.alloc_none [of "pm t"] pmm_pages.alloc_page [of "pm t"]
  by (cases "pmm_alloc (pm t)"; cases "fst (pmm_alloc (pm t)) = 0") (auto simp: out_of_pages_def vmm_alloc_def)

lemma out_of_pages_ref: "out_of_pages t \<Longrightarrow> out_of_pages (t\<lparr>pm := pmm_ref p (pm t)\<rparr>)"
  using pmm_ref_keeps [of "pm t" p] by (auto simp: out_of_pages_def free_pages_def)

lemma out_of_pages_mem [simp]:
  "out_of_pages (tbl_write d i v t) = out_of_pages t" "out_of_pages (zero_page d t) = out_of_pages t"
  by (simp_all add: out_of_pages_def tbl_write_def zero_page_def)

lemma out_of_pages_fork_entry:
  "out_of_pages t \<Longrightarrow> fork_entry n f src dst i t = Inr t' \<Longrightarrow> out_of_pages t'"
  using out_of_pages_ref [of "tbl_write dst i _ (tbl_write src i _ t)"]
  by (auto simp: fork_entry_def Let_def out_of_pages_alloc split: if_splits)

lemma out_of_pages_fork_table: "out_of_pages t \<Longrightarrow> fork_table n src dst t = Inr t' \<Longrightarrow> out_of_pages t'"
  by (cases n) (auto intro: for_res_invariant [where P = out_of_pages] out_of_pages_fork_entry)

lemma out_of_pages_fork_pml4:
  "out_of_pages t \<Longrightarrow> fork_pml4_entry dst i t = Inr t' \<Longrightarrow> out_of_pages t'"
  by (auto simp: fork_pml4_entry_def out_of_pages_alloc rbind_eq_Inr split: if_splits
      dest!: out_of_pages_fork_table [rotated])

definition top_inv :: "paddr \<Rightarrow> vmm \<Rightarrow> nat \<Rightarrow> vmm \<Rightarrow> bool" where
  "top_inv dst s i t \<longleftrightarrow> fork_inv 3 (pml4 s) dst s i t \<and> (\<forall>j. i \<le> j \<longrightarrow> mem t dst j = mem s dst j)"

lemma fork_pml4_step:
  assumes pre: "fork_pre 3 (pml4 s) dst s" and empty: "\<And>j. j < 256 \<Longrightarrow> mem s dst j = 0"
    and large: "\<And>j k. j < 256 \<Longrightarrow> \<not> absent (mem s (pml4 s) j) \<Longrightarrow> k < 512 \<Longrightarrow>
      \<not> absent (mem s (mem s (pml4 s) j AND PTE_MASK) k) \<Longrightarrow> mem s (mem s (pml4 s) j AND PTE_MASK) k AND PDE_PS = 0"
    and inv: "top_inv dst s i t" and i: "i < 256" and step: "fork_pml4_entry dst i t = Inr t'"
  shows "top_inv dst s (Suc i) t' \<or> out_of_pages t'"
proof -
  let ?e = "mem s (pml4 s) i"
  have fi: "fork_inv 3 (pml4 s) dst s i t" and i512: "i < 512" using inv i by (simp_all add: top_inv_def)
  have e: "mem t (pml4 s) i = ?e" and g: "grows s t" using fi by (simp_all add: fork_inv_def)
  have root: "pml4 t = pml4 s" using g by (simp add: grows_def)
  have di: "mem t dst i = 0" using inv empty [OF i] by (simp add: top_inv_def)
  show ?thesis
  proof (cases "absent ?e")
    case True
    then have t': "t' = t" using step e root by (simp add: fork_pml4_entry_def)
    have "grows t t" using g by (simp add: grows_def)
    then have "fork_inv 3 (pml4 s) dst s (Suc i) t"
      by (rule fork_inv_advance [OF fi pre i512]) (use True e di in \<open>simp_all add: fork_rel_leaf\<close>)
    then show ?thesis using inv t' by (simp add: top_inv_def)
  next
    case False
    then have ie: "interior ?e" using pre i by (simp add: fork_pre_def)
    obtain c t1 t3 where a: "vmm_alloc t = (c, t1)"
      and call: "fork_table 2 (mem t1 (pml4 t1) i AND PTE_MASK) c (zero_page c t1) = Inr t3"
      and t': "t' = tbl_write dst i (c OR mem t3 (pml4 t3) i AND 0xFFF) t3"
      using step e root False by (auto simp: fork_pml4_entry_def rbind_eq_Inr split: prod.splits)
    show ?thesis
    proof (cases "c = 0")
      case True
      have "pmm_inv (pm t)" using g by (simp add: grows_def)
      then have "out_of_pages t"
        using pmm_pages.alloc_none [of "pm t"] a True by (auto simp: out_of_pages_def vmm_alloc_def split: prod.splits)
      then show ?thesis using out_of_pages_fork_pml4 step by blast
    next
      case c: False
      have pm: "pmm_inv (pm s)" "bitmap_len (pm s) \<le> 2 ^ 40" "pmm_inv (pm t)" "bitmap_len (pm t) \<le> 2 ^ 40"
        using pre g by (simp_all add: fork_pre_def grows_def)
      note al = vmm_alloc_grows [OF pm(3,4) a c]
      have call': "fork_table 2 (?e AND PTE_MASK) c (zero_page c t1) = Inr t3"
        using call al(1,4) root e by (simp add: grows_def)
      have fb: "fork_below 3 s ?e = sub_tables (mem s) (3 - 1) (?e AND PTE_MASK)"
        using False by (simp add: fork_below_def)
      note bf = fork_below_facts [OF pre i512, unfolded fb]
      have src: "sub_tables (mem s) (3 - 1) (?e AND PTE_MASK) \<inter> free_pages (pm s) = {}"
        "dst \<notin> sub_tables (mem s) (3 - 1) (?e AND PTE_MASK)" "dst \<notin> free_pages (pm t)"
        "pml4 s \<noteq> dst" "pml4 s \<notin> free_pages (pm t)"
        using bf(1) pre g sub_tables_self [of "pml4 s" "mem s" 3] unfolding fork_pre_def grows_def by blast+
      have tree: "sub_tree (mem s) (3 - 1) (?e AND PTE_MASK)"
        using sub_tree_child(1) [where m = "mem s" and t = "pml4 s" and n = 2, OF _ i512 ie] pre
        by (simp add: fork_pre_def numeral_3_eq_3 numeral_2_eq_2)
      have untouched: "mem t u = mem s u" if "u \<in> sub_tables (mem s) (3 - 1) (?e AND PTE_MASK)" for u
        using fork_untouched [OF fi order_refl i512 ie _ that] by simp
      have f: "forks_below (3 - 1) (fork_table 2)" using fork_table_correct [of 2] by simp
      define t'' where "t'' = tbl_write dst i (c OR ?e AND 0xFFF) t3"
      note ch = fork_child [OF g pm(1,2) ie _ untouched tree src(1) large [OF i False] src(2,3) f a c call',
          where i = i, folded t''_def]
      have ms: "mem t'' (pml4 s) = mem t (pml4 s)"
        using ch(2) [of "pml4 s"] src(4,5) bf(2) by (auto simp: taken_def)
      then have "mem t3 (pml4 s) i = ?e" using e src(4) by (simp add: t''_def tbl_write_def)
      moreover have "pml4 t3 = pml4 s" using ch(1) root by (simp add: t''_def tbl_write_def grows_def)
      ultimately have eq: "t' = t''" by (simp add: t' t''_def)
      have "fork_inv 3 (pml4 s) dst s (Suc i) t''"
      proof (rule fork_inv_advance [OF fi pre i512 ch(1)])
        show "fork_rel 3 s t'' ?e (mem t'' (pml4 s) i) (mem t'' dst i)" using ch(3,4) ms e by simp
        show "mem t'' u = mem t u" if "u \<notin> taken t t'' \<union> fork_below 3 s ?e \<union> {pml4 s, dst}" for u
          using ch(2) [of u] that unfolding fb by simp
        show "mem t'' (pml4 s) j = mem t (pml4 s) j \<and> mem t'' dst j = mem t dst j" if "j \<noteq> i" for j
          using that fun_cong [OF ms, of j] fun_cong [OF ch(3), of j] by simp
      qed simp_all
      moreover have "mem t'' dst j = mem s dst j" if "Suc i \<le> j" for j
        using that inv fun_cong [OF ch(3), of j] by (simp add: top_inv_def)
      ultimately show ?thesis using eq by (simp add: top_inv_def)
    qed
  qed
qed

text \<open>No 1 GiB pages in the user half: \<^verbatim>\<open>fork_table\<close> would take one for a table.\<close>

definition user_half_small :: "vmm \<Rightarrow> bool" where
  "user_half_small s \<longleftrightarrow> (\<forall>j < 256. \<forall>k < 512. \<not> absent (mem s (pml4 s) j) \<longrightarrow>
     \<not> absent (mem s (mem s (pml4 s) j AND PTE_MASK) k) \<longrightarrow> mem s (mem s (pml4 s) j AND PTE_MASK) k AND PDE_PS = 0)"

lemma space_sub_tree: "space_tree m r \<Longrightarrow> sub_tree m 3 r"
  by (auto simp: space_tree_def sub_tree_def path_ok_def)

lemma space_tables_child:
  "space_tree m r \<Longrightarrow> j < 512 \<Longrightarrow> \<not> absent (m r j) \<Longrightarrow> m r j AND PTE_MASK \<in> space_tables m r"
  by (auto simp: space_tables_def space_tree_def path_ok_def Let_def intro!: exI [of _ "[j]"])

lemma vmm_fork_start:
  assumes wf: "vmm_wf s" and small: "user_half_small s" and a: "vmm_alloc s = (dst, sa)" "dst \<noteq> 0"
  defines "s1 \<equiv> copy_entries [256..<512] dst (zero_page dst sa)"
  shows "grows s s1" "taken s s1 = {dst}" "\<And>u. u \<noteq> dst \<Longrightarrow> mem s1 u = mem s u"
    "mem s1 dst = (\<lambda>i. if 256 \<le> i \<and> i < 512 then mem s (pml4 s) i else 0)"
    "fork_pre 3 (pml4 s) dst s1" "user_half_small s1" "dst \<notin> space_tables (mem s) (pml4 s)"
    "space_tables (mem s1) (pml4 s) = space_tables (mem s) (pml4 s)"
proof -
  have pm: "pmm_inv (pm s)" "bitmap_len (pm s) \<le> 2 ^ 40" and tree: "space_tree (mem s) (pml4 s)"
    and used: "space_tables (mem s) (pml4 s) \<inter> free_pages (pm s) = {}"
    using wf by (simp_all add: vmm_wf_def)
  note al = vmm_alloc_grows [OF pm a]
  have root: "pml4 sa = pml4 s" using al(1) by (simp add: grows_def)
  have d: "dst \<notin> space_tables (mem s) (pml4 s)" using al(5) used by blast
  then show "dst \<notin> space_tables (mem s) (pml4 s)" .
  have nd: "dst \<noteq> pml4 s" using d root_in_tables by metis
  then have "dst \<noteq> pml4 (zero_page dst sa)" by (simp add: zero_page_def root)
  then have m1: "mem s1 = (mem s)(dst := \<lambda>i. if 256 \<le> i \<and> i < 512 then mem s (pml4 s) i else 0)"
    unfolding s1_def using nd by (subst copy_entries_upt) (auto simp: zero_page_def root al(4) fun_eq_iff)
  then show "mem s1 dst = (\<lambda>i. if 256 \<le> i \<and> i < 512 then mem s (pml4 s) i else 0)"
    and only: "\<And>u. u \<noteq> dst \<Longrightarrow> mem s1 u = mem s u" by simp_all
  have f: "pm s1 = pm sa" "pml4 s1 = pml4 s" "cr3 s1 = cr3 sa" by (simp_all add: s1_def zero_page_def root)
  show g: "grows s s1" using al(1) f by (simp add: grows_def)
  show "taken s s1 = {dst}" using al(2) f by (simp add: taken_def)
  have out: "mem s1 t = mem s t" if "t \<in> space_tables (mem s) (pml4 s)" for t
    using that d only [of t] by (cases "t = dst") auto
  show tabs: "space_tables (mem s1) (pml4 s) = space_tables (mem s) (pml4 s)"
    by (rule space_tables_outside [where m = "mem s" and m' = "mem s1", OF out])
  have tree1: "space_tree (mem s1) (pml4 s)"
    by (rule space_tree_outside [where m = "mem s" and m' = "mem s1", OF out tree])
  have "free_pages (pm s1) \<subseteq> free_pages (pm s)" using g by (simp add: grows_def)
  then show "fork_pre 3 (pml4 s) dst s1"
    using g pm used d tabs space_sub_tree [OF tree1] tree1 al(6) f(1)
    unfolding fork_pre_def sub_tables_space by (auto simp: grows_def space_tree_def)
  have "mem s1 (pml4 s) = mem s (pml4 s)" using only [of "pml4 s"] nd by simp
  moreover have "mem s1 (mem s (pml4 s) j AND PTE_MASK) = mem s (mem s (pml4 s) j AND PTE_MASK)"
    if "j < 256" "\<not> absent (mem s (pml4 s) j)" for j
    using out space_tables_child [OF tree, of j] that by simp
  ultimately show "user_half_small s1" using small unfolding user_half_small_def f(2) by metis
qed

lemma top_inv_walks:
  assumes pre: "fork_pre 3 (pml4 s) dst s" and inv: "top_inv dst s 256 t"
    and user: "\<And>j. 256 \<le> j \<Longrightarrow> j < 512 \<Longrightarrow> mem s dst j = mem s (pml4 s) j" and p: "leaf_path p"
  shows "walk (mem t) dst p = walk (mem t) (pml4 s) p"
    and "walk (mem t) (pml4 s) p =
      (if hd p < 256 then cow_walk (walk (mem s) (pml4 s) p) else walk (mem s) (pml4 s) p)"
proof -
  obtain j q where q: "p = j # q" "j < 512" "length q = 3" "\<forall>i \<in> set q. i < 512"
    using p by (cases p) (auto simp: leaf_path_def)
  let ?e = "mem s (pml4 s) j"
  have sq: "sub_path 2 q" and qn: "q \<noteq> []" using q by (auto simp: sub_path_def)
  have ps: "\<not> absent ?e \<Longrightarrow> ?e AND PDE_PS = 0" using pre q(2) by (simp add: fork_pre_def)
  have fi: "fork_inv 3 (pml4 s) dst s 256 t" using inv by (simp add: top_inv_def)
  have "walk (mem t) dst p = walk (mem t) (pml4 s) p \<and> walk (mem t) (pml4 s) p =
      (if j < 256 then cow_walk (walk (mem s) (pml4 s) p) else walk (mem s) (pml4 s) p)"
  proof (cases "j < 256")
    case True
    then have rel: "fork_rel 3 s t ?e (mem t (pml4 s) j) (mem t dst j)" using fi by (simp add: fork_inv_def)
    show ?thesis
    proof (cases "absent ?e")
      case abs: True
      then show ?thesis using rel True unfolding q(1) walk_step by (simp add: fork_rel_leaf)
    next
      case pres: False
      then show ?thesis using rel True sq qn ps unfolding q(1) walk_step
        by (subst (asm) fork_rel_interior) auto
    qed
  next
    case False
    have e: "mem t dst j = ?e" "mem t (pml4 s) j = ?e"
      using False fi inv user [of j] q(2) by (simp_all add: fork_inv_def top_inv_def)
    have "walk (mem t) (?e AND PTE_MASK) q = walk (mem s) (?e AND PTE_MASK) q" if "\<not> absent ?e"
    proof (rule sub_outside(1) [where n = 2, OF _ sq])
      fix u assume "u \<in> sub_tables (mem s) 2 (?e AND PTE_MASK)"
      then show "mem t u = mem s u" using fork_untouched [OF fi, of j u] False q(2) ps that by simp
    qed
    then show ?thesis using e False ps qn unfolding q(1) walk_step by auto
  qed
  then show "walk (mem t) dst p = walk (mem t) (pml4 s) p"
    "walk (mem t) (pml4 s) p =
      (if hd p < 256 then cow_walk (walk (mem s) (pml4 s) p) else walk (mem s) (pml4 s) p)"
    using q(1) by simp_all
qed

lemma vmm_fork_result:
  assumes wf: "vmm_wf s" and small: "user_half_small s" and fork: "vmm_fork_user_space s = Inr (c, s')"
    and room: "free_pages (pm s') \<noteq> {}"
  shows "walk (mem s') c (va_path va) = walk (mem s') (pml4 s') (va_path va)"
    and "walk (mem s') (pml4 s') (va_path va) =
      (if PML4_IDX va < 256 then cow_walk (walk (mem s) (pml4 s) (va_path va)) else walk (mem s) (pml4 s) (va_path va))"
    and "u \<notin> space_tables (mem s) (pml4 s) \<union> free_pages (pm s) \<Longrightarrow> mem s' u = mem s u"
    and "grows s s'" and "c \<in> free_pages (pm s)"
proof -
  obtain sa where a: "vmm_alloc s = (c, sa)" "c \<noteq> 0"
    and loop: "for_res (fork_pml4_entry c) [0..<256] (copy_entries [256..<512] c (zero_page c sa)) = Inr s'"
    using fork by (auto simp: vmm_fork_user_space_def Let_def rbind_eq_Inr simp del: upt_rec_numeral
        split: prod.splits if_splits)
  define s1 where "s1 = copy_entries [256..<512] c (zero_page c sa)"
  note st = vmm_fork_start [OF wf small a, folded s1_def]
  have r1: "pml4 s1 = pml4 s" using st(1) by (simp add: grows_def)
  have pre: "fork_pre 3 (pml4 s1) c s1" using st(5) r1 by simp
  have dst: "mem s1 c j = (if 256 \<le> j \<and> j < 512 then mem s (pml4 s) j else 0)" for j using st(4) by simp
  have root: "mem s1 (pml4 s1) = mem s (pml4 s)" using st(3) [of "pml4 s"] st(7) root_in_tables r1 by metis
  have i0: "top_inv c s1 0 s1" using pre by (simp add: top_inv_def fork_inv_def fork_pre_def grows_def)
  have large: "\<not> absent (mem s1 (mem s1 (pml4 s1) j AND PTE_MASK) k) \<Longrightarrow> mem s1 (mem s1 (pml4 s1) j AND PTE_MASK) k AND PDE_PS = 0"
    if "j < 256" "\<not> absent (mem s1 (pml4 s1) j)" "k < 512" for j k
    using st(6) that by (simp add: user_half_small_def)
  have "top_inv c s1 256 s' \<or> out_of_pages s'"
  proof (rule for_res_upt_invariant [OF loop [folded s1_def], where P = "\<lambda>i t. top_inv c s1 i t \<or> out_of_pages t"])
    fix i t t' assume "0 \<le> i" "i < 256" "top_inv c s1 i t \<or> out_of_pages t" "fork_pml4_entry c i t = Inr t'"
    then show "top_inv c s1 (Suc i) t' \<or> out_of_pages t'"
      using fork_pml4_step [OF pre _ large, of i t t'] out_of_pages_fork_pml4 [of t c i t'] dst by auto
  qed (use i0 in simp_all)
  then have top: "top_inv c s1 256 s'" using room by (auto simp: out_of_pages_def)
  then have g: "grows s1 s'" by (simp add: top_inv_def fork_inv_def)
  then have r': "pml4 s' = pml4 s1" by (simp add: grows_def)
  show gs: "grows s s'" using grows_trans [OF st(1) g] .
  note w = top_inv_walks [OF pre top _ leaf_path_va [of va]]
  have s1s: "walk (mem s1) (pml4 s1) (va_path va) = walk (mem s) (pml4 s) (va_path va)"
    unfolding r1 using st(3,7) by (intro space_outside(1) [OF _ leaf_path_va]) metis
  show "walk (mem s') c (va_path va) = walk (mem s') (pml4 s') (va_path va)"
    "walk (mem s') (pml4 s') (va_path va) =
      (if PML4_IDX va < 256 then cow_walk (walk (mem s) (pml4 s) (va_path va)) else walk (mem s) (pml4 s) (va_path va))"
    using w s1s dst root unfolding r' by (auto simp: va_path_def)
  show "c \<in> free_pages (pm s)" using st(2) by (auto simp: taken_def)
  show "mem s' u = mem s u" if "u \<notin> space_tables (mem s) (pml4 s) \<union> free_pages (pm s)"
  proof -
    have "u \<noteq> c" "u \<notin> taken s1 s'" using that st(1,2) by (auto simp: taken_def grows_def)
    then show ?thesis
      using top st(3,8) that r1 by (simp add: top_inv_def fork_inv_def sub_tables_space)
  qed
qed

section \<open>A fork, step by step\<close>

text \<open>Forking the example space: the loops skip absent entries, so only one entry per table matters.\<close>

lemma tbl_write_same: "mem s t i = v \<Longrightarrow> tbl_write t i v s = s"
  by (simp add: tbl_write_def fun_upd_idem)

lemma for_res_single:
  assumes k: "k < n" and before: "\<And>i. i < k \<Longrightarrow> f i s = Inr s" and at: "f k s = Inr s'"
    and after: "\<And>i. k < i \<Longrightarrow> i < n \<Longrightarrow> f i s' = Inr s'"
  shows "for_res f [0..<n] s = Inr s'"
proof -
  have id: "for_res f is t = Inr t" if "\<And>i. i \<in> set is \<Longrightarrow> f i t = Inr t" for "is" t
    using that by (induction "is") auto
  have app: "for_res f (xs @ ys) t = rbind (for_res f xs t) (for_res f ys)" for xs ys t
    by (induction xs arbitrary: t) (auto simp: rbind_def split: sum.splits)
  have "[0..<n] = [0..<k] @ k # [Suc k..<n]"
    using k upt_add_eq_append [of 0 k "n - k"] by (simp add: upt_conv_Cons)
  then show ?thesis
    using app [of "[0..<k]" "k # [Suc k..<n]" s] id [of "[0..<k]" s] id [of "[Suc k..<n]" s'] before at after by simp
qed

lemma fork_loop_single:
  assumes k: "k < 512" and dst: "mem s dst = (\<lambda>_. 0)" and src: "\<And>i. i \<noteq> k \<Longrightarrow> absent (mem s src i)"
    and at: "fork_entry n f src dst k s = Inr s'"
    and src': "\<And>i. i \<noteq> k \<Longrightarrow> absent (mem s' src i)" and dst': "\<And>i. i \<noteq> k \<Longrightarrow> mem s' dst i = 0"
  shows "for_res (fork_entry n f src dst) [0..<512] s = Inr s'"
  by (rule for_res_single [where f = "fork_entry n f src dst" and k = k, OF k _ at])
    (use src src' dst dst' in \<open>auto simp: fork_entry_def Let_def tbl_write_same\<close>)

definition pm_after :: "nat \<Rightarrow> pmm" where
  "pm_after n = ((\<lambda>p. snd (pmm_alloc p)) ^^ n) (pm vmm_example)"

lemma alloc_example:
  "pmm_alloc (pm vmm_example) = (0x1000, pm_after 1)" "pmm_alloc (pm_after 1) = (0x2000, pm_after 2)"
  "pmm_alloc (pm_after 2) = (0x3000, pm_after 3)" "pmm_alloc (pm_after 3) = (0x4000, pm_after 4)"
proof -
  have "fst (pmm_alloc (pm vmm_example)) = 0x1000" "fst (pmm_alloc (pm_after 1)) = 0x2000"
    "fst (pmm_alloc (pm_after 2)) = 0x3000" "fst (pmm_alloc (pm_after 3)) = 0x4000"
    by code_simp+
  moreover have "snd (pmm_alloc (pm vmm_example)) = pm_after 1" "snd (pmm_alloc (pm_after 1)) = pm_after 2"
    "snd (pmm_alloc (pm_after 2)) = pm_after 3" "snd (pmm_alloc (pm_after 3)) = pm_after 4"
    by (simp_all add: pm_after_def eval_nat_numeral)
  ultimately show "pmm_alloc (pm vmm_example) = (0x1000, pm_after 1)" "pmm_alloc (pm_after 1) = (0x2000, pm_after 2)"
    "pmm_alloc (pm_after 2) = (0x3000, pm_after 3)" "pmm_alloc (pm_after 3) = (0x4000, pm_after 4)"
    by (simp_all add: prod_eq_iff)
qed

lemma vmm_fork_example:
  "\<exists>s'. vmm_fork_user_space vmm_example = Inr (0x1000, s') \<and> free_pages (pm s') \<noteq> {}"
proof -
  let ?m = "mem vmm_example" and ?z = "\<lambda>_ :: nat. 0 :: u64"
  let ?cow = "cow_entry 0xC007"
  let ?r = "pmm_ref 0xC000 (pm_after 4)"
  have cow: "?cow = 0xC205" by (simp add: cow_entry_def uix_const)
  let ?A = "vmm_example\<lparr>pm := pm_after 4, mem := ?m(0x1000 := ?z, 0x2000 := ?z, 0x3000 := ?z, 0x4000 := ?z)\<rparr>"
  let ?B = "?A\<lparr>pm := ?r, mem := (mem ?A)(0xB000 := ?z(0 := ?cow), 0x4000 := ?z(0 := ?cow))\<rparr>"
  have t0: "fork_table 0 0xB000 0x4000 ?A = Inr ?B"
    unfolding fork_table.simps
    by (rule fork_loop_single [where k = 0])
      (auto simp: fork_entry_def Let_def vmm_example_def uix_const tbl_write_def cow_entry_def fun_upd_twist)
  let ?A1 = "vmm_example\<lparr>pm := pm_after 3, mem := ?m(0x1000 := ?z, 0x2000 := ?z, 0x3000 := ?z)\<rparr>"
  let ?B1 = "tbl_write 0x3000 2 0x4007 ?B"
  have "vmm_alloc ?A1 = (0x4000, ?A1\<lparr>pm := pm_after 4\<rparr>)" by (simp add: vmm_alloc_def alloc_example)
  moreover have "zero_page 0x4000 (?A1\<lparr>pm := pm_after 4\<rparr>) = ?A" by (simp add: zero_page_def)
  moreover have "mem ?A1 0xA000 2 = 0xB007" by (simp add: vmm_example_def)
  ultimately have "fork_entry 1 (fork_table 0) 0xA000 0x3000 2 ?A1 = Inr ?B1"
    using t0 by (simp add: fork_entry_def Let_def uix_const del: fork_table.simps)
  then have t1: "fork_table 1 0xA000 0x3000 ?A1 = Inr ?B1"
    unfolding One_nat_def fork_table.simps
    by (rule fork_loop_single [where k = 2, rotated 3]) (simp_all add: vmm_example_def uix_const tbl_write_def)
  let ?A2 = "vmm_example\<lparr>pm := pm_after 2, mem := ?m(0x1000 := ?z, 0x2000 := ?z)\<rparr>"
  let ?B2 = "tbl_write 0x2000 0 0x3007 ?B1"
  have "vmm_alloc ?A2 = (0x3000, ?A2\<lparr>pm := pm_after 3\<rparr>)" by (simp add: vmm_alloc_def alloc_example)
  moreover have "zero_page 0x3000 (?A2\<lparr>pm := pm_after 3\<rparr>) = ?A1" by (simp add: zero_page_def)
  moreover have "mem ?A2 0x9000 0 = 0xA007" by (simp add: vmm_example_def)
  ultimately have "fork_entry 2 (fork_table 1) 0x9000 0x2000 0 ?A2 = Inr ?B2"
    using t1 by (simp add: fork_entry_def Let_def uix_const del: fork_table.simps)
  then have t2: "fork_table 2 0x9000 0x2000 ?A2 = Inr ?B2"
    unfolding numeral_2_eq_2 fork_table.simps One_nat_def
    by (rule fork_loop_single [where k = 0, rotated 3]) (simp_all add: vmm_example_def uix_const tbl_write_def)
  let ?A3 = "vmm_example\<lparr>pm := pm_after 1, mem := ?m(0x1000 := ?z)\<rparr>"
  let ?B3 = "tbl_write 0x1000 0 0x2007 ?B2"
  have "vmm_alloc ?A3 = (0x2000, ?A3\<lparr>pm := pm_after 2\<rparr>)" by (simp add: vmm_alloc_def alloc_example [unfolded One_nat_def])
  moreover have "zero_page 0x2000 (?A3\<lparr>pm := pm_after 2\<rparr>) = ?A2" by (simp add: zero_page_def)
  moreover have "mem ?A3 0x8000 0 = 0x9007" "pml4 ?A3 = 0x8000" by (simp_all add: vmm_example_def)
  moreover have "mem ?B2 0x8000 0 = 0x9007" "pml4 ?B2 = 0x8000" by (simp_all add: vmm_example_def tbl_write_def)
  ultimately have "fork_pml4_entry 0x1000 0 ?A3 = Inr ?B3"
    using t2 by (simp add: fork_pml4_entry_def uix_const del: fork_table.simps)
  then have loop: "for_res (fork_pml4_entry 0x1000) [0..<256] ?A3 = Inr ?B3"
    by (rule for_res_single [where k = 0, rotated 2])
      (simp_all add: fork_pml4_entry_def vmm_example_def uix_const tbl_write_def)
  have alloc: "vmm_alloc vmm_example = (0x1000, vmm_example\<lparr>pm := pm_after 1\<rparr>)"
    by (simp add: vmm_alloc_def alloc_example)
  have "0x1000 \<noteq> pml4 (zero_page 0x1000 (vmm_example\<lparr>pm := pm_after 1\<rparr>))"
    by (simp add: zero_page_def vmm_example_def)
  note m = copy_entries_upt [OF this, of 256 512]
  have c: "copy_entries [256..<512] 0x1000 (zero_page 0x1000 (vmm_example\<lparr>pm := pm_after 1\<rparr>)) = ?A3"
  proof (rule vmm.equality)
    show "mem (copy_entries [256..<512] 0x1000 (zero_page 0x1000 (vmm_example\<lparr>pm := pm_after 1\<rparr>))) = mem ?A3"
      unfolding m by (auto simp: zero_page_def vmm_example_def fun_eq_iff)
  qed (simp_all add: zero_page_def copy_entries_frame2 del: upt_rec_numeral)
  have f: "vmm_fork_user_space vmm_example = Inr (0x1000, ?B3)"
    unfolding vmm_fork_user_space_def alloc prod.case c loop Let_def by simp
  have "13 < bitmap_len ?r" "is_free 13 ?r" by code_simp+
  then have "free_pages ?r \<noteq> {}" by (auto simp: free_pages_def free_set_def)
  then show ?thesis using f by (auto simp: tbl_write_def)
qed

section \<open>The properties\<close>




text \<open>
  The copy-on-write entry is right for low memory only. \<^verbatim>\<open>~VMM_WRITE\<close> is a 32-bit
  constant, so the entry fork stores keeps the page's address exactly when the page lies below
  4 GiB, and never keeps the no-execute bit.
\<close>

theorem cow_entry_low_memory_only:
  "(cow_entry e AND PTE_MASK = e AND PTE_MASK \<longleftrightarrow> e AND PTE_MASK < 2 ^ 32) \<and> cow_entry e AND VMM_NOEXEC = 0"
proof -
  have m: "(ucast (NOT (2 :: u32)) :: u64) = mask 32 AND NOT 2" by (simp add: mask_eq_exp_minus_1)
  have two: "bit (2 :: u64) k \<longleftrightarrow> k = 1" for k using bit_flag [of 1 k] by simp
  have bits: "bit (cow_entry e) k \<longleftrightarrow> k = 9 \<or> bit e k \<and> k < 32 \<and> k \<noteq> 1" for k
    unfolding cow_entry_def m COW_MARK_def bit_or_iff bit_and_iff bit_mask_iff bit_not_iff bit_flag two
    using bit_imp_le_length [of e k] by auto
  have "cow_entry e AND PTE_MASK = e AND PTE_MASK \<longleftrightarrow> (\<forall>k. 32 \<le> k \<longrightarrow> k < 52 \<longrightarrow> \<not> bit e k)"
  proof
    assume "cow_entry e AND PTE_MASK = e AND PTE_MASK"
    then have eq: "bit (cow_entry e AND PTE_MASK) k = bit (e AND PTE_MASK) k" for k by simp
    have "\<not> bit e k" if "32 \<le> k" "k < 52" for k
      using eq [of k] that unfolding bit_and_iff bits bit_PTE_MASK by auto
    then show "\<forall>k. 32 \<le> k \<longrightarrow> k < 52 \<longrightarrow> \<not> bit e k" by blast
  next
    assume h: "\<forall>k. 32 \<le> k \<longrightarrow> k < 52 \<longrightarrow> \<not> bit e k"
    have "bit e n \<Longrightarrow> n < 52 \<Longrightarrow> n < 32" for n using h by (cases "n < 32") auto
    then show "cow_entry e AND PTE_MASK = e AND PTE_MASK"
      by (auto simp: bit_eq_iff [where ?'a = u64] bit_and_iff bits bit_PTE_MASK)
  qed
  moreover have "e AND PTE_MASK < 2 ^ 32 \<longleftrightarrow> (\<forall>k. 32 \<le> k \<longrightarrow> k < 52 \<longrightarrow> \<not> bit e k)"
  proof -
    have "e AND PTE_MASK < 2 ^ 32 \<longleftrightarrow> take_bit 32 (unat (e AND PTE_MASK)) = unat (e AND PTE_MASK)"
      by (simp add: word_less_nat_alt take_bit_nat_eq_self_iff)
    also have "\<dots> \<longleftrightarrow> (\<forall>k. bit (e AND PTE_MASK) k \<longrightarrow> k < 32)"
      unfolding bit_eq_iff [where ?'a = nat] bit_take_bit_iff bit_unsigned_iff
      using bit_imp_le_length [of "e AND PTE_MASK"] by auto
    also have "\<dots> \<longleftrightarrow> (\<forall>k. 32 \<le> k \<longrightarrow> k < 52 \<longrightarrow> \<not> bit e k)"
    proof -
      have "bit (e AND PTE_MASK) k \<longleftrightarrow> bit e k \<and> 12 \<le> k \<and> k < 52" for k
        by (simp add: bit_and_iff bit_PTE_MASK)
      then show ?thesis by (auto simp: not_less [symmetric])
    qed
    finally show ?thesis .
  qed
  moreover have "cow_entry e AND VMM_NOEXEC = 0"
    unfolding VMM_NOEXEC_def by (subst and_flag_zero) (simp_all add: bits)
  ultimately show ?thesis by simp
qed

section \<open>Copy-on-write faults\<close>

text \<open>A write to a user page that fork shared, as the processor reports it.\<close>

definition cow_fault_at :: "u64 \<Rightarrow> u64 \<Rightarrow> u64 \<Rightarrow> vmm \<Rightarrow> bool" where
  "cow_fault_at fault_addr err pte s \<longleftrightarrow> err AND 3 = 3 \<and> fault_addr < 0x0000800000000000 \<and>
     walk (mem s) (pml4 s) (va_path fault_addr) = Some (pte, 0) \<and> pte AND COW_MARK \<noteq> 0 \<and> pte AND VMM_USER \<noteq> 0"

lemma va_path_page: "va_path (va AND NOT (UIX_PAGE_SIZE - 1)) = va_path va"
proof -
  have m: "UIX_PAGE_SIZE - 1 = mask 12" by (simp add: UIX_PAGE_SIZE_def mask_eq_exp_minus_1)
  have "drop_bit n (va AND NOT (mask 12)) = drop_bit n va" if "12 \<le> n" for n
    using that bit_imp_le_length [of va]
    by (auto simp: bit_eq_iff [where ?'a = u64] bit_drop_bit_eq bit_and_iff bit_not_iff bit_mask_iff)
  then show ?thesis unfolding m by (simp add: va_path_def PML4_IDX_def PDPT_IDX_def PD_IDX_def PT_IDX_def)
qed

lemma pt_for_mapped:
  assumes "vmm_wf s" and "walk (mem s) (pml4 s) (va_path va) = Some (e, 0)"
  obtains t where "pt_for va False s = Inr (Some t, s)" "table_at (mem s) (pml4 s) (pt_path va) = Some t"
    "mem s t (PT_IDX va) = e" "e AND VMM_PRESENT \<noteq> 0"
proof -
  have ps: "mem s (pml4 s) (PML4_IDX va) AND VMM_PRESENT \<noteq> 0 \<Longrightarrow> mem s (pml4 s) (PML4_IDX va) AND PDE_PS = 0"
    using assms(1) by (simp add: vmm_wf_def space_tree_def)
  let ?t = "mem s (mem s (mem s (pml4 s) (PML4_IDX va) AND PTE_MASK) (PDPT_IDX va) AND PTE_MASK) (PD_IDX va) AND PTE_MASK"
  have "pt_for va False s = Inr (Some ?t, s)" "table_at (mem s) (pml4 s) (pt_path va) = Some ?t"
    "mem s ?t (PT_IDX va) = e" "e AND VMM_PRESENT \<noteq> 0"
    using assms(2) ps by (auto simp: pt_for_def ensure_entry_def va_path_def Let_def split: if_splits)
  then show ?thesis by (rule that)
qed

lemma present_bit_itself: "bit VMM_PRESENT 0"
  by (simp add: VMM_PRESENT_def)

lemma vmm_wf_outside:
  assumes wf: "vmm_wf s" and pm: "pmm_inv (pm s')" "bitmap_len (pm s') = bitmap_len (pm s)"
    "free_pages (pm s') \<subseteq> free_pages (pm s)"
    and root: "pml4 s' = pml4 s" and same: "\<And>t. t \<in> space_tables (mem s) (pml4 s) \<Longrightarrow> mem s' t = mem s t"
  shows "vmm_wf s'" and "path_ok p \<Longrightarrow> table_at (mem s') (pml4 s') p = table_at (mem s) (pml4 s) p"
    and "walk (mem s') (pml4 s') (va_path va) = walk (mem s) (pml4 s) (va_path va)"
proof -
  have "space_tables (mem s') (pml4 s) = space_tables (mem s) (pml4 s)" "space_tree (mem s') (pml4 s)"
    using space_tables_outside [where m = "mem s" and m' = "mem s'", OF same]
      space_tree_outside [where m = "mem s" and m' = "mem s'", OF same] wf by (simp_all add: vmm_wf_def)
  then show "vmm_wf s'" using wf pm root by (auto simp: vmm_wf_def)
  show "path_ok p \<Longrightarrow> table_at (mem s') (pml4 s') p = table_at (mem s) (pml4 s) p"
    "walk (mem s') (pml4 s') (va_path va) = walk (mem s) (pml4 s) (va_path va)"
    using space_outside [where m = "mem s" and m' = "mem s'", OF same] root by simp_all
qed

lemma page_fault_handled:
  assumes wf: "vmm_wf s" and f: "cow_fault_at fault_addr err pte s"
  obtains t where "table_at (mem s) (pml4 s) (pt_path fault_addr) = Some t"
    "vmm_page_fault fault_addr err s con =
      rbind (cow_fault (fault_addr AND NOT (UIX_PAGE_SIZE - 1)) t pte s) (\<lambda>s. Inr (True, invlpg fault_addr s, con))"
    "PT_IDX (fault_addr AND NOT (UIX_PAGE_SIZE - 1)) = PT_IDX fault_addr" "\<not> absent pte"
proof -
  let ?va = "fault_addr AND NOT (UIX_PAGE_SIZE - 1)"
  have path: "va_path ?va = va_path fault_addr" by (rule va_path_page)
  then have idx: "pt_path ?va = pt_path fault_addr" "PT_IDX ?va = PT_IDX fault_addr" by (simp_all add: va_path_def)
  have "walk (mem s) (pml4 s) (va_path ?va) = Some (pte, 0)" using f path by (simp add: cow_fault_at_def)
  then obtain t where t: "pt_for ?va False s = Inr (Some t, s)" "table_at (mem s) (pml4 s) (pt_path ?va) = Some t"
    "mem s t (PT_IDX ?va) = pte" "pte AND VMM_PRESENT \<noteq> 0"
    using pt_for_mapped [OF wf] by metis
  have "vmm_page_fault fault_addr err s con =
      rbind (cow_fault ?va t pte s) (\<lambda>s. Inr (True, invlpg fault_addr s, con))"
    using f t by (simp add: vmm_page_fault_def cow_fault_at_def Let_def)
  then show ?thesis using that t(2,4) idx by simp
qed

lemma pmm_unref_shared:
  assumes "1 < pmm_getref page p"
  obtains rc where "refcounts p = Some rc" "pmm_getref page p = rc (drop_bit 12 page)"
    "pmm_unref page p = Inr (p\<lparr>refcounts := Some (rc(drop_bit 12 page := rc (drop_bit 12 page) - 1))\<rparr>)"
    "drop_bit 12 page < total_pages p"
  using assms that
  by (auto simp: pmm_getref_def pmm_unref_def Let_def uix_const not_le split: option.splits if_splits)

lemma pmm_getref_first_ref:
  assumes "\<forall>rc. refcounts p = Some rc \<longrightarrow> rc (drop_bit 12 page) = 0"
  shows "pmm_getref page (pmm_ref page p) \<le> 1"
proof -
  obtain rc where "refcounts (refcounts_grow p) = Some rc" "rc (drop_bit 12 page) = 0"
    using assms by (cases "refcounts p") (auto simp: refcounts_grow_def Let_def)
  then show ?thesis
    by (auto simp: pmm_getref_def pmm_ref_def Let_def uix_const assms split: option.splits)
qed

text \<open>
  Claim C9. A copy-on-write fault on a shared page. When the page's count says it is shared and a
  page is free, \<^verbatim>\<open>vmm_page_fault\<close> resolves the fault with a private copy: the address now maps
  a page that was free, holding the same contents, writable; the shared page keeps its contents and
  loses one reference; every other page of the space is mapped as before.
\<close>

theorem page_fault_private_copy:
  assumes wf: "vmm_wf s" and f: "cow_fault_at fault_addr err pte s"
    and shared: "1 < pmm_getref (pte AND PTE_MASK) (pm s)" and room: "free_pages (pm s) \<noteq> {}"
    and data: "pte AND PTE_MASK \<notin> space_tables (mem s) (pml4 s) \<union> free_pages (pm s)"
  shows "\<exists>n s'. vmm_page_fault fault_addr err s con = Inr (True, s', con) \<and> vmm_wf s' \<and> n \<in> free_pages (pm s) \<and>
    walk (mem s') (pml4 s') (va_path fault_addr) =
      Some (n OR VMM_PRESENT OR VMM_WRITE OR VMM_USER OR (pte AND VMM_NOEXEC), 0) \<and>
    mem s' n = mem s (pte AND PTE_MASK) \<and> mem s' (pte AND PTE_MASK) = mem s (pte AND PTE_MASK) \<and>
    pmm_getref (pte AND PTE_MASK) (pm s') = pmm_getref (pte AND PTE_MASK) (pm s) - 1 \<and>
    (\<forall>va. vpage va \<noteq> vpage fault_addr \<longrightarrow>
      walk (mem s') (pml4 s') (va_path va) = walk (mem s) (pml4 s) (va_path va))"
proof -
  let ?old = "pte AND PTE_MASK" and ?va = "fault_addr AND NOT (UIX_PAGE_SIZE - 1)"
  obtain t where t: "table_at (mem s) (pml4 s) (pt_path fault_addr) = Some t"
    and pf: "vmm_page_fault fault_addr err s con = rbind (cow_fault ?va t pte s) (\<lambda>s. Inr (True, invlpg fault_addr s, con))"
    and idx: "PT_IDX ?va = PT_IDX fault_addr"
    using page_fault_handled [OF wf f] by metis
  have inv: "pmm_inv (pm s)" "bitmap_len (pm s) \<le> 2 ^ 40" using wf by (simp_all add: vmm_wf_def)
  obtain n s1 where a: "vmm_alloc s = (n, s1)" by force
  have n0: "n \<noteq> 0"
    using a room pmm_pages.alloc_none [OF inv(1)] by (auto simp: vmm_alloc_def split: prod.splits)
  note al = vmm_alloc_grows [OF inv a n0] and page = vmm_alloc_page [OF inv a n0]
  have tot: "total_pages (pm s1) = total_pages (pm s)" using page(4,5) inv(1) by (simp add: pmm_inv_def)
  have ref1: "pmm_getref ?old (pm s1) = pmm_getref ?old (pm s)"
    using page(6) tot by (simp add: pmm_getref_def Let_def split: option.splits)
  then obtain rc where rc: "refcounts (pm s1) = Some rc" "pmm_getref ?old (pm s1) = rc (drop_bit 12 ?old)"
    and unref: "pmm_unref ?old (pm s1) = Inr (pm s1\<lparr>refcounts := Some (rc(drop_bit 12 ?old := rc (drop_bit 12 ?old) - 1))\<rparr>)"
    and lt: "drop_bit 12 ?old < total_pages (pm s1)"
    using pmm_unref_shared [of ?old "pm s1"] shared by metis
  let ?rc = "rc(drop_bit 12 ?old := rc (drop_bit 12 ?old) - 1)"
  let ?s2 = "s1\<lparr>mem := (mem s1)(n := mem s1 ?old), pm := (pm s1)\<lparr>refcounts := Some ?rc\<rparr>\<rparr>"
  let ?v = "n AND PTE_MASK OR VMM_PRESENT OR VMM_WRITE OR VMM_USER OR (pte AND VMM_NOEXEC)"
  let ?s' = "invlpg fault_addr (tbl_write t (PT_IDX fault_addr) ?v ?s2)"
  have res: "vmm_page_fault fault_addr err s con = Inr (True, ?s', con)"
    unfolding pf using shared a n0 unref by (simp add: cow_fault_def Let_def idx)
  have nt: "n \<notin> space_tables (mem s) (pml4 s)" "n \<noteq> ?old" using al(5) wf data by (auto simp: vmm_wf_def)
  have fp: "free_pages (pm ?s2) = free_pages (pm s1)" by (simp add: free_pages_def)
  have wf2: "vmm_wf ?s2" and tab2: "table_at (mem ?s2) (pml4 ?s2) (pt_path fault_addr) = Some t"
    and walk2: "walk (mem ?s2) (pml4 ?s2) (va_path va) = walk (mem s) (pml4 s) (va_path va)" for va
  proof -
    have "pmm_inv (pm ?s2)" "bitmap_len (pm ?s2) = bitmap_len (pm s)" "free_pages (pm ?s2) \<subseteq> free_pages (pm s)"
      "pml4 ?s2 = pml4 s" using page(3-5) fp al(1) by (auto simp: grows_def)
    note out = vmm_wf_outside [OF wf this]
    have same: "mem ?s2 u = mem s u" if "u \<in> space_tables (mem s) (pml4 s)" for u
      using that nt al(4) by auto
    show "vmm_wf ?s2" "walk (mem ?s2) (pml4 ?s2) (va_path va) = walk (mem s) (pml4 s) (va_path va)" for va
      by (rule out, erule same)+
    show "table_at (mem ?s2) (pml4 ?s2) (pt_path fault_addr) = Some t"
      unfolding t [symmetric] by (rule out, erule same, rule va_path_ok)
  qed
  note w = pt_entry_write [OF wf2 tab2, where v = ?v]
  have tt: "t \<in> space_tables (mem s) (pml4 s)" using t va_path_ok(4) unfolding space_tables_def by blast
  have nf: "n AND PTE_MASK = n" using al(3) by (simp add: is_frame_def)
  have s': "mem ?s' = mem (tbl_write t (PT_IDX fault_addr) ?v ?s2)" "pml4 ?s' = pml4 (tbl_write t (PT_IDX fault_addr) ?v ?s2)"
    "pm ?s' = pm ?s2" by (simp_all add: invlpg_def tbl_write_def)
  have "walk (mem ?s') (pml4 ?s') (va_path fault_addr) =
      Some (n OR VMM_PRESENT OR VMM_WRITE OR VMM_USER OR (pte AND VMM_NOEXEC), 0)"
    unfolding s' using w(3) nf by (simp add: present_bit bit_or_iff present_bit_itself)
  moreover have "vmm_wf ?s'" using w(1) by (simp add: invlpg_def vmm_wf_def)
  moreover have "mem ?s' n = mem s ?old" "mem ?s' ?old = mem s ?old"
    using nt tt data al(4) unfolding s' by (auto simp: tbl_write_def)
  moreover have "pmm_getref ?old (pm ?s') = pmm_getref ?old (pm s) - 1"
    unfolding s'(3) ref1 [symmetric] rc(2) using lt by (auto simp: pmm_getref_def UIX_PAGE_SHIFT_def Let_def)
  moreover have "\<forall>va. vpage va \<noteq> vpage fault_addr \<longrightarrow>
      walk (mem ?s') (pml4 ?s') (va_path va) = walk (mem s) (pml4 s) (va_path va)"
    unfolding s' using w(4) walk2 by simp
  ultimately show ?thesis using res al(5) by blast
qed

text \<open>The example space after a fork has marked its one user page, with the page's count as given.\<close>

definition cow_example :: "pmm \<Rightarrow> vmm" where
  "cow_example p = (tbl_write 0xB000 0 0xC205 vmm_example)\<lparr>pm := p\<rparr>"

lemma cow_example_fault: "cow_fault_at 0x400010 7 0xC205 (cow_example p)"
  by (simp add: cow_fault_at_def cow_example_def tbl_write_def va_path_def vmm_example_def PML4_IDX_def PDPT_IDX_def
      PD_IDX_def PT_IDX_def uix_const Let_def drop_bit_eq_div)

lemma cow_example_wf:
  assumes "pmm_inv p" "bitmap_len p = 16" "free_pages p \<subseteq> free_pages (pm vmm_example)"
  shows "vmm_wf (cow_example p)"
    and "0xC000 \<notin> space_tables (mem (cow_example p)) (pml4 (cow_example p)) \<union> free_pages p"
proof -
  have t: "table_at (mem vmm_example) (pml4 vmm_example) (pt_path 0x400000) = Some 0xB000" "PT_IDX 0x400000 = 0"
    by (simp_all add: vmm_example_def PML4_IDX_def PDPT_IDX_def PD_IDX_def PT_IDX_def
        uix_const Let_def drop_bit_eq_div)
  let ?s = "tbl_write 0xB000 0 0xC205 vmm_example"
  note w = pt_entry_write(1,2) [OF vmm_wf_example t(1), where v = "0xC205", unfolded t(2)]
  have b: "bitmap_len (pm ?s) = 16" "pm ?s = pm vmm_example" by (simp_all add: tbl_write_def vmm_example_def)
  show "vmm_wf (cow_example p)"
    by (rule vmm_wf_outside(1) [OF w(1)]) (use assms b in \<open>simp_all add: cow_example_def\<close>)
  have "space_tables (mem vmm_example) (pml4 vmm_example) \<subseteq> {0x8000, 0x9000, 0xA000, 0xB000}"
    using vmm_example_tables by (fastforce simp: space_tables_def path_ok_def)
  then show "0xC000 \<notin> space_tables (mem (cow_example p)) (pml4 (cow_example p)) \<union> free_pages p"
    using w(2) assms(3) by (auto simp: free_pages_vmm_example cow_example_def)
qed

theorem page_fault_private_copy_witness:
  "\<exists>n s'. vmm_page_fault 0x400010 7 (cow_example ((pm vmm_example)\<lparr>refcounts := Some (\<lambda>_. 2)\<rparr>)) console_example =
      Inr (True, s', console_example) \<and> n \<in> free_pages (pm vmm_example) \<and>
    walk (mem s') (pml4 s') (va_path 0x400010) = Some (n OR 7, 0) \<and> mem s' n = of_nat \<and> mem s' 0xC000 = of_nat"
proof -
  let ?p = "(pm vmm_example)\<lparr>refcounts := Some (\<lambda>_. 2)\<rparr>"
  have fp: "free_pages ?p = free_pages (pm vmm_example)" by (simp add: free_pages_def)
  have inv: "pmm_inv ?p" using pmm_inv_vmm_example by simp
  have "bitmap_len ?p = 16" by (simp add: vmm_example_def)
  note wf = cow_example_wf [OF inv this equalityD1 [OF fp]]
  have old: "(0xC205 :: u64) AND PTE_MASK = 0xC000" by (simp add: PTE_MASK_def)
  have pm: "pm (cow_example ?p) = ?p" by (simp add: cow_example_def)
  have "1 < pmm_getref 0xC000 ?p"
    by (simp add: pmm_getref_def vmm_example_def uix_const drop_bit_eq_div)
  moreover have "free_pages ?p \<noteq> {}" unfolding fp free_pages_vmm_example by simp
  moreover have "mem (cow_example ?p) 0xC000 = of_nat" by (simp add: cow_example_def tbl_write_def vmm_example_def)
  moreover have "n OR VMM_PRESENT OR VMM_WRITE OR VMM_USER OR (0xC205 AND VMM_NOEXEC) = n OR 7" for n :: u64
    by (simp add: uix_const or.assoc)
  ultimately show ?thesis
    using page_fault_private_copy [OF wf(1) cow_example_fault, unfolded old pm, of console_example] wf(2) fp by auto
qed

text \<open>
  Claim C31. The first fork under-counts. \<^verbatim>\<open>pmm_alloc\<close> leaves a page's count at 0, so the one
  \<^verbatim>\<open>pmm_ref\<close> of the first fork gives a page that is now mapped by two spaces the count 1, and
  the copy-on-write fault takes its last-reference branch: the page both spaces map is made writable
  in place, no page is allocated and nothing is copied.
\<close>

theorem page_fault_first_fork_shares_writes:
  assumes wf: "vmm_wf s" and f: "cow_fault_at fault_addr err pte s"
    and first: "pm s = pmm_ref (pte AND PTE_MASK) p" "\<forall>rc. refcounts p = Some rc \<longrightarrow> rc (drop_bit 12 (pte AND PTE_MASK)) = 0"
  shows "\<exists>s' e. vmm_page_fault fault_addr err s con = Inr (True, s', con) \<and> pm s' = pm s \<and>
    walk (mem s') (pml4 s') (va_path fault_addr) = Some (e, 0) \<and>
    e AND PTE_MASK = pte AND PTE_MASK \<and> e AND VMM_WRITE \<noteq> 0"
proof -
  let ?old = "pte AND PTE_MASK" and ?va = "fault_addr AND NOT (UIX_PAGE_SIZE - 1)"
  let ?e = "(pte AND NOT COW_MARK) OR VMM_WRITE"
  obtain t where t: "table_at (mem s) (pml4 s) (pt_path fault_addr) = Some t"
    and pf: "vmm_page_fault fault_addr err s con = rbind (cow_fault ?va t pte s) (\<lambda>s. Inr (True, invlpg fault_addr s, con))"
    and idx: "PT_IDX ?va = PT_IDX fault_addr" and pr: "bit pte 0"
    using page_fault_handled [OF wf f] unfolding present_bit by metis
  have "pmm_getref ?old (pm s) \<le> 1" unfolding first(1) by (rule pmm_getref_first_ref [OF first(2)])
  then have "cow_fault ?va t pte s = Inr (tbl_write t (PT_IDX fault_addr) ?e s)"
    by (simp add: cow_fault_def Let_def idx leD)
  then have res: "vmm_page_fault fault_addr err s con = Inr (True, invlpg fault_addr (tbl_write t (PT_IDX fault_addr) ?e s), con)"
    unfolding pf by simp
  have flags: "COW_MARK = push_bit 9 1" "VMM_WRITE = push_bit 1 1" by (simp_all add: uix_const)
  have "bit ?e 0" using pr unfolding flags bit_or_iff bit_and_iff bit_not_iff bit_flag by simp
  then have "\<not> absent ?e" by (simp add: present_bit)
  moreover have "?e AND PTE_MASK = ?old"
    unfolding flags bit_eq_iff [where ?'a = u64] bit_or_iff bit_and_iff bit_not_iff bit_flag bit_PTE_MASK by auto
  moreover have "?e AND VMM_WRITE \<noteq> 0"
    unfolding flags(2) using and_flag_zero [of 1 "(pte AND NOT COW_MARK) OR push_bit 1 1"] bit_flag [of 1 1]
    by (simp add: bit_or_iff)
  moreover note pt_entry_write(3) [OF wf t, where v = ?e]
  ultimately show ?thesis using res by (force simp: invlpg_def tbl_write_def)
qed

theorem page_fault_first_fork_shares_writes_witness:
  "\<exists>s' e. vmm_page_fault 0x400010 7 (cow_example (pmm_ref 0xC000 (pm vmm_example))) console_example =
      Inr (True, s', console_example) \<and>
    walk (mem s') (pml4 s') (va_path 0x400010) = Some (e, 0) \<and> e AND PTE_MASK = 0xC000 \<and> e AND VMM_WRITE \<noteq> 0"
proof -
  let ?p = "pmm_ref 0xC000 (pm vmm_example)"
  have "bitmap_len ?p = 16" "free_pages ?p \<subseteq> free_pages (pm vmm_example)"
    using pmm_ref_keeps [OF pmm_inv_vmm_example, of "0xC000"]
    by (auto simp: free_pages_def) (simp add: vmm_example_def)
  note wf = cow_example_wf(1) [OF pmm_ref_keeps(1) [OF pmm_inv_vmm_example] this]
  have "pm (cow_example ?p) = pmm_ref (0xC205 AND PTE_MASK) (pm vmm_example)"
    by (simp add: cow_example_def PTE_MASK_def)
  moreover have "refcounts (pm vmm_example) = None" by (simp add: vmm_example_def)
  moreover have "(0xC205 :: u64) AND PTE_MASK = 0xC000" by (simp add: PTE_MASK_def)
  ultimately show ?thesis
    using page_fault_first_fork_shares_writes [OF wf cow_example_fault, of "pm vmm_example" console_example]
    by auto
qed

end
