(* ===== verification/Bytes.thy ===== *)
theory Bytes
  imports Lib
begin

text \<open>
  Fields of C structures in the byte store of \<^theory_text>\<open>Lib\<close>: reading and writing little-endian
  integers of one, two, four and eight bytes, and the algebra the components use (a field read
  back, a field left alone by a write elsewhere). Regions are compared by modular distance, so
  that no lemma has a side condition on wrap-around.
\<close>

section \<open>Little-endian integers\<close>

fun get_le :: "nat \<Rightarrow> bytes \<Rightarrow> u64 \<Rightarrow> 'a::len word" where
  "get_le 0 m a = 0"
| "get_le (Suc n) m a = ucast (m a) OR push_bit 8 (get_le n m (a + 1))"

fun put_le :: "nat \<Rightarrow> u64 \<Rightarrow> 'a::len word \<Rightarrow> bytes \<Rightarrow> bytes" where
  "put_le 0 a v m = m"
| "put_le (Suc n) a v m = put_le n (a + 1) (drop_bit 8 v) (m(a := ucast v))"

definition get16 :: "bytes \<Rightarrow> u64 \<Rightarrow> u16" where "get16 = get_le 2"
definition get32 :: "bytes \<Rightarrow> u64 \<Rightarrow> u32" where "get32 = get_le 4"
definition get64 :: "bytes \<Rightarrow> u64 \<Rightarrow> u64" where "get64 = get_le 8"
definition put16 :: "u64 \<Rightarrow> u16 \<Rightarrow> bytes \<Rightarrow> bytes" where "put16 = put_le 2"
definition put32 :: "u64 \<Rightarrow> u32 \<Rightarrow> bytes \<Rightarrow> bytes" where "put32 = put_le 4"
definition put64 :: "u64 \<Rightarrow> u64 \<Rightarrow> bytes \<Rightarrow> bytes" where "put64 = put_le 8"

lemmas get_defs = get16_def get32_def get64_def
lemmas put_defs = put16_def put32_def put64_def

text \<open>Two regions that share no byte, on the circle of 64-bit addresses.\<close>

definition apart :: "nat \<Rightarrow> u64 \<Rightarrow> nat \<Rightarrow> u64 \<Rightarrow> bool" where
  "apart n a k b \<longleftrightarrow> n \<le> unat (b - a) \<and> k \<le> unat (a - b)"

section \<open>Bytes of a written integer\<close>

lemma unat_before: "unat (a - (a + 1) :: u64) = 2 ^ 64 - 1"
  using unat_dist_add [of 1 a a] by simp

lemma put_le_apply:
  assumes "n \<le> 8"
  shows "put_le n a v m x = (if unat (x - a) < n then ucast (drop_bit (8 * unat (x - a)) v) else m x)"
  using assms
proof (induction n arbitrary: a v m)
  case (Suc n)
  show ?case
  proof (cases "x = a")
    case True
    have "unat (a - (a + 1)) = 2 ^ 64 - 1" by (rule unat_before)
    then show ?thesis using True Suc by simp
  next
    case False
    then have d: "unat (x - a) = Suc (unat (x - (a + 1)))" by (rule unat_dist_Suc)
    show ?thesis using Suc False by (simp add: d add.commute)
  qed
qed simp

lemma get_le_cong:
  assumes "\<And>x. unat (x - a) < n \<Longrightarrow> m x = m' x" and "n \<le> 8"
  shows "get_le n m a = (get_le n m' a :: 'a::len word)"
  using assms
proof (induction n arbitrary: a)
  case (Suc n)
  have "m x = m' x" if x: "unat (x - (a + 1)) < n" for x
  proof (rule Suc.prems)
    have "x \<noteq> a"
    proof
      assume "x = a"
      then have "unat (x - (a + 1)) = 2 ^ 64 - 1" using unat_before by simp
      then show False using x Suc.prems(2) by simp
    qed
    then show "unat (x - a) < Suc n" using x by (simp add: unat_dist_Suc)
  qed
  then show ?case using Suc by simp
qed simp

lemma get_put_le_other:
  assumes "apart n a k b" "n \<le> 8" "k \<le> 8"
  shows "get_le k (put_le n a v m) b = (get_le k m b :: 'a::len word)"
proof (rule get_le_cong [OF _ \<open>k \<le> 8\<close>])
  fix x assume x: "unat (x - b) < k"
  have "\<not> unat (x - a) < n"
  proof
    assume a: "unat (x - a) < n"
    have ge: "n \<le> unat (b - a)" "k \<le> unat (a - b)" using assms(1) by (simp_all add: apart_def)
    have le: "unat (p - q) \<le> unat p" if "q \<le> p" for p q :: u64 using that by (simp add: unat_sub)
    have "x - b \<le> x - a \<or> x - a \<le> x - b" by (rule linear)
    then show False
    proof
      assume "x - b \<le> x - a"
      then show False using le [of "x - b" "x - a"] ge(1) a by simp
    next
      assume "x - a \<le> x - b"
      then show False using le [of "x - a" "x - b"] ge(2) x by simp
    qed
  qed
  then show "put_le n a v m x = m x" using put_le_apply [OF assms(2)] by metis
qed

lemma get_put_le_same:
  fixes v :: "'a::len word"
  assumes "n \<le> 8"
  shows "get_le n (put_le n a v m) a = take_bit (8 * n) v"
  using assms
proof (induction n arbitrary: a v m)
  case (Suc n)
  have h: "put_le n (a + 1) (drop_bit 8 v) (m(a := ucast v)) a = ucast v"
  proof -
    have "unat (a - (a + 1)) = 2 ^ 64 - 1" by (rule unat_before)
    then show ?thesis using Suc.prems put_le_apply [of n "a + 1" "drop_bit 8 v" _ a] by simp
  qed
  have "ucast (ucast v :: u8) OR push_bit 8 (take_bit (8 * n) (drop_bit 8 v)) = take_bit (8 * Suc n) v"
  proof (rule bit_eqI)
    fix i assume "possible_bit TYPE('a word) i"
    then show "bit (ucast (ucast v :: u8) OR push_bit 8 (take_bit (8 * n) (drop_bit 8 v))) i \<longleftrightarrow> bit (take_bit (8 * Suc n) v) i"
      by (cases "i < 8") (auto simp: bit_or_iff bit_ucast_iff bit_push_bit_iff bit_take_bit_iff bit_drop_bit_eq)
  qed
  then show ?case using Suc h by simp
qed simp

lemma get_put_same [simp]:
  "get16 (put16 a v m) a = v" "get32 (put32 a w m) a = w" "get64 (put64 a u m) a = u"
  by (simp_all add: get_defs put_defs get_put_le_same take_bit_word_eq_self)

lemma get_put_other:
  "apart 2 a 2 b \<Longrightarrow> get16 (put16 a v m) b = get16 m b"
  "apart 4 a 2 b \<Longrightarrow> get16 (put32 a w m) b = get16 m b"
  "apart 8 a 2 b \<Longrightarrow> get16 (put64 a u m) b = get16 m b"
  "apart 2 a 4 b \<Longrightarrow> get32 (put16 a v m) b = get32 m b"
  "apart 4 a 4 b \<Longrightarrow> get32 (put32 a w m) b = get32 m b"
  "apart 8 a 4 b \<Longrightarrow> get32 (put64 a u m) b = get32 m b"
  "apart 2 a 8 b \<Longrightarrow> get64 (put16 a v m) b = get64 m b"
  "apart 4 a 8 b \<Longrightarrow> get64 (put32 a w m) b = get64 m b"
  "apart 8 a 8 b \<Longrightarrow> get64 (put64 a u m) b = get64 m b"
  by (simp_all add: get_defs put_defs get_put_le_other)

lemma put_byte_other:
  "2 \<le> unat (x - a) \<Longrightarrow> put16 a v m x = m x"
  "4 \<le> unat (x - a) \<Longrightarrow> put32 a w m x = m x"
  "8 \<le> unat (x - a) \<Longrightarrow> put64 a u m x = m x"
  by (simp_all add: put_defs put_le_apply)

lemma get_cong:
  "(\<And>x. unat (x - a) < 2 \<Longrightarrow> m x = m' x) \<Longrightarrow> get16 m a = get16 m' a"
  "(\<And>x. unat (x - a) < 4 \<Longrightarrow> m x = m' x) \<Longrightarrow> get32 m a = get32 m' a"
  "(\<And>x. unat (x - a) < 8 \<Longrightarrow> m x = m' x) \<Longrightarrow> get64 m a = get64 m' a"
  unfolding get_defs by (rule get_le_cong; (assumption | simp))+

text \<open>Offsets inside a structure of \<open>n\<close> bytes, and structures that lie apart.\<close>

lemma unat_offset: "unat (b - a) + k < 2 ^ 64 \<Longrightarrow> unat (b + of_nat k - a :: u64) = unat (b - a) + k"
proof -
  assume a: "unat (b - a) + k < 2 ^ 64"
  have "b + of_nat k - a = (b - a) + of_nat k" by simp
  also have "unat \<dots> = unat (b - a) + k" using a by (simp add: unat_word_ariths unat_of_nat)
  finally show ?thesis .
qed

lemma apart_fields:
  assumes ap: "apart n a k b" and i: "i + p \<le> n" and j: "j + q \<le> k" and pos: "0 < p" "0 < q"
  shows "apart p (a + of_nat i) q (b + of_nat j)"
proof -
  let ?d = "unat (b - a)" and ?e = "unat (a - b)"
  have "a \<noteq> b" using ap pos i by (auto simp: apart_def)
  then have de: "?d + ?e = 2 ^ 64"
    by (auto simp: unat_sub_if' word_unat_eq_iff) (use unat_lt_64_num [of a] unat_lt_64_num [of b] in linarith)+
  have le: "n \<le> ?d" "k \<le> ?e" using ap by (simp_all add: apart_def)
  have lt: "?d + j < 2 ^ 64" "?e + i < 2 ^ 64" "i < 2 ^ 64" "j < 2 ^ 64" using de le i j pos by simp_all
  have "unat (b + of_nat j - (a + of_nat i)) = ?d + j - i"
    using unat_dist_add [OF lt(3), of "b + of_nat j" a] unat_offset [OF lt(1)] le i j by simp
  moreover have "unat (a + of_nat i - (b + of_nat j)) = ?e + i - j"
    using unat_dist_add [OF lt(4), of "a + of_nat i" b] unat_offset [OF lt(2)] le i j by simp
  ultimately show ?thesis unfolding apart_def by (intro conjI) (use le i j in linarith)+
qed

end
