(* ===== verification/Heap.thy ===== *)
theory Heap
  imports Vmm_Spaces Bytes "HOL-Library.Multiset"
begin

text \<open>
  The kernel heap of \<^verbatim>\<open>core/memory/heap.c\<close>: block headers are bytes of the kernel's
  virtual address space (\<open>hmem\<close>), reached through the little-endian fields of
  \<^theory_text>\<open>Bytes\<close>; growing the heap goes through the page allocator and \<^verbatim>\<open>vmm_map\<close>. What a
  freshly mapped page holds is whatever \<open>hmem\<close> has there, and every lemma quantifies over it.
  The scan of the free list and the retry may not end on a corrupted heap, so they are
  \<^theory_text>\<open>partial_function (option)\<close>.
\<close>

section \<open>Block headers\<close>

definition HEAP_VA_BASE :: u64 where "HEAP_VA_BASE = 0xffffffff40000000"
definition HEAP_MAX :: u64 where "HEAP_MAX = 32 * 1024"
definition SUPER_PAGES :: u64 where "SUPER_PAGES = 16"
definition BMAGIC_FREE :: u32 where "BMAGIC_FREE = 0xFEEEF00D"
definition BMAGIC_USED :: u32 where "BMAGIC_USED = 0xDEADC0DE"
definition HDR_SIZE :: u32 where "HDR_SIZE = 16"

lemmas heap_const = HEAP_VA_BASE_def HEAP_MAX_def SUPER_PAGES_def BMAGIC_FREE_def BMAGIC_USED_def HDR_SIZE_def

text \<open>The fields of \<^verbatim>\<open>struct block\<close>: \<^verbatim>\<open>size\<close> at offset 0, \<^verbatim>\<open>magic\<close> at 4, \<^verbatim>\<open>next\<close> at 8.\<close>

definition block_size :: "bytes \<Rightarrow> u64 \<Rightarrow> u32" where "block_size m b = get32 m b"
definition block_magic :: "bytes \<Rightarrow> u64 \<Rightarrow> u32" where "block_magic m b = get32 m (b + 4)"
definition block_next :: "bytes \<Rightarrow> u64 \<Rightarrow> u64" where "block_next m b = get64 m (b + 8)"
definition set_size :: "u64 \<Rightarrow> u32 \<Rightarrow> bytes \<Rightarrow> bytes" where "set_size b v m = put32 b v m"
definition set_magic :: "u64 \<Rightarrow> u32 \<Rightarrow> bytes \<Rightarrow> bytes" where "set_magic b v m = put32 (b + 4) v m"
definition set_next :: "u64 \<Rightarrow> u64 \<Rightarrow> bytes \<Rightarrow> bytes" where "set_next b v m = put64 (b + 8) v m"

record heap =
  freelist :: u64
  heap_brk :: u64
  hmem :: bytes
  hvm :: vmm

section \<open>Growing\<close>

definition grow_page :: "heap \<Rightarrow> heap res" where
  "grow_page s =
     (case vmm_alloc (hvm s) of (p, v) \<Rightarrow>
      if p = 0 then Inl (Panic ''heap: OOM growing'')
      else rbind (vmm_map (heap_brk s) p (VMM_PRESENT OR VMM_WRITE OR VMM_NOEXEC) v) (\<lambda>v.
        Inr (s\<lparr>hvm := v, heap_brk := heap_brk s + UIX_PAGE_SIZE\<rparr>)))"

definition grow :: "u64 \<Rightarrow> heap \<Rightarrow> heap res" where
  "grow npages s = for_res (\<lambda>_. grow_page) [0..<unat npages] s"

definition free_block :: "u64 \<Rightarrow> u64 \<Rightarrow> heap \<Rightarrow> heap" where
  "free_block b nxt s = s\<lparr>freelist := b,
     hmem := set_next b nxt (set_magic b BMAGIC_FREE (set_size b (ucast (SUPER_PAGES * UIX_PAGE_SIZE)) (hmem s)))\<rparr>"

definition heap_init :: "heap \<Rightarrow> console \<Rightarrow> (heap \<times> console) res" where
  "heap_init s con =
     rbind (grow SUPER_PAGES (s\<lparr>heap_brk := HEAP_VA_BASE\<rparr>)) (\<lambda>s.
     Inr (free_block HEAP_VA_BASE 0 s,
          kprintf (KLOG_INFO @ ''heap: %u KiB ready'' @ nl) [KNum (ucast (ucast (SUPER_PAGES * UIX_PAGE_SIZE div 1024) :: u32))] con))"

section \<open>Allocation\<close>

text \<open>
  The scan returns the block that fits with the place its link is kept: \<open>None\<close> is the
  variable \<^verbatim>\<open>freelist\<close>, \<open>Some b\<close> the \<^verbatim>\<open>next\<close> field of block \<open>b\<close>.
\<close>

partial_function (option) kmalloc_find :: "bytes \<Rightarrow> u32 \<Rightarrow> u64 option \<Rightarrow> u64 \<Rightarrow> (u64 option \<times> u64) option res option" where
  "kmalloc_find m need prev b =
     (if b = 0 then Some (Inr None)
      else if block_magic m b \<noteq> BMAGIC_FREE then Some (Inl (Panic ''heap: corrupted freelist''))
      else if block_size m b \<ge> need then Some (Inr (Some (prev, b)))
      else kmalloc_find m need (Some b) (block_next m b))"

definition set_prev :: "u64 option \<Rightarrow> u64 \<Rightarrow> heap \<Rightarrow> heap" where
  "set_prev prev v s = (case prev of
     None \<Rightarrow> s\<lparr>freelist := v\<rparr>
   | Some b \<Rightarrow> s\<lparr>hmem := set_next b v (hmem s)\<rparr>)"

definition kmalloc_take :: "u64 option \<Rightarrow> u64 \<Rightarrow> u32 \<Rightarrow> heap \<Rightarrow> heap" where
  "kmalloc_take prev b need s =
     (let s =
       (if block_size (hmem s) b - need \<ge> HDR_SIZE + 16
        then let split = b + ucast need;
                 m = hmem s;
                 m = set_size split (block_size m b - need) m;
                 m = set_magic split BMAGIC_FREE m;
                 m = set_next split (block_next m b) m;
                 m = set_size b need m
             in set_prev prev split (s\<lparr>hmem := m\<rparr>)
        else set_prev prev (block_next (hmem s) b) s)
      in s\<lparr>hmem := set_next b 0 (set_magic b BMAGIC_USED (hmem s))\<rparr>)"

partial_function (option) kmalloc :: "u64 \<Rightarrow> heap \<Rightarrow> (u64 \<times> heap) res option" where
  "kmalloc n s =
     (if n = 0 \<or> n + ucast HDR_SIZE > HEAP_MAX then Some (Inr (0, s))
      else let need = ucast n + HDR_SIZE in
        case kmalloc_find (hmem s) need None (freelist s) of
          None \<Rightarrow> None
        | Some (Inl e) \<Rightarrow> Some (Inl e)
        | Some (Inr (Some (prev, b))) \<Rightarrow> Some (Inr (b + ucast HDR_SIZE, kmalloc_take prev b need s))
        | Some (Inr None) \<Rightarrow>
          (case grow SUPER_PAGES s of
             Inl e \<Rightarrow> Some (Inl e)
           | Inr s \<Rightarrow> kmalloc n (free_block (heap_brk s - SUPER_PAGES * UIX_PAGE_SIZE) (freelist s) s)))"

definition kzalloc :: "u64 \<Rightarrow> heap \<Rightarrow> (u64 \<times> heap) res option" where
  "kzalloc n s = map_option (\<lambda>r. rbind r (\<lambda>(p, s).
     Inr (p, if p \<noteq> 0 then s\<lparr>hmem := memset p 0 n (hmem s)\<rparr> else s))) (kmalloc n s)"

section \<open>Release\<close>

fun collect_free :: "nat \<Rightarrow> bytes \<Rightarrow> u64 \<Rightarrow> u64 list" where
  "collect_free 0 m it = []"
| "collect_free (Suc k) m it = (if it = 0 then [] else it # collect_free k m (block_next m it))"

fun isort_shift :: "u64 list \<Rightarrow> u64 \<Rightarrow> nat \<Rightarrow> u64 list" where
  "isort_shift arr key 0 = arr[0 := key]"
| "isort_shift arr key (Suc j) =
     (if arr ! j > key then isort_shift (arr[Suc j := arr ! j]) key j else arr[Suc j := key])"

definition kfree_sort :: "u64 list \<Rightarrow> u64 list" where
  "kfree_sort arr = fold (\<lambda>i arr. isort_shift arr (arr ! i) i) [1..<length arr] arr"

fun kfree_merge :: "u64 \<Rightarrow> heap \<times> u64 \<Rightarrow> heap \<times> u64" where
  "kfree_merge cur (s, tail) =
     (if tail \<noteq> 0 \<and> tail + ucast (block_size (hmem s) tail) = cur
      then (s\<lparr>hmem := set_size tail (block_size (hmem s) tail + block_size (hmem s) cur) (hmem s)\<rparr>, tail)
      else let s = s\<lparr>hmem := set_next cur 0 (hmem s)\<rparr>
           in (if tail = 0 then s\<lparr>freelist := cur\<rparr> else s\<lparr>hmem := set_next tail cur (hmem s)\<rparr>, cur))"

text \<open>
  \<^verbatim>\<open>arr\<close> has 256 slots; the block being freed is stored after the blocks collected, past
  the end of the array when the free list has filled it.
\<close>

definition kfree :: "u64 \<Rightarrow> heap \<Rightarrow> heap res" where
  "kfree p s =
     (if p = 0 then Inr s
      else let b = p - ucast HDR_SIZE in
        if block_magic (hmem s) b \<noteq> BMAGIC_USED then Inl (Panic ''heap: kfree of non-heap pointer %p'')
        else let s = s\<lparr>hmem := set_magic b BMAGIC_FREE (hmem s)\<rparr>;
                 arr = collect_free 256 (hmem s) (freelist s)
             in if length arr \<ge> 256 then Inl BufferOverflow
                else Inr (fst (fold kfree_merge (kfree_sort (arr @ [b])) (s\<lparr>freelist := 0\<rparr>, 0))))"

section \<open>Header fields\<close>

lemma apart_self_fields:
  "apart 4 b 4 (b + 4)" "apart 4 (b + 4) 4 b" "apart 4 b 8 (b + 8)" "apart 4 (b + 4) 8 (b + 8)"
  "apart 8 (b + 8) 4 b" "apart 8 (b + 8) 4 (b + 4)"
  by (simp_all add: apart_def)

lemmas header_defs = block_size_def block_magic_def block_next_def set_size_def set_magic_def set_next_def

lemma header_same [simp]:
  "block_size (set_size b v m) b = v" "block_size (set_magic b v m) b = block_size m b"
  "block_size (set_next b w m) b = block_size m b"
  "block_magic (set_size b v m) b = block_magic m b" "block_magic (set_magic b v m) b = v"
  "block_magic (set_next b w m) b = block_magic m b"
  "block_next (set_size b v m) b = block_next m b" "block_next (set_magic b v m) b = block_next m b"
  "block_next (set_next b w m) b = w"
  by (simp_all add: header_defs get_put_other apart_self_fields)

lemma header_fields_apart:
  assumes "apart 16 a 16 b"
  shows "apart 4 a 4 b" "apart 4 a 4 (b + 4)" "apart 4 a 8 (b + 8)" "apart 4 (a + 4) 4 b" "apart 4 (a + 4) 4 (b + 4)"
    "apart 4 (a + 4) 8 (b + 8)" "apart 8 (a + 8) 4 b" "apart 8 (a + 8) 4 (b + 4)" "apart 8 (a + 8) 8 (b + 8)"
  using apart_fields [OF assms, of 0 4 0 4] apart_fields [OF assms, of 0 4 4 4] apart_fields [OF assms, of 0 4 8 8]
    apart_fields [OF assms, of 4 4 0 4] apart_fields [OF assms, of 4 4 4 4] apart_fields [OF assms, of 4 4 8 8]
    apart_fields [OF assms, of 8 8 0 4] apart_fields [OF assms, of 8 8 4 4] apart_fields [OF assms, of 8 8 8 8]
  by simp_all

lemma header_other:
  assumes "apart 16 a 16 b"
  shows "block_size (set_size a v m) b = block_size m b" "block_size (set_magic a v m) b = block_size m b"
    "block_size (set_next a w m) b = block_size m b"
    "block_magic (set_size a v m) b = block_magic m b" "block_magic (set_magic a v m) b = block_magic m b"
    "block_magic (set_next a w m) b = block_magic m b"
    "block_next (set_size a v m) b = block_next m b" "block_next (set_magic a v m) b = block_next m b"
    "block_next (set_next a w m) b = block_next m b"
  using header_fields_apart [OF assms] by (simp_all add: header_defs get_put_other)

lemma header_byte:
  assumes "16 \<le> unat (x - b)"
  shows "set_size b v m x = m x" "set_magic b v m x = m x" "set_next b w m x = m x"
proof -
  have "unat (x - (b + of_nat k)) = unat (x - b) - k" if "k \<le> 8" for k
    using unat_dist_add [of k x b] that assms by simp
  from this [of 4] this [of 8] have "4 \<le> unat (x - (b + 4))" "8 \<le> unat (x - (b + 8))" using assms by simp_all
  then show "set_size b v m x = m x" "set_magic b v m x = m x" "set_next b w m x = m x"
    using assms by (simp_all add: header_defs put_byte_other)
qed

section \<open>Blocks and the free list\<close>

definition region :: "bytes \<Rightarrow> u64 \<Rightarrow> nat set" where
  "region m b = {unat b..<unat b + unat (block_size m b)}"

text \<open>The blocks \<open>B\<close> cut the addresses from \<open>lo\<close> to \<open>hi\<close> into disjoint pieces that hold a header.\<close>

definition layout :: "bytes \<Rightarrow> u64 set \<Rightarrow> nat \<Rightarrow> nat \<Rightarrow> bool" where
  "layout m B lo hi \<longleftrightarrow> finite B \<and> (\<forall>b\<in>B. 16 \<le> unat (block_size m b)) \<and>
     (\<forall>b\<in>B. \<forall>c\<in>B. b \<noteq> c \<longrightarrow> region m b \<inter> region m c = {}) \<and> (\<Union>b\<in>B. region m b) = {lo..<hi}"

fun lseg :: "bytes \<Rightarrow> u64 \<Rightarrow> u64 list \<Rightarrow> u64 \<Rightarrow> bool" where
  "lseg m p [] q \<longleftrightarrow> p = q"
| "lseg m p (x # xs) q \<longleftrightarrow> p = x \<and> x \<noteq> 0 \<and> lseg m (block_next m x) xs q"

text \<open>
  \<open>F\<close> is the free list in its order, \<open>U\<close> the blocks handed out; together they tile the heap.
\<close>

definition heap_wf :: "u64 list \<Rightarrow> u64 set \<Rightarrow> heap \<Rightarrow> bool" where
  "heap_wf F U s \<longleftrightarrow> lseg (hmem s) (freelist s) F 0 \<and> distinct F \<and> set F \<inter> U = {} \<and>
     (\<forall>b\<in>set F. block_magic (hmem s) b = BMAGIC_FREE) \<and> (\<forall>b\<in>U. block_magic (hmem s) b = BMAGIC_USED) \<and>
     layout (hmem s) (set F \<union> U) (unat HEAP_VA_BASE) (unat (heap_brk s))"

lemma layout_finite: "layout m B lo hi \<Longrightarrow> finite B"
  by (simp add: layout_def)

lemma layout_sep: "layout m B lo hi \<Longrightarrow> b \<in> B \<Longrightarrow> c \<in> B \<Longrightarrow> b \<noteq> c \<Longrightarrow> region m b \<inter> region m c = {}"
  unfolding layout_def by blast

lemma region_mem: "unat b \<in> region m b \<longleftrightarrow> 0 < unat (block_size m b)"
  by (simp add: region_def)

lemma layout_bounds:
  assumes "layout m B lo hi" "b \<in> B"
  shows "lo \<le> unat b" "unat b + unat (block_size m b) \<le> hi" "16 \<le> unat (block_size m b)"
proof -
  show sz: "16 \<le> unat (block_size m b)" using assms by (simp add: layout_def)
  have sub: "region m b \<subseteq> {lo..<hi}" using assms unfolding layout_def by blast
  then have "unat b \<in> {lo..<hi}" "unat b + unat (block_size m b) - 1 \<in> {lo..<hi}"
    using sz by (auto simp: region_def subset_iff)
  then show "lo \<le> unat b" "unat b + unat (block_size m b) \<le> hi" by auto
qed

lemma layout_order:
  assumes "layout m B lo hi" "b \<in> B" "c \<in> B" "b < c"
  shows "unat b + unat (block_size m b) \<le> unat c"
proof (rule ccontr)
  assume "\<not> ?thesis"
  then have "unat c \<in> region m b" using assms(4) by (simp add: region_def word_less_nat_alt)
  moreover have "unat c \<in> region m c" using layout_bounds(3) [OF assms(1,3)] by (simp add: region_def)
  ultimately show False using assms less_imp_neq [OF assms(4)] unfolding layout_def by blast
qed

lemma apart_nat:
  assumes "unat a + n \<le> unat b" "unat b + k \<le> 2 ^ 64" "0 < n"
  shows "apart n a k b" "apart k b n a"
proof -
  have "a < b" using assms by (simp add: word_less_nat_alt)
  then have "unat (b - a) = unat b - unat a" "unat (a - b) = 2 ^ 64 - (unat b - unat a)"
    using unat_dist_rev [of a b] by (simp_all add: unat_sub)
  then show "apart n a k b" "apart k b n a" using assms by (auto simp: apart_def)
qed

lemma layout_apart:
  assumes "layout m B lo hi" "hi \<le> 2 ^ 64" "b \<in> B" "c \<in> B" "b \<noteq> c"
  shows "apart 16 b 16 c"
proof -
  have "apart 16 x 16 y" "apart 16 y 16 x" if "x \<in> B" "y \<in> B" "x < y" for x y
    using apart_nat [of x 16 y 16] layout_order [OF assms(1) that] layout_bounds [OF assms(1) that(1)]
      layout_bounds [OF assms(1) that(2)] assms(2) by linarith+
  then show ?thesis using assms(3-5) by (cases "b < c") auto
qed

lemma layout_cong:
  assumes "\<And>b. b \<in> B \<Longrightarrow> block_size m' b = block_size m b"
  shows "layout m' B lo hi \<longleftrightarrow> layout m B lo hi"
  using assms by (simp add: layout_def region_def)

lemma region_cong: "block_size m' b = block_size m b \<Longrightarrow> region m' b = region m b"
  by (simp add: region_def)

text \<open>Cutting a block in two, and joining two neighbours.\<close>

lemma region_cut:
  assumes "unat (block_size m b) = k + l" "unat c = unat b + k" "unat (block_size m' b) = k" "unat (block_size m' c) = l"
  shows "region m b = region m' b \<union> region m' c" "region m' b \<inter> region m' c = {}"
  using assms by (auto simp: region_def)

lemma layout_split:
  assumes L: "layout m B lo hi" and b: "b \<in> B" and cut: "unat (block_size m b) = k + l" "unat c = unat b + k"
    "unat (block_size m' b) = k" "unat (block_size m' c) = l" "16 \<le> k" "16 \<le> l"
    and other: "\<And>x. x \<in> B - {b} \<Longrightarrow> block_size m' x = block_size m x"
  shows "layout m' (insert c B) lo hi" "c \<notin> B"
proof -
  note r = region_cut [OF cut(1-4)]
  have o: "region m' x = region m x" if "x \<in> B - {b}" for x using other [OF that] by (rule region_cong)
  have c: "unat c \<in> region m b" "c \<noteq> b" using cut by (auto simp: region_def)
  show "c \<notin> B"
  proof
    assume "c \<in> B"
    then have "unat c \<in> region m c" using L cut by (auto simp: layout_def region_def)
    then show False using L \<open>c \<in> B\<close> b c unfolding layout_def by blast
  qed
  have un: "B = insert b (B - {b})" using b by blast
  have "(\<Union>x\<in>insert c B. region m' x) = region m' c \<union> region m' b \<union> (\<Union>x\<in>B - {b}. region m x)"
    using o b by auto
  also have "\<dots> = (\<Union>x\<in>B. region m x)" using r(1) b by auto
  finally have U: "(\<Union>x\<in>insert c B. region m' x) = {lo..<hi}" using L by (simp add: layout_def)
  have dis: "region m' x \<inter> region m b = {}" if "x \<in> B - {b}" for x
    using layout_sep [OF L, of x b] that b o [OF that] by simp
  have D: "region m' x \<inter> region m' y = {}" if xy: "x \<in> insert c B" "y \<in> insert c B" "x \<noteq> y" for x y
  proof -
    consider "x \<in> B - {b}" "y \<in> B - {b}" | "x \<in> B - {b}" "y \<in> {b, c}" | "x \<in> {b, c}" "y \<in> B - {b}" | "x \<in> {b, c}" "y \<in> {b, c}"
      using xy by blast
    then show ?thesis
    proof cases
      case 1 then show ?thesis using layout_sep [OF L, of x y] o xy(3) by simp
    next
      case 2 then show ?thesis using dis [of x] r(1) by auto
    next
      case 3 then show ?thesis using dis [of y] r(1) by auto
    next
      case 4 then show ?thesis using r(2) xy(3) by auto
    qed
  qed
  show "layout m' (insert c B) lo hi"
    using L U D other cut unfolding layout_def by (metis Diff_iff finite.insertI insert_iff singletonD)
qed

lemma layout_merge:
  assumes L: "layout m (insert c B) lo hi" and bc: "c \<notin> B" "b \<in> B" "unat c = unat b + unat (block_size m b)"
    and size: "unat (block_size m' b) = unat (block_size m b) + unat (block_size m c)"
    and other: "\<And>x. x \<in> B - {b} \<Longrightarrow> block_size m' x = block_size m x"
  shows "layout m' B lo hi"
proof -
  have r: "region m' b = region m b \<union> region m c" using bc size by (auto simp: region_def)
  have o: "region m' x = region m x" if "x \<in> B - {b}" for x using other [OF that] by (rule region_cong)
  have "(\<Union>x\<in>B. region m' x) = region m' b \<union> (\<Union>x\<in>B - {b}. region m x)" using o bc(2) by auto
  also have "\<dots> = (\<Union>x\<in>insert c B. region m x)" using r bc by auto
  finally have U: "(\<Union>x\<in>B. region m' x) = {lo..<hi}" using L by (simp add: layout_def)
  have dis: "region m' x \<inter> region m' b = {}" if "x \<in> B - {b}" for x
  proof -
    have "region m x \<inter> region m b = {}" "region m x \<inter> region m c = {}"
      by (rule layout_sep [OF L]; use that bc in blast)+
    then show ?thesis using o [OF that] r by auto
  qed
  have D: "region m' x \<inter> region m' y = {}" if xy: "x \<in> B" "y \<in> B" "x \<noteq> y" for x y
  proof -
    consider "x \<in> B - {b}" "y \<in> B - {b}" | "x \<in> B - {b}" "y = b" | "x = b" "y \<in> B - {b}" using xy by blast
    then show ?thesis
    proof cases
      case 1 then show ?thesis using layout_sep [OF L, of x y] o xy(3) by simp
    next
      case 2 then show ?thesis using dis by auto
    next
      case 3 then show ?thesis using dis by blast
    qed
  qed
  have "16 \<le> unat (block_size m' x)" if "x \<in> B" for x
    using L that other [of x] size bc(2) by (cases "x = b") (auto simp: layout_def)
  then show ?thesis using L U D unfolding layout_def by simp
qed

section \<open>List segments\<close>

lemma lseg_append: "lseg m p (xs @ ys) q \<longleftrightarrow> (\<exists>r. lseg m p xs r \<and> lseg m r ys q)"
  by (induction xs arbitrary: p) auto

lemma lseg_cong: "(\<And>x. x \<in> set xs \<Longrightarrow> block_next m' x = block_next m x) \<Longrightarrow> lseg m' p xs q \<longleftrightarrow> lseg m p xs q"
  by (induction xs arbitrary: p) auto

lemma lseg_nonzero: "lseg m p xs q \<Longrightarrow> 0 \<notin> set xs"
  by (induction xs arbitrary: p) auto

definition last_link :: "u64 option \<Rightarrow> u64 list \<Rightarrow> u64 option" where
  "last_link prev xs = (if xs = [] then prev else Some (last xs))"

lemma kmalloc_find_skip:
  assumes "lseg m p xs q" "\<And>x. x \<in> set xs \<Longrightarrow> block_magic m x = BMAGIC_FREE \<and> block_size m x < need"
  shows "kmalloc_find m need prev p = kmalloc_find m need (last_link prev xs) q"
  using assms
proof (induction xs arbitrary: p prev)
  case (Cons x xs)
  have x: "p = x" "x \<noteq> 0" "block_magic m x = BMAGIC_FREE" "\<not> need \<le> block_size m x" "lseg m (block_next m x) xs q"
    using Cons.prems(1) Cons.prems(2) [of x] by (auto simp: not_le)
  then have "kmalloc_find m need prev p = kmalloc_find m need (Some x) (block_next m x)"
    by (subst kmalloc_find.simps) simp
  also have "\<dots> = kmalloc_find m need (last_link (Some x) xs) q" using Cons x(5) by auto
  finally show ?case by (simp add: last_link_def)
qed (simp add: last_link_def)

lemma kmalloc_find_fit:
  assumes "lseg m p (xs @ b # ys) 0" "\<And>x. x \<in> set (xs @ b # ys) \<Longrightarrow> block_magic m x = BMAGIC_FREE"
    "\<And>x. x \<in> set xs \<Longrightarrow> block_size m x < need" "need \<le> block_size m b"
  shows "kmalloc_find m need prev p = Some (Inr (Some (last_link prev xs, b)))"
proof -
  have "lseg m p xs b" "b \<noteq> 0" using assms(1) by (auto simp: lseg_append)
  then show ?thesis
    using assms kmalloc_find_skip [of m p xs b need prev] by (simp add: kmalloc_find.simps [of m need _ b])
qed

lemma kmalloc_find_none:
  assumes "lseg m p xs 0" "\<And>x. x \<in> set xs \<Longrightarrow> block_magic m x = BMAGIC_FREE \<and> block_size m x < need"
  shows "kmalloc_find m need prev p = Some (Inr None)"
  using kmalloc_find_skip [OF assms, of prev] by (simp add: kmalloc_find.simps [of m need _ 0])

lemma lseg_set_last:
  assumes "lseg m p xs q" "distinct xs" "xs \<noteq> []"
    "\<And>x. x \<in> set xs \<Longrightarrow> x \<noteq> last xs \<Longrightarrow> apart 16 (last xs) 16 x"
  shows "lseg (set_next (last xs) v m) p xs v"
proof -
  obtain ys y where xs: "xs = ys @ [y]" using assms(3) by (cases xs rule: rev_cases) auto
  then have "lseg m p ys y" "y \<noteq> 0" using assms(1) by (auto simp: lseg_append)
  moreover have "lseg (set_next y v m) p ys y \<longleftrightarrow> lseg m p ys y"
  proof (rule lseg_cong)
    fix x assume "x \<in> set ys"
    then have "apart 16 y 16 x" using assms(2,4) xs by auto
    then show "block_next (set_next y v m) x = block_next m x" by (rule header_other)
  qed
  ultimately show ?thesis by (simp add: xs lseg_append)
qed

section \<open>Taking a block from the list\<close>

text \<open>\<open>same_block m m' b\<close>: the header of \<open>b\<close> is untouched.\<close>

definition same_block :: "bytes \<Rightarrow> bytes \<Rightarrow> u64 \<Rightarrow> bool" where
  "same_block m m' b \<longleftrightarrow> block_size m' b = block_size m b \<and> block_magic m' b = block_magic m b \<and>
     block_next m' b = block_next m b"

lemma same_block_writes:
  assumes "apart 16 a 16 b"
  shows "same_block m (set_size a v m') b \<longleftrightarrow> same_block m m' b" "same_block m (set_magic a v m') b \<longleftrightarrow> same_block m m' b"
    "same_block m (set_next a w m') b \<longleftrightarrow> same_block m m' b"
  using header_other [OF assms] by (simp_all add: same_block_def)

lemma same_block_refl [simp]: "same_block m m b"
  by (simp add: same_block_def)

definition all_apart :: "u64 set \<Rightarrow> bool" where
  "all_apart B \<longleftrightarrow> (\<forall>x\<in>B. \<forall>y\<in>B. x \<noteq> y \<longrightarrow> apart 16 x 16 y)"

lemma all_apart_mono: "all_apart B \<Longrightarrow> A \<subseteq> B \<Longrightarrow> all_apart A"
  by (auto simp: all_apart_def)

lemma all_apartD: "all_apart B \<Longrightarrow> x \<in> B \<Longrightarrow> y \<in> B \<Longrightarrow> x \<noteq> y \<Longrightarrow> apart 16 x 16 y"
  by (auto simp: all_apart_def)

lemma set_prev_spec:
  fixes v :: u64
  assumes seg: "lseg (hmem s) (freelist s) xs q" "distinct xs" and ap: "all_apart (set xs)"
  defines "s' \<equiv> set_prev (last_link None xs) v s"
  shows "lseg (hmem s') (freelist s') xs v" "heap_brk s' = heap_brk s" "hvm s' = hvm s"
    and "(\<And>x. x \<in> set xs \<Longrightarrow> apart 16 x 16 b) \<Longrightarrow> same_block (hmem s) (hmem s') b"
    and "b \<in> set xs \<Longrightarrow> block_size (hmem s') b = block_size (hmem s) b \<and> block_magic (hmem s') b = block_magic (hmem s) b"
    and "(\<And>x. x \<in> set xs \<Longrightarrow> 16 \<le> unat (z - x)) \<Longrightarrow> hmem s' z = hmem s z"
proof -
  show "heap_brk s' = heap_brk s" "hvm s' = hvm s" by (simp_all add: s'_def set_prev_def split: option.splits)
  have s': "s' = (if xs = [] then s\<lparr>freelist := v\<rparr> else s\<lparr>hmem := set_next (last xs) v (hmem s)\<rparr>)"
    by (simp add: s'_def set_prev_def last_link_def)
  show "lseg (hmem s') (freelist s') xs v"
    using lseg_set_last [OF seg, of v] all_apartD [OF ap] by (auto simp: s')
  show "same_block (hmem s) (hmem s') b" if "\<And>x. x \<in> set xs \<Longrightarrow> apart 16 x 16 b"
    using that [of "last xs"] by (auto simp: s' same_block_writes)
  show "block_size (hmem s') b = block_size (hmem s) b \<and> block_magic (hmem s') b = block_magic (hmem s) b"
    if "b \<in> set xs"
    using all_apartD [OF ap, of "last xs" b] that by (cases "b = last xs") (auto simp: s' header_other)
  show "hmem s' z = hmem s z" if "\<And>x. x \<in> set xs \<Longrightarrow> 16 \<le> unat (z - x)"
    using that [of "last xs"] by (auto simp: s' header_byte)
qed

lemma byte_outside:
  assumes "unat h + n \<le> 2 ^ 64" "unat x \<notin> {unat h..<unat h + n}"
  shows "n \<le> unat (x - h :: u64)"
proof (cases "h \<le> x")
  case True
  then show ?thesis using assms by (simp add: unat_sub word_le_nat_alt)
next
  case False
  then have "unat (x - h) = 2 ^ 64 - (unat h - unat x)" using unat_dist_rev [of x h] by (simp add: not_le)
  then show ?thesis using assms False by (simp add: word_le_nat_alt)
qed

text \<open>The free list with \<open>b\<close> replaced by the blocks \<open>zs\<close>, and what \<open>b\<close> is used for.\<close>

lemma heap_wf_apart:
  assumes "heap_wf F U s" and "A \<subseteq> set F \<union> U"
  shows "all_apart A"
proof -
  have "layout (hmem s) (set F \<union> U) (unat HEAP_VA_BASE) (unat (heap_brk s))" using assms(1) by (simp add: heap_wf_def)
  from layout_apart [OF this] show ?thesis using assms(2) by (auto simp: all_apart_def)
qed

lemma heap_wf_far:
  assumes "heap_wf F U s" "unat z \<notin> (\<Union>x\<in>set F. region (hmem s) x)" "x \<in> set F"
  shows "16 \<le> unat (z - x)"
proof -
  have "layout (hmem s) (set F \<union> U) (unat HEAP_VA_BASE) (unat (heap_brk s))" using assms(1) by (simp add: heap_wf_def)
  note bx = layout_bounds [OF this UnI1 [OF assms(3)]]
  then have "unat x + 16 \<le> 2 ^ 64" using unat_lt_64 [of "heap_brk s"] by linarith
  moreover have "unat z \<notin> {unat x..<unat x + 16}" using assms(2,3) bx by (auto simp: region_def)
  ultimately show ?thesis by (rule byte_outside)
qed

lemma take_finish:
  fixes v :: u64
  assumes seg: "lseg (hmem s) (freelist s) xs q" and d: "distinct xs" "b \<notin> set xs \<union> R" "set xs \<inter> R = {}"
    and ap: "all_apart (insert b (set xs \<union> R))"
  defines "s1 \<equiv> set_prev (last_link None xs) v s"
  defines "s' \<equiv> s1\<lparr>hmem := set_next b 0 (set_magic b BMAGIC_USED (hmem s1))\<rparr>"
  shows "lseg (hmem s') (freelist s') xs v" "block_size (hmem s') b = block_size (hmem s) b"
    "block_magic (hmem s') b = BMAGIC_USED" "heap_brk s' = heap_brk s" "hvm s' = hvm s"
    "x \<in> R \<Longrightarrow> same_block (hmem s) (hmem s') x"
    "x \<in> set xs \<Longrightarrow> block_size (hmem s') x = block_size (hmem s) x \<and> block_magic (hmem s') x = block_magic (hmem s) x"
    "(\<And>x. x \<in> insert b (set xs) \<Longrightarrow> 16 \<le> unat (z - x)) \<Longrightarrow> hmem s' z = hmem s z"
proof -
  have apx: "all_apart (set xs)" by (rule all_apart_mono [OF ap]) auto
  note sp = set_prev_spec [OF seg d(1) apx, where v = v, folded s1_def]
  have bx: "apart 16 b 16 x" if "x \<in> set xs \<union> R" for x
    by (rule all_apartD [OF ap]) (use that d in auto)
  have xr: "apart 16 x 16 y" if "x \<in> set xs" "y \<in> insert b R" for x y
    by (rule all_apartD [OF ap]) (use that d in auto)
  have "lseg (hmem s') p xs q \<longleftrightarrow> lseg (hmem s1) p xs q" for p q
    by (rule lseg_cong) (use bx in \<open>simp add: s'_def header_other\<close>)
  then show "lseg (hmem s') (freelist s') xs v" using sp(1) by (simp add: s'_def)
  have b1: "same_block (hmem s) (hmem s1) b" by (rule sp(4)) (use xr in auto)
  then show b: "block_size (hmem s') b = block_size (hmem s) b" by (simp add: s'_def same_block_def)
  show "block_magic (hmem s') b = BMAGIC_USED" "heap_brk s' = heap_brk s" "hvm s' = hvm s"
    using sp(2,3) by (simp_all add: s'_def)
  show "same_block (hmem s) (hmem s') x" if "x \<in> R"
  proof -
    have "same_block (hmem s) (hmem s1) x" by (rule sp(4)) (use that xr in auto)
    then show ?thesis using bx that by (simp add: s'_def same_block_writes)
  qed
  show "block_size (hmem s') x = block_size (hmem s) x \<and> block_magic (hmem s') x = block_magic (hmem s) x"
    if "x \<in> set xs"
    using sp(5) [OF that] header_other [OF bx] that by (simp add: s'_def)
  show "hmem s' z = hmem s z" if "\<And>x. x \<in> insert b (set xs) \<Longrightarrow> 16 \<le> unat (z - x)"
    using sp(6) [of z] that by (simp add: s'_def header_byte)
qed

lemma lseg_same: "(\<And>x. x \<in> set xs \<Longrightarrow> same_block m m' x) \<Longrightarrow> lseg m' p xs q \<longleftrightarrow> lseg m p xs q"
  by (rule lseg_cong) (simp add: same_block_def)

lemma kmalloc_take_whole:
  fixes need :: u32
  assumes wf: "heap_wf (xs @ b # ys) U s" and small: "block_size (hmem s) b - need < HDR_SIZE + 16"
  defines "s' \<equiv> kmalloc_take (last_link None xs) b need s"
  shows "heap_wf (xs @ ys) (insert b U) s'" "block_size (hmem s') b = block_size (hmem s) b"
    "heap_brk s' = heap_brk s" "hvm s' = hvm s"
    "unat z \<notin> (\<Union>x\<in>set (xs @ b # ys). region (hmem s) x) \<Longrightarrow> hmem s' z = hmem s z"
proof -
  let ?q = "block_next (hmem s) b"
  have seg: "lseg (hmem s) (freelist s) xs b" "lseg (hmem s) ?q ys 0" and d: "distinct (xs @ b # ys)"
    "set (xs @ b # ys) \<inter> U = {}"
    using wf by (auto simp: heap_wf_def lseg_append)
  have s': "s' = (set_prev (last_link None xs) ?q s)\<lparr>hmem := set_next b 0 (set_magic b BMAGIC_USED
      (hmem (set_prev (last_link None xs) ?q s)))\<rparr>"
    using small by (simp add: s'_def kmalloc_take_def Let_def not_le)
  have 1: "distinct xs" "b \<notin> set xs \<union> (set ys \<union> U)" "set xs \<inter> (set ys \<union> U) = {}" using d by auto
  have 2: "all_apart (insert b (set xs \<union> (set ys \<union> U)))" by (rule heap_wf_apart [OF wf]) auto
  note t = take_finish [OF seg(1) 1 2, where v = ?q, folded s']
  show sb: "block_size (hmem s') b = block_size (hmem s) b" and fr: "heap_brk s' = heap_brk s" "hvm s' = hvm s"
    using t(2,4,5) .
  have "lseg (hmem s') ?q ys 0" using seg(2) lseg_same [of ys "hmem s" "hmem s'"] t(6) by auto
  then have "lseg (hmem s') (freelist s') (xs @ ys) 0" using t(1) by (auto simp: lseg_append)
  moreover have "layout (hmem s') (set (xs @ ys) \<union> insert b U) (unat HEAP_VA_BASE) (unat (heap_brk s'))"
  proof (subst layout_cong)
    show "block_size (hmem s') x = block_size (hmem s) x" if "x \<in> set (xs @ ys) \<union> insert b U" for x
      using that t(6,7) sb by (auto simp: same_block_def)
    show "layout (hmem s) (set (xs @ ys) \<union> insert b U) (unat HEAP_VA_BASE) (unat (heap_brk s'))"
      using wf fr(1) by (simp add: heap_wf_def)
  qed
  ultimately show "heap_wf (xs @ ys) (insert b U) s'"
    using wf t(3,6,7) by (auto simp: heap_wf_def same_block_def)
  show "hmem s' z = hmem s z" if "unat z \<notin> (\<Union>x\<in>set (xs @ b # ys). region (hmem s) x)"
    by (rule t(8)) (use heap_wf_far [OF wf that] in auto)
qed

lemma kmalloc_take_split:
  fixes need :: u32
  assumes wf: "heap_wf (xs @ b # ys) U s" and need: "16 \<le> unat need" "need \<le> block_size (hmem s) b"
    and big: "HDR_SIZE + 16 \<le> block_size (hmem s) b - need"
  defines "s' \<equiv> kmalloc_take (last_link None xs) b need s"
  shows "heap_wf (xs @ (b + ucast need) # ys) (insert b U) s'" "block_size (hmem s') b = need"
    "heap_brk s' = heap_brk s" "hvm s' = hvm s"
    "unat z \<notin> (\<Union>x\<in>set (xs @ b # ys). region (hmem s) x) \<Longrightarrow> hmem s' z = hmem s z"
proof -
  let ?m = "hmem s" and ?c = "b + ucast need" and ?B = "set (xs @ b # ys) \<union> U"
  let ?l = "block_size ?m b - need"
  have seg: "lseg ?m (freelist s) xs b" "lseg ?m (block_next ?m b) ys 0" and d: "distinct (xs @ b # ys)"
    "set (xs @ b # ys) \<inter> U = {}" and L: "layout ?m ?B (unat HEAP_VA_BASE) (unat (heap_brk s))"
    using wf by (auto simp: heap_wf_def lseg_append)
  have bnd: "unat b + unat (block_size ?m b) \<le> unat (heap_brk s)" by (rule layout_bounds [OF L]) simp
  have l: "unat ?l = unat (block_size ?m b) - unat need" "32 \<le> unat ?l"
    using need big by (simp_all add: unat_sub HDR_SIZE_def word_le_nat_alt)
  have "unat b + unat need < 2 ^ 64"
    using bnd need(2) unat_lt_64 [of "heap_brk s"] unfolding word_le_nat_alt by linarith
  then have c: "unat ?c = unat b + unat need" by (simp add: unat_word_ariths)
  have cend: "unat ?c + 16 \<le> 2 ^ 64" using bnd l c need unat_lt_64 [of "heap_brk s"]
    unfolding word_le_nat_alt by linarith
  define m1 where "m1 = set_size b need (set_next ?c (block_next ?m b) (set_magic ?c BMAGIC_FREE (set_size ?c ?l ?m)))"
  have cB: "apart 16 ?c 16 x \<and> apart 16 x 16 ?c" if x: "x \<in> ?B" for x
  proof (cases "x \<le> b")
    case True
    then have "unat x + 16 \<le> unat ?c"
      using layout_order [OF L x, of b] layout_bounds(3) [OF L x] c need(1) by (cases "x = b") (auto simp: order_le_less)
    then show ?thesis using apart_nat [of x 16 ?c 16] cend by simp
  next
    case False
    then have "unat ?c + 16 \<le> unat x" using layout_order [OF L _ x, of b] c l need by (simp add: word_le_nat_alt word_less_nat_alt)
    moreover have "unat x + 16 \<le> 2 ^ 64" using layout_bounds [OF L x] unat_lt_64 [of "heap_brk s"] by linarith
    ultimately show ?thesis using apart_nat [of ?c 16 x 16] by simp
  qed
  have bB: "all_apart ?B" by (rule heap_wf_apart [OF wf]) auto
  have m1: "same_block ?m m1 x" if "x \<in> ?B - {b}" for x
  proof -
    have "apart 16 b 16 x" by (rule all_apartD [OF bB]) (use that in auto)
    then show ?thesis using cB [of x] that by (simp add: m1_def same_block_writes)
  qed
  have m1b: "block_size m1 b = need" "block_next m1 b = block_next ?m b"
    using cB [of b] by (simp_all add: m1_def header_other)
  have m1c: "block_size m1 ?c = ?l" "block_magic m1 ?c = BMAGIC_FREE" "block_next m1 ?c = block_next ?m b"
    using cB [of b] by (simp_all add: m1_def header_other)
  have cc: "block_next (set_magic ?c BMAGIC_FREE (set_size ?c ?l ?m)) b = block_next ?m b"
    using cB [of b] by (simp add: header_other)
  define s1 where "s1 = s\<lparr>hmem := m1\<rparr>"
  have s': "s' = (set_prev (last_link None xs) ?c s1)\<lparr>hmem := set_next b 0 (set_magic b BMAGIC_USED
      (hmem (set_prev (last_link None xs) ?c s1)))\<rparr>"
    using big by (simp add: s'_def kmalloc_take_def Let_def s1_def m1_def cc)
  have cut: "?c \<notin> ?B" "layout m1 (insert ?c ?B) (unat HEAP_VA_BASE) (unat (heap_brk s))"
    using layout_split [OF L, of b "unat need" "unat ?l" ?c m1] l c m1 m1b(1) m1c(1) need
    by (auto simp: same_block_def word_le_nat_alt)
  have 1: "distinct xs" "b \<notin> set xs \<union> (insert ?c (set ys \<union> U))" "set xs \<inter> insert ?c (set ys \<union> U) = {}"
    using d cut(1) by auto
  have 2: "all_apart (insert b (set xs \<union> insert ?c (set ys \<union> U)))"
    using bB cB by (auto simp: all_apart_def)
  have seg1: "lseg (hmem s1) (freelist s1) xs b"
    using seg(1) lseg_same [of xs ?m m1] m1 d by (auto simp: s1_def)
  note t = take_finish [OF seg1 1 2, where v = ?c, folded s']
  show sb: "block_size (hmem s') b = need" and fr: "heap_brk s' = heap_brk s" "hvm s' = hvm s"
    using t(2,4,5) m1b(1) by (simp_all add: s1_def)
  have R: "same_block m1 (hmem s') x" if "x \<in> insert ?c (set ys \<union> U)" for x using t(6) [OF that] by (simp add: s1_def)
  have "lseg m1 (block_next ?m b) ys 0"
    using seg(2) lseg_same [of ys ?m m1] m1 d by auto
  then have "lseg (hmem s') (block_next ?m b) ys 0" using lseg_same [of ys m1 "hmem s'"] R by auto
  then have "lseg (hmem s') (freelist s') (xs @ ?c # ys) 0"
    using t(1) R [of ?c] m1c(3) c need(1) by (auto simp: lseg_append same_block_def)
  moreover have "layout (hmem s') (set (xs @ ?c # ys) \<union> insert b U) (unat HEAP_VA_BASE) (unat (heap_brk s'))"
  proof (subst layout_cong)
    show "block_size (hmem s') x = block_size m1 x" if "x \<in> set (xs @ ?c # ys) \<union> insert b U" for x
      using that R t(7) sb m1b(1) by (auto simp: same_block_def s1_def)
    have "set (xs @ ?c # ys) \<union> insert b U = insert ?c ?B" by auto
    then show "layout m1 (set (xs @ ?c # ys) \<union> insert b U) (unat HEAP_VA_BASE) (unat (heap_brk s'))"
      using cut(2) fr(1) by simp
  qed
  moreover have "block_magic (hmem s') x = BMAGIC_FREE" if "x \<in> set (xs @ ?c # ys)" for x
  proof -
    have "block_magic m1 x = BMAGIC_FREE" using that m1c(2) m1 [of x] wf d by (cases "x = b") (auto simp: same_block_def heap_wf_def)
    then show ?thesis using that R [of x] t(7) [of x] by (auto simp: same_block_def s1_def)
  qed
  moreover have "block_magic (hmem s') x = BMAGIC_USED" if "x \<in> insert b U" for x
    using that R [of x] m1 [of x] t(3) wf d by (cases "x = b") (auto simp: same_block_def heap_wf_def)
  ultimately show "heap_wf (xs @ ?c # ys) (insert b U) s'"
    using d cut(1) by (auto simp: heap_wf_def)
  show "hmem s' z = hmem s z" if z: "unat z \<notin> (\<Union>x\<in>set (xs @ b # ys). region (hmem s) x)"
  proof -
    have far: "16 \<le> unat (z - x)" if "x \<in> set (xs @ b # ys)" for x using heap_wf_far [OF wf z that] .
    have "unat z \<notin> {unat ?c..<unat ?c + 16}" using z l c need by (auto simp: region_def word_le_nat_alt)
    then have "16 \<le> unat (z - ?c)" by (rule byte_outside [OF cend])
    then have "m1 z = ?m z" using far [of b] by (simp add: m1_def header_byte)
    then show ?thesis using t(8) [of z] far by (auto simp: s1_def)
  qed
qed

lemma kmalloc_take_correct:
  fixes need :: u32
  assumes wf: "heap_wf (xs @ b # ys) U s" and need: "16 \<le> unat need" "need \<le> block_size (hmem s) b"
  defines "s' \<equiv> kmalloc_take (last_link None xs) b need s"
  obtains F' where "heap_wf F' (insert b U) s'" "need \<le> block_size (hmem s') b"
    "block_size (hmem s') b \<le> block_size (hmem s) b" "heap_brk s' = heap_brk s" "hvm s' = hvm s"
    "\<And>z. unat z \<notin> (\<Union>x\<in>set (xs @ b # ys). region (hmem s) x) \<Longrightarrow> hmem s' z = hmem s z"
proof (cases "HDR_SIZE + 16 \<le> block_size (hmem s) b - need")
  case True
  note t = kmalloc_take_split [OF wf need True, folded s'_def]
  show ?thesis by (rule that [OF t(1)]) (use t need in simp_all)
next
  case False
  then have "block_size (hmem s) b - need < HDR_SIZE + 16" by simp
  note t = kmalloc_take_whole [OF wf this, folded s'_def]
  show ?thesis by (rule that [OF t(1)]) (use t need in simp_all)
qed

section \<open>Growing the heap\<close>

lemma va_path_drop: "drop_bit 12 va = drop_bit 12 va' \<Longrightarrow> va_path va = va_path (va' :: u64)"
proof -
  assume a: "drop_bit 12 va = drop_bit 12 va'"
  have "drop_bit (k + 12) va = drop_bit (k + 12) va'" for k
    using arg_cong [OF a, of "drop_bit k"] by simp
  from this [of 0] this [of 9] this [of 18] this [of 27] show ?thesis
    by (simp add: va_path_def PML4_IDX_def PDPT_IDX_def PD_IDX_def PT_IDX_def)
qed

lemma unat_drop_12: "unat (drop_bit 12 (va :: u64)) = unat va div 4096"
  using unat_drop_bit_eq [of 12 va] by (simp add: drop_bit_eq_div unat_div_distrib)

lemma unat_vpage_high:
  assumes "0xFFFF000000000000 \<le> unat va"
  shows "unat (vpage va) + 0xFFFF000000000 = unat va div 4096"
proof -
  have "unat (vpage va) = (unat va div 4096) mod 2 ^ 36"
    by (simp add: vpage_def take_bit_eq_mod unat_mod_distrib unat_drop_12)
  moreover have "unat va div 4096 < 0x10000000000000"
    by (rule less_mult_imp_div_less) (use unat_lt_64_num [of va] in linarith)
  moreover have "0xFFFF000000000 \<le> unat va div 4096"
    using div_le_mono [OF assms, of 4096] by simp
  moreover have "(x mod 2 ^ 36) + 0xFFFF000000000 = x" if x: "x < 0x10000000000000" "0xFFFF000000000 \<le> x" for x :: nat
  proof -
    obtain y where y: "x = y + 0xFFFF * 2 ^ 36" using le_Suc_ex [OF x(2)] by (auto simp: add.commute)
    then have "x mod 2 ^ 36 = y" using x(1) by (simp only: mod_mult_self1) simp
    then show ?thesis using y by simp
  qed
  ultimately show ?thesis by simp
qed

text \<open>Every address of the heap is mapped, and what a call needs in order to grow it by \<open>k\<close> pages.\<close>

definition heap_backed :: "heap \<Rightarrow> bool" where
  "heap_backed s \<longleftrightarrow> unat HEAP_VA_BASE \<le> unat (heap_brk s) \<and> 4096 dvd unat (heap_brk s) \<and>
     (\<forall>va. HEAP_VA_BASE \<le> va \<and> va < heap_brk s \<longrightarrow> walk (mem (hvm s)) (pml4 (hvm s)) (va_path va) \<noteq> None)"

definition heap_room :: "nat \<Rightarrow> heap \<Rightarrow> bool" where
  "heap_room k s \<longleftrightarrow> vmm_wf (hvm s) \<and> 4 * k \<le> card (free_pages (pm (hvm s))) \<and> unat (heap_brk s) + 4096 * k < 2 ^ 64 \<and>
     (\<forall>i<k. walk (mem (hvm s)) (pml4 (hvm s)) (va_path (heap_brk s + of_nat (4096 * i))) = None)"

lemma vmm_alloc_keeps:
  assumes wf: "vmm_wf s" and a: "vmm_alloc s = (n, s')" "n \<noteq> 0"
  shows "vmm_wf s'" "walk (mem s') (pml4 s') (va_path va) = walk (mem s) (pml4 s) (va_path va)"
    "card (free_pages (pm s)) = Suc (card (free_pages (pm s')))"
proof -
  have inv: "pmm_inv (pm s)" "bitmap_len (pm s) \<le> 2 ^ 40" using wf by (simp_all add: vmm_wf_def)
  note p = vmm_alloc_page [OF inv a] and g = vmm_alloc_grows [OF inv a]
  have "pml4 s' = pml4 s" "free_pages (pm s') \<subseteq> free_pages (pm s)" using g(1) by (simp_all add: grows_def)
  note out = vmm_wf_outside [OF wf p(4,5) this(2,1)]
  show "vmm_wf s'" by (rule out) (simp add: g)
  show "walk (mem s') (pml4 s') (va_path va) = walk (mem s) (pml4 s) (va_path va)" by (rule out) (simp add: g)
  show "card (free_pages (pm s)) = Suc (card (free_pages (pm s')))"
    using p(1,3) card_Suc_Diff1 [of "free_pages (pm s)" n] by simp
qed

lemma vmm_alloc_succeeds:
  assumes "vmm_wf s" "free_pages (pm s) \<noteq> {}" "vmm_alloc s = (n, s')"
  shows "n \<noteq> 0"
  using assms pmm_pages.alloc_none [of "pm s"] by (auto simp: vmm_wf_def vmm_alloc_def split: prod.splits)

lemma grow_page_total:
  assumes room: "heap_room (Suc k) s" and bk: "heap_backed s"
  obtains s' where "grow_page s = Inr s'" "heap_room k s'" "heap_backed s'" "hmem s' = hmem s"
    "freelist s' = freelist s" "unat (heap_brk s') = unat (heap_brk s) + 4096"
proof -
  let ?b = "heap_brk s" and ?f = "VMM_PRESENT OR VMM_WRITE OR VMM_NOEXEC"
  have wf: "vmm_wf (hvm s)" and card: "4 * Suc k \<le> card (free_pages (pm (hvm s)))"
    and lt: "unat ?b + 4096 * Suc k < 2 ^ 64"
    using room unfolding heap_room_def by blast+
  have un: "walk (mem (hvm s)) (pml4 (hvm s)) (va_path (?b + of_nat (4096 * i))) = None" if "i < Suc k" for i
    using room that unfolding heap_room_def by blast
  obtain p v where a: "vmm_alloc (hvm s) = (p, v)" by force
  have "free_pages (pm (hvm s)) \<noteq> {}" using card by auto
  then have p: "p \<noteq> 0" using vmm_alloc_succeeds [OF wf _ a] by simp
  note al = vmm_alloc_keeps [OF wf a p]
  have "3 \<le> card (free_pages (pm v))" using al(3) card by simp
  moreover have "walk (mem v) (pml4 v) (va_path ?b) = None" using al(2) un [of 0] by simp
  ultimately obtain v' where m: "vmm_map ?b p ?f v = Inr v'"
    and c: "card (free_pages (pm v)) \<le> card (free_pages (pm v')) + 3"
    using vmm_map_total [OF al(1)] by blast
  note r = vmm_map_result [OF al(1) m]
  define s' where "s' = s\<lparr>hvm := v', heap_brk := ?b + UIX_PAGE_SIZE\<rparr>"
  have b': "unat (?b + 4096) = unat ?b + 4096" using lt by (simp add: unat_word_ariths)
  have hi: "0xFFFF000000000000 \<le> unat ?b" using bk by (simp add: heap_backed_def HEAP_VA_BASE_def)
  have new: "walk (mem v') (pml4 v') (va_path ?b) \<noteq> None" using r(5) by (simp add: uix_const)
  have old: "walk (mem v') (pml4 v') (va_path va) = walk (mem (hvm s)) (pml4 (hvm s)) (va_path va)"
    if "0xFFFF000000000000 \<le> unat va" "unat va div 4096 \<noteq> unat ?b div 4096" for va
  proof -
    have "vpage va \<noteq> vpage ?b" using unat_vpage_high [OF that(1)] unat_vpage_high [OF hi] that(2) by auto
    then show ?thesis using r(6) al(2) by simp
  qed
  show ?thesis
  proof (rule that)
    show "grow_page s = Inr s'" using a p m by (simp add: grow_page_def s'_def)
    show "hmem s' = hmem s" "freelist s' = freelist s" "unat (heap_brk s') = unat ?b + 4096"
      using b' by (simp_all add: s'_def UIX_PAGE_SIZE_def)
    have "walk (mem v') (pml4 v') (va_path (?b + 4096 + of_nat (4096 * i))) = None" if "i < k" for i
    proof -
      have va: "?b + 4096 + of_nat (4096 * i) = ?b + of_nat (4096 * Suc i)" by simp
      have "4096 * Suc i < 4096 * Suc k" using that by simp
      then have u: "unat (?b + of_nat (4096 * Suc i)) = unat ?b + 4096 * Suc i"
        using lt by (simp add: unat_word_ariths unat_of_nat)
      have "unat (?b + of_nat (4096 * Suc i)) div 4096 = unat ?b div 4096 + Suc i"
        unfolding u by simp
      then show ?thesis unfolding va using old [of "?b + of_nat (4096 * Suc i)"] u hi un [of "Suc i"] that by simp
    qed
    then show "heap_room k s'"
      using r(1) c card al(3) lt b' by (simp add: heap_room_def s'_def UIX_PAGE_SIZE_def)
    have "walk (mem v') (pml4 v') (va_path va) \<noteq> None" if va: "HEAP_VA_BASE \<le> va" "unat va < unat ?b + 4096" for va
    proof (cases "va < ?b")
      case True
      have "unat va div 4096 \<noteq> unat ?b div 4096"
        using True bk by (auto simp: heap_backed_def word_less_nat_alt dvd_def)
      moreover have "0xFFFF000000000000 \<le> unat va" using va(1) by (simp add: HEAP_VA_BASE_def word_le_nat_alt)
      ultimately show ?thesis using old bk va True by (simp add: heap_backed_def)
    next
      case False
      then have "unat va div 4096 = unat ?b div 4096"
        using va bk by (auto simp: heap_backed_def word_less_nat_alt dvd_def)
      then have "drop_bit 12 va = drop_bit 12 ?b" by (simp add: word_unat_eq_iff unat_drop_12)
      then show ?thesis using new va_path_drop by metis
    qed
    then show "heap_backed s'"
      using bk b' by (simp add: heap_backed_def s'_def UIX_PAGE_SIZE_def word_less_nat_alt)
  qed
qed

lemma grow_total:
  assumes "heap_room (unat n + k) s" and "heap_backed s"
  obtains s' where "grow n s = Inr s'" "heap_room k s'" "heap_backed s'" "hmem s' = hmem s"
    "freelist s' = freelist s" "unat (heap_brk s') = unat (heap_brk s) + 4096 * unat n"
proof -
  have "\<exists>s'. for_res (\<lambda>_. grow_page) is s = Inr s' \<and> heap_room k s' \<and> heap_backed s' \<and> hmem s' = hmem s \<and>
      freelist s' = freelist s \<and> unat (heap_brk s') = unat (heap_brk s) + 4096 * length is"
    if "heap_room (length is + k) s" "heap_backed s" for "is" :: "nat list" and s
    using that
  proof (induction "is" arbitrary: s)
    case (Cons i "is")
    then have "heap_room (Suc (length is + k)) s" by simp
    then obtain t where t: "grow_page s = Inr t" "heap_room (length is + k) t" "heap_backed t" "hmem t = hmem s"
      "freelist t = freelist s" "unat (heap_brk t) = unat (heap_brk s) + 4096"
      using Cons.prems(2) by (rule grow_page_total)
    show ?case using Cons.IH [OF t(2,3)] t by auto
  qed simp
  from this [of "[0..<unat n]" s] show ?thesis using assms that by (auto simp: grow_def)
qed

lemma layout_extend:
  assumes L: "layout m B lo hi" and b: "unat b = hi" "16 \<le> unat (block_size m' b)" "lo \<le> hi"
    and same: "\<And>x. x \<in> B \<Longrightarrow> block_size m' x = block_size m x"
  shows "layout m' (insert b B) lo (hi + unat (block_size m' b))" "b \<notin> B"
proof -
  have r: "region m' x = region m x" "region m' x \<subseteq> {lo..<hi}" if "x \<in> B" for x
    using region_cong [OF same [OF that]] layout_bounds(1,2) [OF L that] by (auto simp: region_def)
  have rb: "region m' b = {hi..<hi + unat (block_size m' b)}" using b(1) by (simp add: region_def)
  show "b \<notin> B" using layout_bounds [OF L, of b] b(1) by auto
  have U: "(\<Union>x\<in>insert b B. region m' x) = {lo..<hi + unat (block_size m' b)}"
  proof -
    have "(\<Union>x\<in>B. region m' x) = {lo..<hi}" using L r(1) by (simp add: layout_def)
    then show ?thesis using rb b(3) by auto
  qed
  have dis: "region m' x \<inter> region m' b = {}" if "x \<in> B" for x using r(2) [OF that] rb by fastforce
  have "region m' x \<inter> region m' y = {}" if "x \<in> insert b B" "y \<in> insert b B" "x \<noteq> y" for x y
    using that dis [of x] dis [of y] layout_sep [OF L, of x y] r(1) [of x] r(1) [of y] by fastforce
  then show "layout m' (insert b B) lo (hi + unat (block_size m' b))"
    using L U b(2) same unfolding layout_def by (metis finite.insertI insert_iff)
qed

lemma free_block_wf:
  assumes L: "layout (hmem s) (set F \<union> U) (unat HEAP_VA_BASE) (unat nb)" and seg: "lseg (hmem s) nxt F 0"
    and m: "distinct F" "set F \<inter> U = {}" "\<forall>b\<in>set F. block_magic (hmem s) b = BMAGIC_FREE"
      "\<forall>b\<in>U. block_magic (hmem s) b = BMAGIC_USED"
    and brk: "unat (heap_brk s) = unat nb + 65536" "unat HEAP_VA_BASE \<le> unat nb"
  defines "s' \<equiv> free_block nb nxt s"
  shows "heap_wf (nb # F) U s'" "heap_brk s' = heap_brk s" "hvm s' = hvm s"
    and "block_size (hmem s') nb = 65536"
    and "unat z < unat nb \<Longrightarrow> hmem s' z = hmem s z"
proof -
  show "heap_brk s' = heap_brk s" "hvm s' = hvm s" by (simp_all add: s'_def free_block_def)
  have lt: "unat nb + 65536 < 2 ^ 64" using brk(1) unat_lt_64 [of "heap_brk s"] by simp
  have same: "same_block (hmem s) (hmem s') x" if x: "x \<in> set F \<union> U" for x
  proof -
    have "unat x + 16 \<le> unat nb" using layout_bounds [OF L x] by linarith
    then have "apart 16 nb 16 x" using apart_nat [of x 16 nb 16] lt by simp
    then show ?thesis by (simp add: s'_def free_block_def same_block_writes)
  qed
  have nb: "block_size (hmem s') nb = 65536" "block_magic (hmem s') nb = BMAGIC_FREE" "block_next (hmem s') nb = nxt"
    by (simp_all add: s'_def free_block_def SUPER_PAGES_def UIX_PAGE_SIZE_def)
  then show "block_size (hmem s') nb = 65536" by simp
  have "layout (hmem s') (insert nb (set F \<union> U)) (unat HEAP_VA_BASE) (unat nb + unat (block_size (hmem s') nb))" "nb \<notin> set F \<union> U"
    by (rule layout_extend [OF L refl, where m' = "hmem s'"]; use nb brk same in \<open>simp add: same_block_def\<close>)+
  moreover have "lseg (hmem s') nxt F 0" using seg lseg_same [of F "hmem s" "hmem s'"] same by auto
  moreover have "nb \<noteq> 0" using brk(2) by (auto simp: HEAP_VA_BASE_def)
  moreover have "freelist s' = nb" by (simp add: s'_def free_block_def)
  ultimately show "heap_wf (nb # F) U s'"
    using nb m same brk by (auto simp: heap_wf_def same_block_def s'_def free_block_def)
  show "hmem s' z = hmem s z" if "unat z < unat nb"
  proof -
    have "16 \<le> unat (z - nb)" by (rule byte_outside) (use lt that in simp_all)
    then show ?thesis by (simp add: s'_def free_block_def header_byte)
  qed
qed

lemma heap_grow:
  assumes wf: "heap_wf F U s" and bk: "heap_backed s" and room: "heap_room 16 s"
  obtains t where "grow SUPER_PAGES s = Inr t"
    "heap_wf (heap_brk s # F) U (free_block (heap_brk t - SUPER_PAGES * UIX_PAGE_SIZE) (freelist t) t)"
    "heap_backed (free_block (heap_brk t - SUPER_PAGES * UIX_PAGE_SIZE) (freelist t) t)"
    "block_size (hmem (free_block (heap_brk t - SUPER_PAGES * UIX_PAGE_SIZE) (freelist t) t)) (heap_brk s) = 65536"
    "\<And>z. unat z < unat (heap_brk s) \<Longrightarrow>
       hmem (free_block (heap_brk t - SUPER_PAGES * UIX_PAGE_SIZE) (freelist t) t) z = hmem s z"
proof -
  have "heap_room (unat SUPER_PAGES + 0) s" using room by (simp add: SUPER_PAGES_def)
  then obtain t where t: "grow SUPER_PAGES s = Inr t" "heap_backed t" "hmem t = hmem s" "freelist t = freelist s"
    "unat (heap_brk t) = unat (heap_brk s) + 65536"
    using bk by (rule grow_total) (simp add: SUPER_PAGES_def)
  have "heap_brk t = heap_brk s + 65536"
    using t(5) unat_lt_64 [of "heap_brk t"] by (simp add: word_unat_eq_iff unat_word_ariths)
  then have nb: "heap_brk t - SUPER_PAGES * UIX_PAGE_SIZE = heap_brk s"
    by (simp add: SUPER_PAGES_def UIX_PAGE_SIZE_def)
  have "unat HEAP_VA_BASE \<le> unat (heap_brk s)" using bk by (simp add: heap_backed_def)
  note f = free_block_wf [of t F U "heap_brk s" "freelist t", OF _ _ _ _ _ _ t(5) this]
  show ?thesis
  proof (rule that [OF t(1)])
    show "heap_wf (heap_brk s # F) U (free_block (heap_brk t - SUPER_PAGES * UIX_PAGE_SIZE) (freelist t) t)"
      unfolding nb using wf t by (intro f) (auto simp: heap_wf_def)
    show "heap_backed (free_block (heap_brk t - SUPER_PAGES * UIX_PAGE_SIZE) (freelist t) t)"
      using t(2) by (simp add: heap_backed_def free_block_def)
    show "block_size (hmem (free_block (heap_brk t - SUPER_PAGES * UIX_PAGE_SIZE) (freelist t) t)) (heap_brk s) = 65536"
      unfolding nb using wf t by (intro f) (auto simp: heap_wf_def)
    show "hmem (free_block (heap_brk t - SUPER_PAGES * UIX_PAGE_SIZE) (freelist t) t) z = hmem s z"
      if "unat z < unat (heap_brk s)" for z
      unfolding nb t(3) [symmetric] using wf t that by (intro f) (auto simp: heap_wf_def)
  qed
qed

lemma first_fit_split:
  assumes "\<exists>x\<in>set F. need \<le> (f x :: u32)"
  obtains xs b ys where "F = xs @ b # ys" "\<And>x. x \<in> set xs \<Longrightarrow> f x < need" "need \<le> f b"
  using split_list_first_prop [OF assms] by (metis not_le)

lemma kmalloc_found:
  assumes "n \<noteq> 0" "n + ucast HDR_SIZE \<le> HEAP_MAX" "ucast n + HDR_SIZE = need"
    "kmalloc_find (hmem s) need None (freelist s) = Some (Inr (Some (prev, b)))"
  shows "kmalloc n s = Some (Inr (b + 16, kmalloc_take prev b need s))"
proof -
  have "ucast HDR_SIZE = (16 :: u64)" by (simp add: HDR_SIZE_def)
  moreover have "\<not> (n = 0 \<or> n + ucast HDR_SIZE > HEAP_MAX)" using assms(1,2) by (simp add: not_less)
  ultimately show ?thesis using assms(3,4) by (subst kmalloc.simps) (simp add: Let_def)
qed

text \<open>One round of \<^verbatim>\<open>kmalloc\<close>: some block of the list fits.\<close>

lemma kmalloc_fit:
  assumes wf: "heap_wf F U s" and n: "0 < n" "unat n \<le> 32752" and fit: "\<exists>x\<in>set F. ucast n + 16 \<le> block_size (hmem s) x"
  shows "\<exists>b s' F'. kmalloc n s = Some (Inr (b + 16, s')) \<and> b \<in> set F \<and> heap_wf F' (insert b U) s' \<and>
    heap_brk s' = heap_brk s \<and> hvm s' = hvm s \<and> unat n + 16 \<le> unat (block_size (hmem s') b) \<and>
    region (hmem s') b \<subseteq> region (hmem s) b \<and>
    (\<forall>z. unat z \<notin> (\<Union>x\<in>set F. region (hmem s) x) \<longrightarrow> hmem s' z = hmem s z)"
proof -
  let ?need = "ucast n + 16 :: u32"
  have un: "unat ?need = unat n + 16"
    using n(2) by (simp add: unat_word_ariths unsigned_ucast_eq take_bit_eq_mod)
  obtain xs b ys where F: "F = xs @ b # ys" "\<And>x. x \<in> set xs \<Longrightarrow> block_size (hmem s) x < ?need" "?need \<le> block_size (hmem s) b"
    using first_fit_split [OF fit] by metis
  have find: "kmalloc_find (hmem s) ?need None (freelist s) = Some (Inr (Some (last_link None xs, b)))"
    by (rule kmalloc_find_fit [where ys = ys]) (use wf F in \<open>auto simp: heap_wf_def\<close>)
  have "n \<noteq> 0" "n + ucast HDR_SIZE \<le> HEAP_MAX"
    using n by (auto simp: HDR_SIZE_def HEAP_MAX_def word_le_nat_alt unat_word_ariths)
  then have k: "kmalloc n s = Some (Inr (b + 16, kmalloc_take (last_link None xs) b ?need s))"
    by (rule kmalloc_found) (simp_all add: HDR_SIZE_def find)
  have "16 \<le> unat ?need" using un by simp
  then obtain F' where "heap_wf F' (insert b U) (kmalloc_take (last_link None xs) b ?need s)"
    "?need \<le> block_size (hmem (kmalloc_take (last_link None xs) b ?need s)) b"
    "block_size (hmem (kmalloc_take (last_link None xs) b ?need s)) b \<le> block_size (hmem s) b"
    "heap_brk (kmalloc_take (last_link None xs) b ?need s) = heap_brk s" "hvm (kmalloc_take (last_link None xs) b ?need s) = hvm s"
    "\<And>z. unat z \<notin> (\<Union>x\<in>set F. region (hmem s) x) \<Longrightarrow> hmem (kmalloc_take (last_link None xs) b ?need s) z = hmem s z"
    using kmalloc_take_correct [OF wf [unfolded F(1)] _ F(3)] F(1) by metis
  then show ?thesis using k F(1) un by (auto simp: region_def word_le_nat_alt intro!: exI [of _ b] exI [of _ F'])
qed

lemma kmalloc_grows:
  assumes wf: "heap_wf F U s" and n: "0 < n" "unat n \<le> 32752"
    and none: "\<not> (\<exists>x\<in>set F. ucast n + 16 \<le> block_size (hmem s) x)" and g: "grow SUPER_PAGES s = Inr t"
  shows "kmalloc n s = kmalloc n (free_block (heap_brk t - SUPER_PAGES * UIX_PAGE_SIZE) (freelist t) t)"
proof -
  have "kmalloc_find (hmem s) (ucast n + 16) None (freelist s) = Some (Inr None)"
    by (rule kmalloc_find_none [where xs = F]) (use wf none in \<open>auto simp: heap_wf_def not_le\<close>)
  moreover have "\<not> (n = 0 \<or> n + ucast HDR_SIZE > HEAP_MAX)"
    using n by (auto simp: HDR_SIZE_def HEAP_MAX_def word_less_nat_alt unat_word_ariths)
  ultimately show ?thesis using g by (subst kmalloc.simps) (simp add: Let_def HDR_SIZE_def)
qed

lemma same_block_bytes:
  assumes "unat c + 16 \<le> 2 ^ 64" and "\<And>z. unat c \<le> unat z \<Longrightarrow> unat z < unat c + 16 \<Longrightarrow> m' z = m z"
  shows "same_block m m' c"
proof -
  have near: "m' z = m z" if z: "unat (z - c) < 16" for z
  proof (rule assms(2))
    have "\<not> unat z \<notin> {unat c..<unat c + 16}" using byte_outside [OF assms(1), of z] z by linarith
    then show "unat c \<le> unat z" "unat z < unat c + 16" by auto
  qed
  have off: "m' z = m z" if "unat (z - (c + of_nat k)) < j" "k + j \<le> 16" for z k j
  proof (rule near)
    show "unat (z - c) < 16"
      using unat_dist_add [of k z c] that by (auto split: if_splits)
  qed
  have "get32 m' c = get32 m c" by (rule get_cong) (use off [of _ 0 4] in simp)
  moreover have "get32 m' (c + 4) = get32 m (c + 4)" by (rule get_cong) (use off [of _ 4 4] in simp)
  moreover have "get64 m' (c + 8) = get64 m (c + 8)" by (rule get_cong) (use off [of _ 8 8] in simp)
  ultimately show ?thesis by (simp add: same_block_def header_defs)
qed

lemma heap_wf_bounds:
  assumes "heap_wf F U s" "c \<in> set F \<union> U"
  shows "unat HEAP_VA_BASE \<le> unat c" "unat c + unat (block_size (hmem s) c) \<le> unat (heap_brk s)"
    "16 \<le> unat (block_size (hmem s) c)" "unat c + 16 \<le> 2 ^ 64"
proof -
  have "layout (hmem s) (set F \<union> U) (unat HEAP_VA_BASE) (unat (heap_brk s))" using assms(1) by (simp add: heap_wf_def)
  note b = layout_bounds [OF this assms(2)]
  then show "unat HEAP_VA_BASE \<le> unat c" "unat c + unat (block_size (hmem s) c) \<le> unat (heap_brk s)"
    "16 \<le> unat (block_size (hmem s) c)" by simp_all
  then show "unat c + 16 \<le> 2 ^ 64" using unat_lt_64 [of "heap_brk s"] by linarith
qed

text \<open>A client that writes into the blocks it was given does not disturb the heap.\<close>

lemma heap_wf_client_write:
  assumes wf: "heap_wf F U s"
    and pay: "\<And>z. m' z \<noteq> hmem s z \<Longrightarrow> \<exists>b\<in>U. unat b + 16 \<le> unat z \<and> unat z < unat b + unat (block_size (hmem s) b)"
  shows "heap_wf F U (s\<lparr>hmem := m'\<rparr>)" "c \<in> set F \<union> U \<Longrightarrow> same_block (hmem s) m' c"
proof -
  have L: "layout (hmem s) (set F \<union> U) (unat HEAP_VA_BASE) (unat (heap_brk s))" using wf by (simp add: heap_wf_def)
  have same: "same_block (hmem s) m' c" if c: "c \<in> set F \<union> U" for c
  proof (rule same_block_bytes [OF heap_wf_bounds(4) [OF wf c]], rule ccontr)
    fix z assume z: "unat c \<le> unat z" "unat z < unat c + 16" "m' z \<noteq> hmem s z"
    then obtain b where b: "b \<in> U" "unat b + 16 \<le> unat z" "unat z < unat b + unat (block_size (hmem s) b)"
      using pay by blast
    then have "c \<noteq> b" "unat z \<in> region (hmem s) c" "unat z \<in> region (hmem s) b"
      using z heap_wf_bounds(3) [OF wf c] by (auto simp: region_def)
    then show False using layout_sep [OF L c UnI2 [OF b(1)]] by blast
  qed
  then show "c \<in> set F \<union> U \<Longrightarrow> same_block (hmem s) m' c" .
  have "layout m' (set F \<union> U) (unat HEAP_VA_BASE) (unat (heap_brk s))"
    using L layout_cong [of "set F \<union> U" m' "hmem s"] same by (simp add: same_block_def)
  moreover have "lseg m' (freelist s) F 0" using wf lseg_same [of F "hmem s" m'] same by (auto simp: heap_wf_def)
  ultimately show "heap_wf F U (s\<lparr>hmem := m'\<rparr>)"
    using wf same by (simp add: heap_wf_def same_block_def)
qed

lemma used_regions_kept:
  assumes "heap_wf F U s" "c \<in> U" "unat z \<in> region (hmem s) c"
  shows "unat z \<notin> (\<Union>x\<in>set F. region (hmem s) x)" "unat z < unat (heap_brk s)"
proof -
  have L: "layout (hmem s) (set F \<union> U) (unat HEAP_VA_BASE) (unat (heap_brk s))" and d: "set F \<inter> U = {}"
    using assms(1) by (simp_all add: heap_wf_def)
  show "unat z \<notin> (\<Union>x\<in>set F. region (hmem s) x)"
  proof
    assume "unat z \<in> (\<Union>x\<in>set F. region (hmem s) x)"
    then obtain x where x: "x \<in> set F" "unat z \<in> region (hmem s) x" by blast
    then have "x \<noteq> c" using d assms(2) by auto
    then show False using layout_sep [OF L, of x c] x assms by auto
  qed
  show "unat z < unat (heap_brk s)" using layout_bounds [OF L, of c] assms by (auto simp: region_def)
qed

lemma kmalloc_ok:
  assumes wf: "heap_wf F U s" and bk: "heap_backed s" and room: "heap_room 16 s" and n: "0 < n" "unat n \<le> 32752"
  shows "\<exists>b s' F'. kmalloc n s = Some (Inr (b + 16, s')) \<and> b \<notin> U \<and> heap_wf F' (insert b U) s' \<and> heap_backed s' \<and>
    unat n + 16 \<le> unat (block_size (hmem s') b) \<and>
    (\<forall>c\<in>U. \<forall>z. unat z \<in> region (hmem s) c \<longrightarrow> hmem s' z = hmem s z)"
proof (cases "\<exists>x\<in>set F. ucast n + 16 \<le> block_size (hmem s) x")
  case True
  from kmalloc_fit [OF wf n True] obtain b s' F' where k: "kmalloc n s = Some (Inr (b + 16, s'))" "b \<in> set F"
    "heap_wf F' (insert b U) s'" "heap_brk s' = heap_brk s" "hvm s' = hvm s" "unat n + 16 \<le> unat (block_size (hmem s') b)"
    "\<forall>z. unat z \<notin> (\<Union>x\<in>set F. region (hmem s) x) \<longrightarrow> hmem s' z = hmem s z"
    by blast
  have "b \<notin> U" using k(2) wf by (auto simp: heap_wf_def)
  moreover have "heap_backed s'" using bk k(4,5) by (simp add: heap_backed_def)
  ultimately show ?thesis using k used_regions_kept [OF wf] by blast
next
  case False
  from heap_grow [OF wf bk room] obtain t r where t: "grow SUPER_PAGES s = Inr t"
    "r = free_block (heap_brk t - SUPER_PAGES * UIX_PAGE_SIZE) (freelist t) t"
    "heap_wf (heap_brk s # F) U r" "heap_backed r" "block_size (hmem r) (heap_brk s) = 65536"
    "\<And>z. unat z < unat (heap_brk s) \<Longrightarrow> hmem r z = hmem s z"
    by metis
  have kr: "kmalloc n s = kmalloc n r" using kmalloc_grows [OF wf n False t(1)] t(2) by simp
  have "ucast n + 16 \<le> (65536 :: u32)"
    using n(2) by (simp add: word_le_nat_alt unat_word_ariths unsigned_ucast_eq take_bit_eq_mod)
  then have "\<exists>x\<in>set (heap_brk s # F). ucast n + 16 \<le> block_size (hmem r) x" using t(5) by simp
  from kmalloc_fit [OF t(3) n this] obtain b s' F' where k: "kmalloc n r = Some (Inr (b + 16, s'))" "b \<in> set (heap_brk s # F)"
    "heap_wf F' (insert b U) s'" "heap_brk s' = heap_brk r" "hvm s' = hvm r" "unat n + 16 \<le> unat (block_size (hmem s') b)"
    "\<forall>z. unat z \<notin> (\<Union>x\<in>set (heap_brk s # F). region (hmem r) x) \<longrightarrow> hmem s' z = hmem r z"
    by blast
  have "b \<notin> U" using k(2) t(3) by (auto simp: heap_wf_def)
  moreover have "heap_backed s'" using t(4) k(4,5) by (simp add: heap_backed_def)
  moreover have "hmem s' z = hmem s z" if c: "c \<in> U" "unat z \<in> region (hmem s) c" for c z
  proof -
    have "same_block (hmem s) (hmem r) c"
      by (rule same_block_bytes) (use heap_wf_bounds [OF wf, of c] c(1) t(6) in simp_all)
    then have "unat z \<in> region (hmem r) c" using c(2) by (simp add: region_def same_block_def)
    then have "hmem s' z = hmem r z" using k(7) used_regions_kept(1) [OF t(3) c(1)] by blast
    then show ?thesis using t(6) used_regions_kept(2) [OF wf c] by simp
  qed
  ultimately show ?thesis using k kr by auto
qed

text \<open>
  Claim C5. A request of 1 to 32752 bytes on a well-formed heap that can grow is always served:
  \<^verbatim>\<open>kmalloc\<close> returns a block of its own, at least as large as asked for, that was free memory
  before; the heap stays well formed and backed by mapped pages; and no byte of a block handed out
  earlier changes.
\<close>

theorem kmalloc_correct:
  assumes wf: "heap_wf F U s" and bk: "heap_backed s" and room: "heap_room 16 s" and n: "0 < n" "unat n \<le> 32752"
  shows "\<exists>b s' F'. kmalloc n s = Some (Inr (b + 16, s')) \<and> b \<notin> U \<and> heap_wf F' (insert b U) s' \<and> heap_backed s' \<and>
    unat n + 16 \<le> unat (block_size (hmem s') b) \<and>
    (\<forall>c\<in>U. \<forall>z. unat z \<in> region (hmem s) c \<longrightarrow> hmem s' z = hmem s z)"
  using kmalloc_ok [OF assms] .

section \<open>The insertion sort of kfree\<close>

definition insert_after :: "u64 \<Rightarrow> u64 list \<Rightarrow> u64 list" where
  "insert_after key xs = takeWhile (\<lambda>x. x \<le> key) xs @ key # dropWhile (\<lambda>x. x \<le> key) xs"

lemma insert_after_snoc: "key < y \<Longrightarrow> insert_after key (xs @ [y]) = insert_after key xs @ [y]"
  by (induction xs) (auto simp: insert_after_def)

lemma isort_shift_insert:
  assumes "j < length arr" "sorted (take j arr)"
  shows "isort_shift arr key j = insert_after key (take j arr) @ drop (Suc j) arr"
  using assms
proof (induction j arbitrary: arr)
  case 0
  then show ?case by (cases arr) (simp_all add: insert_after_def)
next
  case (Suc j)
  have t: "take (Suc j) arr = take j arr @ [arr ! j]" using Suc.prems by (simp add: take_Suc_conv_app_nth)
  show ?case
  proof (cases "arr ! j > key")
    case True
    let ?arr = "arr[Suc j := arr ! j]"
    have "isort_shift ?arr key j = insert_after key (take j ?arr) @ drop (Suc j) ?arr"
      by (rule Suc.IH) (use Suc.prems t in \<open>simp_all add: sorted_append\<close>)
    moreover have "drop (Suc j) ?arr = arr ! j # drop (Suc (Suc j)) arr"
      using Suc.prems by (simp add: drop_update_swap Cons_nth_drop_Suc [symmetric])
    ultimately show ?thesis using True by (simp add: t insert_after_snoc)
  next
    case False
    then have "\<forall>x\<in>set (take (Suc j) arr). x \<le> key" using Suc.prems(2) by (auto simp: t sorted_append)
    then have "insert_after key (take (Suc j) arr) = take (Suc j) arr @ [key]"
      unfolding insert_after_def by (simp add: takeWhile_eq_all_conv [THEN iffD2] dropWhile_eq_Nil_conv [THEN iffD2] del: take_Suc)
    then show ?thesis using False Suc.prems(1) by (simp add: upd_conv_take_nth_drop)
  qed
qed

lemma insert_after_sorted: "sorted xs \<Longrightarrow> sorted (insert_after key xs)"
proof (induction xs)
  case (Cons x xs)
  then show ?case
    by (cases "x \<le> key") (auto simp: insert_after_def dest: set_takeWhileD set_dropWhileD)
qed (simp add: insert_after_def)

lemma insert_after_mset: "mset (insert_after key xs) = add_mset key (mset xs)"
proof -
  have "mset xs = mset (takeWhile (\<lambda>x. x \<le> key) xs) + mset (dropWhile (\<lambda>x. x \<le> key) xs)"
    by (metis mset_append takeWhile_dropWhile_id)
  then show ?thesis by (simp add: insert_after_def)
qed

lemma kfree_sort_prefix:
  assumes "k \<le> length arr" and "r = fold (\<lambda>i arr. isort_shift arr (arr ! i) i) [1..<k] arr"
  shows "length r = length arr \<and> sorted (take k r) \<and> mset r = mset arr"
  using assms
proof (induction k arbitrary: r)
  case (Suc k)
  show ?case
  proof (cases "k = 0")
    case True
    then show ?thesis using Suc.prems by (cases arr) simp_all
  next
    case False
    define q where "q = fold (\<lambda>i arr. isort_shift arr (arr ! i) i) [1..<k] arr"
    have q: "length q = length arr" "sorted (take k q)" "mset q = mset arr"
      using Suc.IH [OF _ q_def] Suc.prems(1) by simp_all
    have r: "r = insert_after (q ! k) (take k q) @ drop (Suc k) q"
      using False Suc.prems q isort_shift_insert [of k q "q ! k"] by (simp add: q_def)
    have q': "take k q @ q ! k # drop (Suc k) q = q" using q(1) Suc.prems(1) by (simp add: id_take_nth_drop [symmetric])
    have len: "length (insert_after (q ! k) (take k q)) = Suc k"
      using arg_cong [OF insert_after_mset [of "q ! k" "take k q"], of size] q(1) Suc.prems(1) by simp
    have "mset r = mset (take k q @ q ! k # drop (Suc k) q)" by (simp add: r insert_after_mset)
    then have "mset r = mset arr" using q(3) q' by simp
    moreover have "sorted (take (Suc k) r)" using len q(2) insert_after_sorted by (simp add: r)
    ultimately show ?thesis by (metis size_mset)
  qed
qed simp

text \<open>The insertion sort sorts.\<close>

lemma kfree_sort_sort: "kfree_sort arr = sort arr"
proof -
  have "length (kfree_sort arr) = length arr \<and> sorted (take (length arr) (kfree_sort arr)) \<and> mset (kfree_sort arr) = mset arr"
    by (rule kfree_sort_prefix) (simp_all add: kfree_sort_def)
  then have "mset (kfree_sort arr) = mset arr" "sorted (kfree_sort arr)" by (auto simp: take_all)
  then show ?thesis by (rule properties_for_sort [symmetric])
qed

section \<open>The merge loop of kfree\<close>

text \<open>
  \<open>L\<close> are the blocks already linked, \<open>rs\<close> the sorted blocks still to come. No linked block ends
  where another linked block starts.
\<close>

definition unmerged :: "bytes \<Rightarrow> u64 list \<Rightarrow> bool" where
  "unmerged m L \<longleftrightarrow> (\<forall>x\<in>set L. \<forall>y\<in>set L. unat x + unat (block_size m x) \<noteq> unat y)"

definition merge_inv :: "u64 set \<Rightarrow> u64 list \<Rightarrow> u64 list \<Rightarrow> heap \<Rightarrow> bool" where
  "merge_inv U L rs s \<longleftrightarrow> lseg (hmem s) (freelist s) L 0 \<and> sorted_wrt (<) (L @ rs) \<and> set (L @ rs) \<inter> U = {} \<and>
     0 \<notin> set rs \<and> (\<forall>b\<in>set (L @ rs). block_magic (hmem s) b = BMAGIC_FREE) \<and>
     layout (hmem s) (set (L @ rs) \<union> U) (unat HEAP_VA_BASE) (unat (heap_brk s)) \<and> unmerged (hmem s) L"

definition kept :: "u64 set \<Rightarrow> heap \<Rightarrow> heap \<Rightarrow> bool" where
  "kept U s s' \<longleftrightarrow> heap_brk s' = heap_brk s \<and> hvm s' = hvm s \<and>
     (\<forall>b\<in>U. region (hmem s') b = region (hmem s) b \<and> (\<forall>z. unat z \<in> region (hmem s) b \<longrightarrow> hmem s' z = hmem s z))"

lemma kept_refl [simp]: "kept U s s"
  by (simp add: kept_def)

lemma kept_trans: "kept U s t \<Longrightarrow> kept U t u \<Longrightarrow> kept U s u"
  by (auto simp: kept_def)

lemma kept_same_block:
  assumes "kept U s s'" "b \<in> U" "16 \<le> unat (block_size (hmem s) b)" "unat b + 16 \<le> 2 ^ 64"
  shows "same_block (hmem s) (hmem s') b"
  by (rule same_block_bytes) (use assms in \<open>auto simp: kept_def region_def\<close>)

lemma layout_far:
  assumes L: "layout m B lo hi" "hi \<le> 2 ^ 64" and b: "b \<in> B" "c \<in> B" "b \<noteq> c" "unat z \<in> region m b"
  shows "16 \<le> unat (z - c)"
proof (rule byte_outside)
  show "unat c + 16 \<le> 2 ^ 64" using layout_bounds [OF L(1) b(2)] L(2) by simp
  show "unat z \<notin> {unat c..<unat c + 16}"
    using layout_sep [OF L(1) b(1-3)] layout_bounds(3) [OF L(1) b(2)] b(4) by (auto simp: region_def)
qed

lemma kept_header_write:
  assumes L: "layout (hmem s) B lo hi" "hi \<le> 2 ^ 64" and c: "c \<in> B - U" "U \<subseteq> B"
    and m: "m = set_size c v (hmem s) \<or> m = set_magic c v (hmem s) \<or> m = set_next c w (hmem s)"
  shows "kept U s (s\<lparr>hmem := m\<rparr>)"
proof -
  have "m z = hmem s z" if "b \<in> U" "unat z \<in> region (hmem s) b" for b z
  proof -
    have "16 \<le> unat (z - c)" by (rule layout_far [OF L, of b]) (use that c in auto)
    then show ?thesis using m header_byte by metis
  qed
  moreover have "region m b = region (hmem s) b" if "b \<in> U" for b
  proof -
    have "apart 16 c 16 b" by (rule layout_apart [OF L]) (use that c in auto)
    then show ?thesis using m by (auto simp: region_def header_other)
  qed
  ultimately show ?thesis by (simp add: kept_def)
qed

lemma kept_freelist: "kept U s s' \<Longrightarrow> kept U s (s'\<lparr>freelist := f\<rparr>)"
  by (simp add: kept_def)

lemma merge_step_join:
  assumes inv: "merge_inv U L (r # rs) s" and ne: "L \<noteq> []"
    and adj: "last L + ucast (block_size (hmem s) (last L)) = r"
  defines "s' \<equiv> s\<lparr>hmem := set_size (last L) (block_size (hmem s) (last L) + block_size (hmem s) r) (hmem s)\<rparr>"
  shows "merge_inv U L rs s'" "kept U s s'"
proof -
  let ?t = "last L" and ?m = "hmem s" and ?B = "set (L @ rs) \<union> U"
  have L: "layout ?m (insert r ?B) (unat HEAP_VA_BASE) (unat (heap_brk s))" and sw: "sorted_wrt (<) (L @ r # rs)"
    and dU: "set (L @ r # rs) \<inter> U = {}"
    using inv by (auto simp: merge_inv_def insert_commute)
  have t: "?t \<in> set L" "?t \<in> ?B" "?t \<noteq> r" using ne sw by (auto simp: sorted_wrt_append)
  have rB: "r \<notin> ?B" using sw dU by (auto simp: sorted_wrt_append)
  have bt: "unat ?t + unat (block_size ?m ?t) \<le> unat (heap_brk s)" by (rule layout_bounds [OF L]) (use t in simp)
  then have "unat ?t + unat (block_size ?m ?t) < 2 ^ 64" using unat_lt_64 [of "heap_brk s"] by linarith
  then have ur: "unat r = unat ?t + unat (block_size ?m ?t)" unfolding adj [symmetric] by (simp add: unat_word_ariths)
  have base: "unat HEAP_VA_BASE = 18446744070488326144" by (simp add: HEAP_VA_BASE_def)
  have "unat r + unat (block_size ?m r) \<le> unat (heap_brk s)" "unat HEAP_VA_BASE \<le> unat ?t"
    by (rule layout_bounds [OF L], use t in simp)+
  then have "unat (block_size ?m ?t) + unat (block_size ?m r) < 4294967296"
    using ur unat_lt_64_num [of "heap_brk s"] base by linarith
  then have sz: "unat (block_size ?m ?t + block_size ?m r) = unat (block_size ?m ?t) + unat (block_size ?m r)"
    by (simp add: unat_word_ariths)
  have ap: "apart 16 ?t 16 x" if "x \<in> ?B - {?t}" for x by (rule layout_apart [OF L]) (use that t in auto)
  have m': "hmem s' = set_size ?t (block_size ?m ?t + block_size ?m r) ?m" by (simp add: s'_def)
  have other: "same_block ?m (hmem s') x" if "x \<in> ?B - {?t}" for x
    using ap [OF that] by (simp add: m' same_block_writes)
  have lay: "layout (hmem s') ?B (unat HEAP_VA_BASE) (unat (heap_brk s))"
    by (rule layout_merge [OF L rB t(2) ur]) (use sz other in \<open>auto simp: m' same_block_def\<close>)
  have nx: "block_next (hmem s') x = block_next ?m x" "block_magic (hmem s') x = block_magic ?m x" if "x \<in> ?B" for x
    using other [of x] that by (cases "x = ?t"; simp add: m' same_block_def)+
  have "lseg (hmem s') (freelist s) L 0 \<longleftrightarrow> lseg ?m (freelist s) L 0" by (rule lseg_cong) (use nx in auto)
  moreover have "unmerged (hmem s') L"
  proof -
    have "unat x + unat (block_size (hmem s') x) \<noteq> unat y" if xy: "x \<in> set L" "y \<in> set L" for x y
    proof (cases "x = ?t")
      case True
      have "y \<le> ?t" using xy(2) sw by (cases L rule: rev_cases) (auto simp: sorted_wrt_append)
      then show ?thesis using True sz layout_bounds(3) [OF lay t(2)] by (auto simp: m' word_le_nat_alt)
    next
      case False
      then show ?thesis using other [of x] xy inv by (auto simp: merge_inv_def unmerged_def same_block_def)
    qed
    then show ?thesis by (simp add: unmerged_def)
  qed
  ultimately show "merge_inv U L rs s'"
    using inv lay nx by (auto simp: merge_inv_def s'_def sorted_wrt_append)
  show "kept U s s'" unfolding s'_def
    by (rule kept_header_write [OF L, of ?t]) (use t dU in auto)
qed

lemma merge_step_link:
  assumes inv: "merge_inv U L (r # rs) s"
    and adj: "L \<noteq> [] \<Longrightarrow> last L + ucast (block_size (hmem s) (last L)) \<noteq> r"
  defines "s1 \<equiv> s\<lparr>hmem := set_next r 0 (hmem s)\<rparr>"
  defines "s' \<equiv> if L = [] then s1\<lparr>freelist := r\<rparr> else s1\<lparr>hmem := set_next (last L) r (hmem s1)\<rparr>"
  shows "merge_inv U (L @ [r]) rs s'" "kept U s s'"
proof -
  let ?m = "hmem s" and ?B = "set (L @ r # rs) \<union> U"
  have lay: "layout ?m ?B (unat HEAP_VA_BASE) (unat (heap_brk s))" and sw: "sorted_wrt (<) (L @ r # rs)"
    and dU: "set (L @ r # rs) \<inter> U = {}" and r0: "r \<noteq> 0" and seg: "lseg ?m (freelist s) L 0"
    using inv by (auto simp: merge_inv_def insert_commute)
  have r: "r \<notin> set L" "distinct L" using sw by (auto simp: sorted_wrt_append strict_sorted_iff)
  have ap: "all_apart ?B" using layout_apart [OF lay] by (auto simp: all_apart_def)
  have apr: "apart 16 r 16 x" if "x \<in> ?B" "x \<noteq> r" for x by (rule all_apartD [OF ap]) (use that in auto)
  have apl: "apart 16 (last L) 16 x" if "L \<noteq> []" "x \<in> ?B" "x \<noteq> last L" for x
    by (rule all_apartD [OF ap]) (use that in auto)
  have aprL: "apart 16 r 16 x" if "x \<in> set L" for x by (rule apr) (use that r in auto)
  have fields: "block_size (hmem s') x = block_size ?m x \<and> block_magic (hmem s') x = block_magic ?m x" if "x \<in> ?B" for x
    using header_other [OF apr [OF that]] header_other [OF apl [OF _ that]]
    by (cases "x = r"; cases "x = last L"; cases "L = []") (auto simp: s'_def s1_def)
  have brk': "heap_brk s' = heap_brk s" by (simp add: s'_def s1_def)
  have lay': "layout (hmem s') ?B (unat HEAP_VA_BASE) (unat (heap_brk s'))"
    unfolding brk' using lay layout_cong [of ?B "hmem s'" ?m] fields by blast
  have "lseg (hmem s') (freelist s') (L @ [r]) 0"
  proof (cases "L = []")
    case False
    have "lseg (hmem s1) (freelist s) L 0 \<longleftrightarrow> lseg ?m (freelist s) L 0"
      by (rule lseg_cong) (use aprL in \<open>simp add: s1_def header_other\<close>)
    then have "lseg (set_next (last L) r (hmem s1)) (freelist s) L r"
      by (intro lseg_set_last [where q = 0]) (use seg r False apl in auto)
    moreover have "apart 16 (last L) 16 r" by (rule apl) (use False r in auto)
    ultimately show ?thesis using False r0 by (auto simp: lseg_append s'_def s1_def header_other)
  qed (use r0 in \<open>simp add: s'_def s1_def\<close>)
  moreover have "unmerged (hmem s') (L @ [r])"
  proof -
    have "unat x + unat (block_size ?m x) \<noteq> unat y" if xy: "x \<in> set (L @ [r])" "y \<in> set (L @ [r])" for x y
    proof (cases "x < y")
      case True
      then have xL: "x \<in> set L" using xy sw by (fastforce simp: sorted_wrt_append)
      show ?thesis
      proof (cases "y = r \<and> x = last L")
        case True
        have "unat x + unat (block_size ?m x) \<le> unat (heap_brk s)" by (rule layout_bounds [OF lay]) (use xL in simp)
        then have "unat x + unat (block_size ?m x) < 2 ^ 64" using unat_lt_64 [of "heap_brk s"] by linarith
        then have "unat (x + ucast (block_size ?m x)) = unat x + unat (block_size ?m x)" by (simp add: unat_word_ariths)
        moreover have "x + ucast (block_size ?m x) \<noteq> y" using adj True xL by (cases L) auto
        ultimately show ?thesis by (simp add: word_unat_eq_iff)
      next
        case False
        show ?thesis
        proof (cases "y = r")
          case True
          have "last L \<in> set L" "x < last L" "last L < r"
            using xL False True sw by (cases L rule: rev_cases; fastforce simp: sorted_wrt_append)+
          then show ?thesis using layout_order [OF lay, of x "last L"] xL True by (auto simp: word_less_nat_alt)
        next
          case False
          then show ?thesis using xL xy inv by (auto simp: merge_inv_def unmerged_def)
        qed
      qed
    next
      case False
      have "0 < unat (block_size ?m x)" using layout_bounds(3) [OF lay, of x] xy by auto
      then show ?thesis using False by (auto simp: word_less_nat_alt)
    qed
    moreover have "block_size (hmem s') x = block_size ?m x" if "x \<in> set (L @ [r])" for x using fields [of x] that by auto
    ultimately show ?thesis unfolding unmerged_def by simp
  qed
  ultimately show "merge_inv U (L @ [r]) rs s'"
    using inv lay' fields by (auto simp: merge_inv_def)
  have k1: "kept U s s1" unfolding s1_def by (rule kept_header_write [OF lay, of r]) (use dU in auto)
  have "layout (hmem s1) ?B (unat HEAP_VA_BASE) (unat (heap_brk s))"
  proof (subst layout_cong)
    show "block_size (hmem s1) x = block_size ?m x" if "x \<in> ?B" for x
      using header_other [OF apr [OF that]] by (cases "x = r") (simp_all add: s1_def)
  qed (rule lay)
  note k2 = kept_header_write [OF this, of "last L" U]
  have "kept U s1 s'" if "L \<noteq> []"
  proof -
    have "last L \<notin> U" using last_in_set [OF that] dU unfolding set_append by blast
    then have "kept U s1 (s1\<lparr>hmem := set_next (last L) r (hmem s1)\<rparr>)" by (intro k2) (use that in auto)
    then show ?thesis using that by (simp add: s'_def)
  qed
  then show "kept U s s'" using k1 kept_freelist [OF k1] by (cases "L = []") (auto simp: s'_def intro: kept_trans)
qed

lemma merge_fold:
  assumes "merge_inv U L rs s"
  shows "\<exists>L' s' tail'. fold kfree_merge rs (s, if L = [] then 0 else last L) = (s', tail') \<and> merge_inv U L' [] s' \<and> kept U s s'"
  using assms
proof (induction rs arbitrary: L s)
  case (Cons r rs)
  have nz: "last L \<noteq> 0" if "L \<noteq> []" using Cons.prems that lseg_nonzero last_in_set unfolding merge_inv_def by metis
  show ?case
  proof (cases "L \<noteq> [] \<and> last L + ucast (block_size (hmem s) (last L)) = r")
    case True
    note j = merge_step_join [OF Cons.prems conjunct1 [OF True] conjunct2 [OF True]]
    show ?thesis using Cons.IH [OF j(1)] kept_trans [OF j(2)] True nz by auto
  next
    case False
    then have "L \<noteq> [] \<Longrightarrow> last L + ucast (block_size (hmem s) (last L)) \<noteq> r" by simp
    note j = merge_step_link [OF Cons.prems this]
    have "kfree_merge r (s, if L = [] then 0 else last L) =
      (if L = [] then s\<lparr>hmem := set_next r 0 (hmem s)\<rparr>\<lparr>freelist := r\<rparr>
       else s\<lparr>hmem := set_next r 0 (hmem s)\<rparr>\<lparr>hmem := set_next (last L) r (hmem (s\<lparr>hmem := set_next r 0 (hmem s)\<rparr>))\<rparr>, r)"
      using False nz by (auto simp: Let_def)
    then show ?thesis using Cons.IH [OF j(1)] kept_trans [OF j(2)] by fastforce
  qed
qed auto

lemma collect_free_lseg: "lseg m p xs 0 \<Longrightarrow> length xs \<le> k \<Longrightarrow> collect_free k m p = xs"
proof (induction xs arbitrary: p k)
  case Nil
  then show ?case by (cases k) simp_all
next
  case (Cons x xs)
  then show ?case by (cases k) auto
qed

lemma collect_free_long: "lseg m p xs 0 \<Longrightarrow> k \<le> length xs \<Longrightarrow> length (collect_free k m p) = k"
proof (induction xs arbitrary: p k)
  case (Cons x xs)
  then show ?case by (cases k) auto
qed simp

lemma heap_wf_nonzero:
  assumes "heap_wf F U s" "b \<in> set F \<union> U"
  shows "b + 16 \<noteq> 0"
proof -
  have "unat b + 16 < 2 ^ 64" using heap_wf_bounds [OF assms] unat_lt_64 [of "heap_brk s"] by linarith
  then have "unat (b + 16) = unat b + 16" by (simp add: unat_word_ariths)
  then show ?thesis by (metis add_is_0 unsigned_0 zero_neq_numeral)
qed

lemma kfree_eq:
  assumes wf: "heap_wf F U s" and b: "b \<in> U"
  shows "kfree (b + 16) s = (if 256 \<le> length F then Inl BufferOverflow
    else Inr (fst (fold kfree_merge (sort (F @ [b])) (s\<lparr>hmem := set_magic b BMAGIC_FREE (hmem s), freelist := 0\<rparr>, 0))))"
proof -
  let ?m = "set_magic b BMAGIC_FREE (hmem s)"
  have "apart 16 b 16 x" if "x \<in> set F" for x
    by (rule all_apartD [OF heap_wf_apart [OF wf subset_refl]]) (use that b wf in \<open>auto simp: heap_wf_def\<close>)
  then have "same_block (hmem s) ?m x" if "x \<in> set F" for x using that by (simp add: same_block_writes)
  from lseg_same [OF this] have "lseg ?m (freelist s) F 0" using wf by (simp add: heap_wf_def)
  note c = collect_free_lseg [OF this, of 256] collect_free_long [OF this, of 256]
  have "block_magic (hmem s) b = BMAGIC_USED" using wf b by (simp add: heap_wf_def)
  then have k: "kfree (b + 16) s = (if 256 \<le> length (collect_free 256 ?m (freelist s)) then Inl BufferOverflow
    else Inr (fst (fold kfree_merge (sort (collect_free 256 ?m (freelist s) @ [b])) (s\<lparr>hmem := ?m, freelist := 0\<rparr>, 0))))"
    using heap_wf_nonzero [OF wf, of b] b by (simp add: kfree_def HDR_SIZE_def Let_def kfree_sort_sort)
  show ?thesis
  proof (cases "256 \<le> length F")
    case True
    then show ?thesis unfolding k using c(2) by simp
  next
    case False
    then have "collect_free 256 ?m (freelist s) = F" using c(1) by linarith
    then show ?thesis unfolding k by simp
  qed
qed

lemma kfree_ok:
  assumes wf: "heap_wf F U s" and b: "b \<in> U" and len: "length F < 256"
  shows "\<exists>s' F'. kfree (b + 16) s = Inr s' \<and> heap_wf F' (U - {b}) s' \<and> sorted_wrt (<) F' \<and> unmerged (hmem s') F' \<and>
    kept (U - {b}) s s'"
proof -
  let ?m = "set_magic b BMAGIC_FREE (hmem s)" and ?B = "set F \<union> U"
  have L: "layout (hmem s) ?B (unat HEAP_VA_BASE) (unat (heap_brk s))" and d: "set F \<inter> U = {}" "distinct F"
    and seg: "lseg (hmem s) (freelist s) F 0"
    using wf by (simp_all add: heap_wf_def)
  have bb: "unat HEAP_VA_BASE \<le> unat b" "unat b + 16 \<le> unat (heap_brk s)"
    using heap_wf_bounds [OF wf, of b] b by auto
  have ap: "apart 16 b 16 x" if "x \<in> ?B - {b}" for x by (rule layout_apart [OF L]) (use that b in auto)
  have same: "same_block (hmem s) ?m x" if "x \<in> ?B - {b}" for x using ap [OF that] by (simp add: same_block_writes)
  define rs where "rs = sort (F @ [b])"
  define s0 where "s0 = s\<lparr>hmem := ?m, freelist := 0\<rparr>"
  have k: "kfree (b + 16) s = Inr (fst (fold kfree_merge rs (s0, 0)))"
    using kfree_eq [OF wf b] len by (simp add: rs_def s0_def)
  have "merge_inv (U - {b}) [] rs s0"
  proof -
    have "layout ?m (set ([] @ rs) \<union> (U - {b})) (unat HEAP_VA_BASE) (unat (heap_brk s))"
    proof (subst layout_cong)
      show "block_size ?m x = block_size (hmem s) x" if "x \<in> set ([] @ rs) \<union> (U - {b})" for x
        using same [of x] that by (cases "x = b") (auto simp: rs_def same_block_def)
      have "set ([] @ rs) \<union> (U - {b}) = ?B" using b by (auto simp: rs_def)
      then show "layout (hmem s) (set ([] @ rs) \<union> (U - {b})) (unat HEAP_VA_BASE) (unat (heap_brk s))" using L by simp
    qed
    moreover have "block_magic ?m x = BMAGIC_FREE" if "x \<in> set rs" for x
      using same [of x] that wf by (cases "x = b") (auto simp: rs_def same_block_def heap_wf_def)
    moreover have "0 \<notin> set rs" using lseg_nonzero [OF seg] bb(1) by (auto simp: rs_def HEAP_VA_BASE_def)
    moreover have "sorted_wrt (<) rs" using d b by (auto simp: rs_def strict_sorted_iff)
    ultimately show ?thesis using d by (auto simp: merge_inv_def s0_def rs_def unmerged_def)
  qed
  from merge_fold [OF this] obtain F' s' tail' where f: "fold kfree_merge rs (s0, 0) = (s', tail')"
    "merge_inv (U - {b}) F' [] s'" "kept (U - {b}) s0 s'" by auto
  have "kept (U - {b}) s (s\<lparr>hmem := ?m\<rparr>)" by (rule kept_header_write [OF L, of b]) (use b in auto)
  from kept_freelist [OF this, of 0] have k0: "kept (U - {b}) s s0" by (simp add: s0_def)
  then have kp: "kept (U - {b}) s s'" using f(3) by (rule kept_trans)
  have "block_magic (hmem s') x = BMAGIC_USED" if "x \<in> U - {b}" for x
    using kept_same_block [OF kp that] heap_wf_bounds [OF wf, of x] that wf by (auto simp: same_block_def heap_wf_def)
  then have "heap_wf F' (U - {b}) s'"
    using f(2) by (auto simp: heap_wf_def merge_inv_def strict_sorted_iff)
  then show ?thesis using k f kp by (auto simp: merge_inv_def)
qed

text \<open>
  Claim C3. \<^verbatim>\<open>kfree\<close> of a block handed out, with fewer than 256 blocks on the free list: the
  block leaves the used set, no byte of another used block changes, the heap stays well formed (so
  no memory is lost), and the new free list is in address order with every pair of neighbouring
  free blocks joined.
\<close>

theorem kfree_correct:
  assumes wf: "heap_wf F U s" and b: "b \<in> U" and len: "length F < 256"
  shows "\<exists>s' F'. kfree (b + 16) s = Inr s' \<and> heap_wf F' (U - {b}) s' \<and> sorted_wrt (<) F' \<and> unmerged (hmem s') F' \<and>
    kept (U - {b}) s s'"
  using kfree_ok [OF assms] .

section \<open>Requests and releases that go wrong\<close>

lemma kfree_merge_magic:
  assumes "all_apart A" "set rs \<subseteq> A" "tail \<in> insert 0 A" "x \<in> A"
  shows "block_magic (hmem (fst (fold kfree_merge rs (s, tail)))) x = block_magic (hmem s) x"
  using assms(2,3)
proof (induction rs arbitrary: s tail)
  case (Cons r rs)
  obtain s1 tail1 where k: "kfree_merge r (s, tail) = (s1, tail1)" by force
  have keep: "block_magic (set_size a v m) x = block_magic m x \<and> block_magic (set_next a w m) x = block_magic m x"
    if "a \<in> A" for a v w m
    using that assms header_other [of a x] by (cases "a = x") (auto simp: all_apart_def)
  then have "block_magic (hmem s1) x = block_magic (hmem s) x" "tail1 \<in> insert 0 A"
    using k Cons.prems by (auto simp: Let_def split: if_splits)
  then show ?case using Cons.IH [of tail1 s1] Cons.prems k by simp
qed simp

text \<open>
  Claim C28. What \<^verbatim>\<open>kfree\<close> refuses and what it does not survive. Freeing a block twice in a row
  stops the kernel with the panic of \<^verbatim>\<open>kfree\<close>; freeing NULL does nothing; and when the free list
  holds 256 blocks or more the block is stored past the end of the array \<^verbatim>\<open>arr\<close>.
\<close>

theorem kfree_errors:
  assumes wf: "heap_wf F U s" and b: "b \<in> U"
  shows "kfree 0 s = Inr s \<and>
    (if 256 \<le> length F then kfree (b + 16) s = Inl BufferOverflow
     else \<exists>s'. kfree (b + 16) s = Inr s' \<and> kfree (b + 16) s' = Inl (Panic ''heap: kfree of non-heap pointer %p''))"
proof -
  let ?s0 = "s\<lparr>hmem := set_magic b BMAGIC_FREE (hmem s), freelist := 0\<rparr>"
  let ?s' = "fst (fold kfree_merge (sort (F @ [b])) (?s0, 0))"
  have "block_magic (hmem ?s') b = block_magic (hmem ?s0) b"
    by (rule kfree_merge_magic [OF heap_wf_apart [OF wf subset_refl]]) (use b in auto)
  then have "block_magic (hmem ?s') b = BMAGIC_FREE" by simp
  then have "kfree (b + 16) ?s' = Inl (Panic ''heap: kfree of non-heap pointer %p'')"
    using heap_wf_nonzero [OF wf, of b] b by (simp add: kfree_def HDR_SIZE_def BMAGIC_FREE_def BMAGIC_USED_def)
  then show ?thesis using kfree_eq [OF wf b] by (auto simp: kfree_def)
qed


section \<open>Initialisation and zeroed allocation\<close>

lemma heap_init_result:
  assumes "heap_room 16 (s\<lparr>heap_brk := HEAP_VA_BASE\<rparr>)"
  shows "\<exists>s' con'. heap_init s con = Inr (s', con') \<and> heap_wf [HEAP_VA_BASE] {} s' \<and> heap_backed s' \<and>
    unat (block_size (hmem s') HEAP_VA_BASE) = 65536"
proof -
  let ?s = "s\<lparr>heap_brk := HEAP_VA_BASE\<rparr>"
  have "heap_backed ?s" by (auto simp: heap_backed_def HEAP_VA_BASE_def)
  moreover have "heap_room (unat SUPER_PAGES + 0) ?s" using assms by (simp add: SUPER_PAGES_def)
  ultimately obtain t where t: "grow SUPER_PAGES ?s = Inr t" "heap_backed t" "hmem t = hmem s"
    "unat (heap_brk t) = unat HEAP_VA_BASE + 65536"
    using grow_total [of SUPER_PAGES 0 ?s] by (auto simp: SUPER_PAGES_def)
  have "layout (hmem t) {} (unat HEAP_VA_BASE) (unat HEAP_VA_BASE)" by (simp add: layout_def)
  then have f: "heap_wf [HEAP_VA_BASE] {} (free_block HEAP_VA_BASE 0 t)"
    "block_size (hmem (free_block HEAP_VA_BASE 0 t)) HEAP_VA_BASE = 65536"
    using free_block_wf [of t "[]" "{}" HEAP_VA_BASE 0] t(4) by simp_all
  moreover have "heap_backed (free_block HEAP_VA_BASE 0 t)" using t(2) by (simp add: heap_backed_def free_block_def)
  ultimately show ?thesis using t(1) by (simp add: heap_init_def)
qed

lemma kzalloc_zeroed:
  assumes k: "kmalloc n s = Some (Inr (b + 16, s1))" and wf: "heap_wf F (insert b U) s1"
    and sz: "unat n + 16 \<le> unat (block_size (hmem s1) b)"
  shows "\<exists>s'. kzalloc n s = Some (Inr (b + 16, s')) \<and> heap_wf F (insert b U) s' \<and>
    (\<forall>i < unat n. hmem s' (b + 16 + of_nat i) = 0) \<and>
    (\<forall>z. unat z < unat b + 16 \<or> unat b + 16 + unat n \<le> unat z \<longrightarrow> hmem s' z = hmem s1 z)"
proof -
  let ?m = "memset (b + 16) 0 n (hmem s1)"
  have bnd: "unat b + 16 + unat n < 2 ^ 64"
    using heap_wf_bounds(2) [OF wf UnI2 [OF insertI1]] sz unat_lt_64 [of "heap_brk s1"] by linarith
  then have p: "unat (b + 16) = unat b + 16" by (simp add: unat_word_ariths)
  have ap: "?m z = (if unat (z - (b + 16)) < unat n then 0 else hmem s1 z)" for z
    using memset_apply [of "b + 16" 0 n "hmem s1" z] by simp
  have out: "?m z = hmem s1 z" if "unat z < unat b + 16 \<or> unat b + 16 + unat n \<le> unat z" for z
    using byte_outside [of "b + 16" "unat n" z] that p bnd ap [of z] by auto
  have "heap_wf F (insert b U) (s1\<lparr>hmem := ?m\<rparr>)"
  proof (rule heap_wf_client_write [OF wf])
    show "\<exists>b\<in>insert b U. unat b + 16 \<le> unat z \<and> unat z < unat b + unat (block_size (hmem s1) b)"
      if "?m z \<noteq> hmem s1 z" for z
      using out [of z] that sz by (intro bexI [of _ b]) (force simp: not_less)+
  qed
  moreover have "?m (b + 16 + of_nat i) = 0" if "i < unat n" for i
    using that bnd ap [of "b + 16 + of_nat i"] by (simp add: unat_of_nat)
  moreover have "kzalloc n s = Some (Inr (b + 16, s1\<lparr>hmem := ?m\<rparr>))"
    using k heap_wf_nonzero [OF wf, of b] by (simp add: kzalloc_def)
  ultimately show ?thesis using out by (intro exI [of _ "s1\<lparr>hmem := ?m\<rparr>"]) simp
qed

section \<open>An example heap\<close>

text \<open>The example space of the memory manager with the pages 64 to 127 free as well.\<close>

definition pm_big :: pmm where
  "pm_big = (pm vmm_example)\<lparr>bitmap := (bitmap (pm vmm_example))(1 := - 1), bitmap_len := 128, total_pages := 128, free_count := 74\<rparr>"

lemma free_set_pm_big: "free_set pm_big = of_nat ` set ([1..<8] @ [13..<16] @ [64..<128])"
proof -
  have "free_set pm_big = set (filter (\<lambda>i. is_free i pm_big) (map of_nat [0..<128]))"
    unfolding free_set_list by (simp add: pm_big_def del: upt_rec_numeral)
  also have "filter (\<lambda>i. is_free i pm_big) (map of_nat [0..<128]) = map of_nat ([1..<8] @ [13..<16] @ [64..<128])"
    by (simp add: pm_big_def vmm_example_def is_free_def BM_WORD_def BM_BIT_def upt_conv_Cons)
  finally show ?thesis by simp
qed

definition heap_example :: heap where
  "heap_example = \<lparr>freelist = 0, heap_brk = HEAP_VA_BASE, hmem = (\<lambda>_. 0), hvm = vmm_example\<lparr>pm := pm_big\<rparr>\<rparr>"

lemma pm_big_index:
  assumes "i \<in> set ([1..<8] @ [13..<16] @ [64..<128])"
  shows "unat (of_nat i :: u64) = i" "unat (push_bit 12 (of_nat i :: u64)) = 4096 * i"
    "0 < i" "i \<noteq> 8" "i \<noteq> 9" "i \<noteq> 10" "i \<noteq> 11"
proof -
  have i: "i < 128" using assms by auto
  show u: "unat (of_nat i :: u64) = i" using i by (simp add: unat_of_nat)
  then have "(of_nat i :: u64) < 2 ^ 52" using i by (simp add: word_less_nat_alt)
  from page_addr_unat [OF this] show "unat (push_bit 12 (of_nat i :: u64)) = 4096 * i" using u by simp
  show "0 < i" "i \<noteq> 8" "i \<noteq> 9" "i \<noteq> 10" "i \<noteq> 11" using assms by auto
qed

lemma card_free_set_pm_big: "card (free_set pm_big) = 74" "card (free_pages pm_big) = 74"
proof -
  let ?A = "set ([1..<8] @ [13..<16] @ [64..<128]) :: nat set"
  have c: "card ?A = 74" by (subst distinct_card) auto
  have "inj_on (of_nat :: nat \<Rightarrow> u64) ?A" by (rule inj_onI) (metis pm_big_index(1))
  then show "card (free_set pm_big) = 74" unfolding free_set_pm_big using c by (simp only: card_image)
  have "inj_on (\<lambda>i. push_bit 12 (of_nat i) :: u64) ?A"
    by (rule inj_onI) (metis pm_big_index(2) nat_mult_eq_cancel_disj zero_neq_numeral)
  then show "card (free_pages pm_big) = 74" unfolding free_pages_def free_set_pm_big image_image
    using c by (simp only: card_image)
qed

lemma pmm_inv_pm_big: "pmm_inv pm_big"
proof -
  have "0 \<notin> free_set pm_big"
  proof
    assume "0 \<in> free_set pm_big"
    then obtain i where "i \<in> set ([1..<8] @ [13..<16] @ [64..<128])" "(0 :: u64) = of_nat i"
      unfolding free_set_pm_big by blast
    then show False using pm_big_index(1,3) [of i] by (metis less_irrefl unsigned_0)
  qed
  then show ?thesis by (simp add: pmm_inv_def card_free_set_pm_big) (simp add: pm_big_def vmm_example_def)
qed

lemma vmm_wf_big: "vmm_wf (vmm_example\<lparr>pm := pm_big\<rparr>)"
proof -
  have "p \<notin> {0x8000, 0x9000, 0xA000, 0xB000}" if p: "p \<in> free_pages pm_big" for p
  proof -
    obtain i where i: "i \<in> set ([1..<8] @ [13..<16] @ [64..<128])" "p = push_bit 12 (of_nat i)"
      using p unfolding free_pages_def free_set_pm_big by blast
    have "unat p = 4096 * i" unfolding i(2) by (rule pm_big_index(2) [OF i(1)])
    then show ?thesis using pm_big_index(4-7) [OF i(1)] by auto
  qed
  moreover have "space_tables (mem vmm_example) (pml4 vmm_example) \<subseteq> {0x8000, 0x9000, 0xA000, 0xB000}"
    using vmm_example_tables by (fastforce simp: space_tables_def path_ok_def)
  ultimately have "space_tables (mem vmm_example) (pml4 vmm_example) \<inter> free_pages pm_big = {}" by blast
  moreover have "bitmap_len pm_big \<le> 2 ^ 40" by (simp add: pm_big_def)
  ultimately show ?thesis using vmm_wf_example pmm_inv_pm_big by (simp add: vmm_wf_def)
qed

lemma heap_example_ok: "heap_wf [] {} heap_example" "heap_backed heap_example" "heap_room 16 heap_example"
proof -
  show "heap_wf [] {} heap_example" by (simp add: heap_wf_def heap_example_def layout_def)
  show "heap_backed heap_example" by (auto simp: heap_backed_def heap_example_def HEAP_VA_BASE_def)
  have "walk (mem vmm_example) (pml4 vmm_example) (va_path (HEAP_VA_BASE + of_nat (4096 * i))) = None" if "i < 16" for i
  proof -
    define d :: u64 where "d = of_nat (4096 * i)"
    let ?va = "HEAP_VA_BASE + d"
    have "unat d = 4096 * i" unfolding d_def unat_of_nat using that by simp
    then have "unat ?va = 18446744070488326144 + 4096 * i"
      using that by (simp add: HEAP_VA_BASE_def unat_word_ariths)
    then have "unat (drop_bit 39 ?va) = 33554431"
      using that by (simp add: drop_bit_eq_div unat_div_distrib)
    then have "drop_bit 39 ?va = 33554431" by (simp add: word_unat_eq_iff)
    then have "PML4_IDX ?va = 511" by (simp add: PML4_IDX_def)
    then have "walk (mem vmm_example) (pml4 vmm_example) (va_path ?va) = None"
      by (simp add: va_path_def vmm_example_def uix_const)
    then show ?thesis unfolding d_def .
  qed
  then show "heap_room 16 heap_example"
    using vmm_wf_big card_free_set_pm_big(2) by (simp add: heap_room_def heap_example_def) (simp add: HEAP_VA_BASE_def)
qed

theorem kmalloc_correct_witness:
  "\<exists>b s' F'. kmalloc 100 heap_example = Some (Inr (b + 16, s')) \<and> heap_wf F' {b} s' \<and> 116 \<le> unat (block_size (hmem s') b)"
  using kmalloc_correct [OF heap_example_ok, of 100] by fastforce

text \<open>A heap of one 64 KiB block, free or handed out.\<close>

definition one_block :: "bool \<Rightarrow> heap" where
  "one_block used = heap_example\<lparr>heap_brk := HEAP_VA_BASE + 65536, freelist := if used then 0 else HEAP_VA_BASE,
     hmem := set_magic HEAP_VA_BASE (if used then BMAGIC_USED else BMAGIC_FREE) (set_size HEAP_VA_BASE 65536 (\<lambda>_. 0))\<rparr>"

lemma one_block_wf: "heap_wf (if used then [] else [HEAP_VA_BASE]) (if used then {HEAP_VA_BASE} else {}) (one_block used)"
proof -
  have "block_next (\<lambda>_. 0) HEAP_VA_BASE = 0"
    by (simp add: block_next_def get64_def eval_nat_numeral)
  then show ?thesis
    by (auto simp: heap_wf_def one_block_def layout_def region_def) (simp_all add: HEAP_VA_BASE_def)
qed

theorem kfree_correct_witness:
  "\<exists>s' F'. kfree (HEAP_VA_BASE + 16) (one_block True) = Inr s' \<and> heap_wf F' {} s' \<and> sorted_wrt (<) F'"
  using kfree_correct [of "[]" "{HEAP_VA_BASE}" "one_block True" HEAP_VA_BASE] one_block_wf [of True] by auto

theorem kfree_errors_witness:
  "\<exists>s'. kfree (HEAP_VA_BASE + 16) (one_block True) = Inr s' \<and>
    kfree (HEAP_VA_BASE + 16) s' = Inl (Panic ''heap: kfree of non-heap pointer %p'')"
  using kfree_errors [of "[]" "{HEAP_VA_BASE}" "one_block True" HEAP_VA_BASE] one_block_wf [of True] by auto


end
