(* ===== verification/Task.thy ===== *)
theory Task
  imports Heap
begin

text \<open>
  Tasks: \<^verbatim>\<open>core/cpu/task.c\<close> and \<^verbatim>\<open>include/uix/task.h\<close>. A \<^verbatim>\<open>struct task\<close> is a record; the kernel
  state keeps the task objects in a store indexed by their address, \<open>None\<close> where no task object
  lives (never allocated, or freed), so that a read through a dangling pointer is an error of the
  model. The objects and the kernel stacks are allocated on the heap of \<^theory_text>\<open>Heap\<close>, and the bytes of
  a kernel stack are bytes of that heap. Walks over the linked lists may not end on a corrupted
  list and are \<^theory_text>\<open>partial_function (option)\<close>.
\<close>

section \<open>Task objects\<close>

definition TASK_READY :: int where "TASK_READY = 0"
definition TASK_RUNNING :: int where "TASK_RUNNING = 1"
definition TASK_DEAD :: int where "TASK_DEAD = 2"
definition TASK_ZOMBIE :: int where "TASK_ZOMBIE = 3"
definition TASK_BLOCKED :: int where "TASK_BLOCKED = 4"

lemmas task_states = TASK_READY_def TASK_RUNNING_def TASK_DEAD_def TASK_ZOMBIE_def TASK_BLOCKED_def

definition PROC_MAX_FDS :: nat where "PROC_MAX_FDS = 16"

definition FD_NONE :: u8 where "FD_NONE = 0"
definition FD_CONSOLE_IN :: u8 where "FD_CONSOLE_IN = 1"
definition FD_CONSOLE_OUT :: u8 where "FD_CONSOLE_OUT = 2"

record proc_fd =
  fd_type :: u8
  in_use :: u8

record task =
  t_pid :: u64
  t_rsp :: u64
  t_kstack :: u64
  t_kstack_size :: u64
  t_cr3 :: paddr
  t_state :: int
  t_is_user :: int
  t_exit_status :: u32
  t_ppid :: u64
  t_block_on :: u64
  t_name :: string
  t_fds :: "proc_fd list"
  t_next :: u64
  t_next_all :: u64

definition zero_task :: task where
  "zero_task = \<lparr>t_pid = 0, t_rsp = 0, t_kstack = 0, t_kstack_size = 0, t_cr3 = 0, t_state = 0, t_is_user = 0,
     t_exit_status = 0, t_ppid = 0, t_block_on = 0, t_name = [],
     t_fds = replicate PROC_MAX_FDS \<lparr>fd_type = 0, in_use = 0\<rparr>, t_next = 0, t_next_all = 0\<rparr>"

definition SIZEOF_TASK :: u64 where "SIZEOF_TASK = 128"
definition KSTACK_SIZE :: u64 where "KSTACK_SIZE = 16 * 1024"

record kern =
  kh :: heap
  tasks :: "u64 \<Rightarrow> task option"
  all_tasks :: u64
  next_pid :: u64
  current :: u64
  runqueue_head :: u64
  runqueue_tail :: u64
  rq_size :: u64
  ticks_since_switch :: u64
  need_resched :: bool
  blocked_list :: u64
  zombie :: u64
  tss_rsp0 :: u64
  kcon :: console

definition tload :: "u64 \<Rightarrow> kern \<Rightarrow> task res" where
  "tload p s = (if p = 0 then Inl NullDeref
     else case tasks s p of None \<Rightarrow> Inl UseAfterFree | Some t \<Rightarrow> Inr t)"

definition tstore :: "u64 \<Rightarrow> (task \<Rightarrow> task) \<Rightarrow> kern \<Rightarrow> kern res" where
  "tstore p f s = rbind (tload p s) (\<lambda>t. Inr (s\<lparr>tasks := (tasks s)(p \<mapsto> f t)\<rparr>))"

section \<open>The registry of all tasks\<close>

definition task_register :: "u64 \<Rightarrow> kern \<Rightarrow> kern res" where
  "task_register t s = rbind (tstore t (t_next_all_update (\<lambda>_. all_tasks s)) s) (\<lambda>s. Inr (s\<lparr>all_tasks := t\<rparr>))"

partial_function (option) find_zombie_from :: "u64 \<Rightarrow> u64 \<Rightarrow> u64 \<Rightarrow> kern \<Rightarrow> u64 res option" where
  "find_zombie_from ppid want_pid t s =
     (if t = 0 then Some (Inr 0)
      else case tload t s of
        Inl e \<Rightarrow> Some (Inl e)
      | Inr x \<Rightarrow>
        if t_state x = TASK_ZOMBIE \<and> t_ppid x = ppid \<and> (want_pid = - 1 \<or> t_pid x = want_pid) then Some (Inr t)
        else find_zombie_from ppid want_pid (t_next_all x) s)"

definition task_find_zombie :: "u64 \<Rightarrow> u64 \<Rightarrow> kern \<Rightarrow> u64 res option" where
  "task_find_zombie ppid want_pid s = find_zombie_from ppid want_pid (all_tasks s) s"

text \<open>The pointer \<^verbatim>\<open>pp\<close> is \<open>None\<close> for \<^verbatim>\<open>&all_tasks\<close> and \<open>Some t\<close> for \<^verbatim>\<open>&t->next_all\<close>.\<close>

definition all_slot_get :: "u64 option \<Rightarrow> kern \<Rightarrow> u64 res" where
  "all_slot_get pp s = (case pp of None \<Rightarrow> Inr (all_tasks s) | Some t \<Rightarrow> rbind (tload t s) (\<lambda>x. Inr (t_next_all x)))"

definition all_slot_set :: "u64 option \<Rightarrow> u64 \<Rightarrow> kern \<Rightarrow> kern res" where
  "all_slot_set pp v s = (case pp of None \<Rightarrow> Inr (s\<lparr>all_tasks := v\<rparr>) | Some t \<Rightarrow> tstore t (t_next_all_update (\<lambda>_. v)) s)"

partial_function (option) reap_from :: "u64 \<Rightarrow> u64 option \<Rightarrow> kern \<Rightarrow> kern res option" where
  "reap_from ppid pp s =
     (case all_slot_get pp s of
        Inl e \<Rightarrow> Some (Inl e)
      | Inr t \<Rightarrow>
        if t = 0 then Some (Inr s)
        else case tload t s of
          Inl e \<Rightarrow> Some (Inl e)
        | Inr x \<Rightarrow>
          if t_state x = TASK_DEAD \<and> t_ppid x = ppid
          then (case all_slot_set pp (t_next_all x) s of Inl e \<Rightarrow> Some (Inl e) | Inr s \<Rightarrow> reap_from ppid pp s)
          else reap_from ppid (Some t) s)"

definition task_reap_children :: "u64 \<Rightarrow> kern \<Rightarrow> kern res option" where
  "task_reap_children ppid s = reap_from ppid None s"

definition task_alloc_pid :: "kern \<Rightarrow> u64 \<times> kern" where
  "task_alloc_pid s = (next_pid s, s\<lparr>next_pid := next_pid s + 1\<rparr>)"

definition task_current :: "kern \<Rightarrow> u64" where
  "task_current s = current s"

definition task_set_current :: "u64 \<Rightarrow> kern \<Rightarrow> kern" where
  "task_set_current t s = s\<lparr>current := t\<rparr>"

definition task_count :: "kern \<Rightarrow> u64" where
  "task_count s = next_pid s - 1"

section \<open>Allocation\<close>

definition k_kmalloc :: "u64 \<Rightarrow> kern \<Rightarrow> (u64 \<times> kern) res option" where
  "k_kmalloc n s = obind (kmalloc n (kh s)) (\<lambda>(p, h). Some (Inr (p, s\<lparr>kh := h\<rparr>)))"

text \<open>\<^verbatim>\<open>kzalloc(sizeof(struct task))\<close>: a zeroed task object comes to life at the address returned.\<close>

definition k_kzalloc_task :: "kern \<Rightarrow> (u64 \<times> kern) res option" where
  "k_kzalloc_task s = obind (kzalloc SIZEOF_TASK (kh s)) (\<lambda>(p, h).
     Some (Inr (p, s\<lparr>kh := h, tasks := (if p = 0 then tasks s else (tasks s)(p \<mapsto> zero_task))\<rparr>)))"

definition k_kfree :: "u64 \<Rightarrow> kern \<Rightarrow> kern res" where
  "k_kfree p s = rbind (kfree p (kh s)) (\<lambda>h. Inr (s\<lparr>kh := h\<rparr>))"

definition k_kfree_task :: "u64 \<Rightarrow> kern \<Rightarrow> kern res" where
  "k_kfree_task t s = rbind (k_kfree t s) (\<lambda>s. Inr (s\<lparr>tasks := (tasks s)(t := None)\<rparr>))"

definition task_alloc :: "string \<Rightarrow> kern \<Rightarrow> (u64 \<times> kern) res option" where
  "task_alloc name s =
     obind (k_kzalloc_task s) (\<lambda>(t, s).
     if t = 0 then Some (Inr (0, s))
     else obind (k_kmalloc KSTACK_SIZE s) (\<lambda>(k, s).
     Some (rbind (tstore t (t_kstack_update (\<lambda>_. k)) s) (\<lambda>s.
     if k = 0 then rbind (k_kfree_task t s) (\<lambda>s. Inr (0, s))
     else case task_alloc_pid s of (pid, s) \<Rightarrow>
       rbind (tstore t (\<lambda>x. x\<lparr>t_kstack_size := KSTACK_SIZE, t_pid := pid, t_name := name, t_state := TASK_READY\<rparr>) s) (\<lambda>s.
       rbind (task_register t s) (\<lambda>s. Inr (t, s)))))))"

definition task_init :: "kern \<Rightarrow> kern res option" where
  "task_init s =
     obind (task_alloc ''bootstrap'' s) (\<lambda>(t, s).
     let s = s\<lparr>current := t\<rparr> in
     if t = 0 then Some (Inl (Panic ''task: cannot allocate bootstrap task''))
     else Some (tstore t (t_state_update (\<lambda>_. TASK_RUNNING)) s))"

section \<open>File descriptors\<close>

text \<open>The loop of \<^verbatim>\<open>proc_fd_alloc\<close> from slot \<open>i\<close> on.\<close>

fun fd_scan :: "nat \<Rightarrow> proc_fd list \<Rightarrow> nat option" where
  "fd_scan i [] = None"
| "fd_scan i (f # fs) = (if in_use f = 0 then Some i else fd_scan (Suc i) fs)"

definition proc_fd_alloc :: "u8 \<Rightarrow> task \<Rightarrow> int \<times> task" where
  "proc_fd_alloc type t = (case fd_scan 0 (take PROC_MAX_FDS (t_fds t)) of
     None \<Rightarrow> (- 24, t)
   | Some i \<Rightarrow> (int i, t\<lparr>t_fds := (t_fds t)[i := \<lparr>fd_type = type, in_use = 1\<rparr>]\<rparr>))"

definition proc_fd_free :: "int \<Rightarrow> task \<Rightarrow> task" where
  "proc_fd_free fd t = (if fd \<ge> 0 \<and> fd < int PROC_MAX_FDS
     then t\<lparr>t_fds := (t_fds t)[nat fd := (t_fds t ! nat fd)\<lparr>in_use := 0\<rparr>]\<rparr> else t)"

definition proc_fd_type :: "int \<Rightarrow> task \<Rightarrow> u8" where
  "proc_fd_type fd t = (if fd < 0 \<or> fd \<ge> int PROC_MAX_FDS \<or> in_use (t_fds t ! nat fd) = 0 then FD_NONE
     else fd_type (t_fds t ! nat fd))"

section \<open>The file descriptor table\<close>

lemma fd_scan_spec:
  "fd_scan k fs = None \<longleftrightarrow> (\<forall>f\<in>set fs. in_use f \<noteq> 0)"
  "fd_scan k fs = Some i \<longleftrightarrow>
    k \<le> i \<and> i < k + length fs \<and> in_use (fs ! (i - k)) = 0 \<and> (\<forall>j<i - k. in_use (fs ! j) \<noteq> 0)"
proof (induction fs arbitrary: k)
  case (Cons f fs)
  case 1
  show ?case using Cons(1) by auto
next
  case (Cons f fs)
  case 2
  show ?case
  proof (cases "in_use f = 0")
    case True
    then show ?thesis by (auto simp: nth_Cons split: nat.splits)
  next
    case False
    have "(\<forall>j<i - k. in_use ((f # fs) ! j) \<noteq> 0) \<longleftrightarrow> (\<forall>j<i - Suc k. in_use (fs ! j) \<noteq> 0)" if "Suc k \<le> i"
    proof -
      have "i - k = Suc (i - Suc k)" using that by simp
      then show ?thesis using False by (auto simp: All_less_Suc2)
    qed
    moreover have "(f # fs) ! (i - k) = fs ! (i - Suc k)" if "Suc k \<le> i"
      using that by (simp add: Suc_diff_Suc [symmetric])
    ultimately show ?thesis using False Cons(2) [of "Suc k"] by (cases "Suc k \<le> i") (auto simp: not_less_eq_eq le_Suc_eq)
  qed
qed auto

definition fds_ok :: "task \<Rightarrow> bool" where
  "fds_ok t \<longleftrightarrow> length (t_fds t) = PROC_MAX_FDS"

text \<open>
  The descriptor table behaves as POSIX asks. \<^verbatim>\<open>proc_fd_alloc\<close> gives out the lowest
  descriptor that is not in use and fails with \<open>-24\<close> (\<^verbatim>\<open>EMFILE\<close>) exactly when all sixteen are in
  use; the new descriptor has the type asked for and no other descriptor changes; closing it makes
  it free again.
\<close>

theorem proc_fd_alloc_lowest:
  assumes "fds_ok t" and "ty \<noteq> FD_NONE" and "proc_fd_alloc ty t = (fd, t')"
  shows "fds_ok t' \<and>
    (if \<forall>k<16. in_use (t_fds t ! k) \<noteq> 0 then fd = - 24 \<and> t' = t
     else 0 \<le> fd \<and> fd < 16 \<and> proc_fd_type fd t = FD_NONE \<and> (\<forall>k. 0 \<le> k \<and> k < fd \<longrightarrow> in_use (t_fds t ! nat k) \<noteq> 0) \<and>
       proc_fd_type fd t' = ty \<and> (\<forall>k. k \<noteq> fd \<longrightarrow> proc_fd_type k t' = proc_fd_type k t) \<and>
       proc_fd_type fd (proc_fd_free fd t') = FD_NONE)"
proof -
  have len: "length (t_fds t) = 16" using assms(1) by (simp add: fds_ok_def PROC_MAX_FDS_def)
  show ?thesis
  proof (cases "fd_scan 0 (t_fds t)")
    case None
    then have "\<forall>k<16. in_use (t_fds t ! k) \<noteq> 0" using len by (simp add: fd_scan_spec)
    then show ?thesis using None assms len by (simp add: proc_fd_alloc_def fds_ok_def PROC_MAX_FDS_def)
  next
    case (Some i)
    then have i: "i < 16" "in_use (t_fds t ! i) = 0" "\<forall>j<i. in_use (t_fds t ! j) \<noteq> 0" using len by (simp_all add: fd_scan_spec)
    have t': "fd = int i" "t' = t\<lparr>t_fds := (t_fds t)[i := \<lparr>fd_type = ty, in_use = 1\<rparr>]\<rparr>"
      using Some assms(3) len by (simp_all add: proc_fd_alloc_def PROC_MAX_FDS_def)
    have "proc_fd_type k t' = proc_fd_type k t" if "k \<noteq> fd" for k
      using that i(1) t' len by (auto simp: proc_fd_type_def PROC_MAX_FDS_def nth_list_update)
    moreover have "in_use (t_fds t ! nat k) \<noteq> 0" if "0 \<le> k" "k < fd" for k
      using i(3) that t'(1) by (simp add: nat_less_iff)
    ultimately show ?thesis
      using i t' len assms by (auto simp: proc_fd_type_def proc_fd_free_def fds_ok_def PROC_MAX_FDS_def FD_NONE_def)
  qed
qed

definition fd_example :: task where
  "fd_example = zero_task\<lparr>t_fds := (t_fds zero_task)[0 := \<lparr>fd_type = FD_CONSOLE_OUT, in_use = 1\<rparr>]\<rparr>"

theorem proc_fd_alloc_lowest_witness:
  "\<exists>t'. proc_fd_alloc FD_CONSOLE_IN fd_example = (1, t') \<and> proc_fd_type 1 t' = FD_CONSOLE_IN \<and>
    proc_fd_type 0 t' = FD_CONSOLE_OUT"
proof -
  have ex: "t_fds fd_example = \<lparr>fd_type = 2, in_use = 1\<rparr> # replicate 15 \<lparr>fd_type = 0, in_use = 0\<rparr>"
    by (simp add: fd_example_def zero_task_def PROC_MAX_FDS_def FD_CONSOLE_OUT_def numeral_eq_Suc)
  obtain t' where a: "proc_fd_alloc FD_CONSOLE_IN fd_example = (1, t')"
    by (simp add: proc_fd_alloc_def PROC_MAX_FDS_def ex numeral_eq_Suc)
  have "fds_ok fd_example" by (simp add: fds_ok_def ex PROC_MAX_FDS_def)
  moreover have "\<not> (\<forall>k<16. in_use (t_fds fd_example ! k) \<noteq> 0)"
    by (rule notI, drule spec [of _ 1]) (simp add: ex)
  moreover have "proc_fd_type 0 fd_example = FD_CONSOLE_OUT"
    by (simp add: proc_fd_type_def ex PROC_MAX_FDS_def FD_CONSOLE_OUT_def)
  moreover have "FD_CONSOLE_IN \<noteq> FD_NONE" by (simp add: FD_CONSOLE_IN_def FD_NONE_def)
  ultimately show ?thesis using proc_fd_alloc_lowest [OF _ _ a] a by auto
qed

end
