(* ===== verification/Queues.thy ===== *)
theory Queues
  imports Prelude
begin

text \<open>
  The contract of a first-in first-out queue, for the components that keep one (the scheduler's
  run queue, the keyboard's ring buffer): \<open>rel s xs\<close> says that state \<open>s\<close> holds the items \<open>xs\<close>,
  oldest first; \<open>adm s xs x\<close> says when \<open>x\<close> may be put.
\<close>

fun gets :: "('s \<Rightarrow> ('a option \<times> 's) res) \<Rightarrow> nat \<Rightarrow> 's \<Rightarrow> ('a list \<times> 's) res" where
  "gets get 0 s = Inr ([], s)"
| "gets get (Suc n) s = rbind (get s) (\<lambda>(x, s). case x of
     None \<Rightarrow> Inr ([], s)
   | Some x \<Rightarrow> rbind (gets get n s) (\<lambda>(xs, s). Inr (x # xs, s)))"

definition turn :: "('a \<Rightarrow> 's \<Rightarrow> 's res) \<Rightarrow> ('s \<Rightarrow> ('a option \<times> 's) res) \<Rightarrow> 's \<Rightarrow> 's res" where
  "turn put get s = rbind (get s) (\<lambda>(x, s). case x of None \<Rightarrow> Inr s | Some x \<Rightarrow> put x s)"

fun turns :: "('a \<Rightarrow> 's \<Rightarrow> 's res) \<Rightarrow> ('s \<Rightarrow> ('a option \<times> 's) res) \<Rightarrow> nat \<Rightarrow> 's \<Rightarrow> 's res" where
  "turns put get 0 s = Inr s"
| "turns put get (Suc n) s = rbind (turn put get s) (turns put get n)"

locale fifo =
  fixes rel :: "'s \<Rightarrow> 'a list \<Rightarrow> bool" and adm :: "'s \<Rightarrow> 'a list \<Rightarrow> 'a \<Rightarrow> bool"
    and put :: "'a \<Rightarrow> 's \<Rightarrow> 's res" and get :: "'s \<Rightarrow> ('a option \<times> 's) res"
  assumes put_rel: "rel s xs \<Longrightarrow> adm s xs x \<Longrightarrow> \<exists>s'. put x s = Inr s' \<and> rel s' (xs @ [x])"
    and get_none: "rel s [] \<Longrightarrow> \<exists>s'. get s = Inr (None, s') \<and> rel s' []"
    and get_some: "rel s (x # xs) \<Longrightarrow> \<exists>s'. get s = Inr (Some x, s') \<and> rel s' xs \<and> adm s' xs x"
begin

text \<open>Taking \<open>n\<close> items gives the oldest \<open>n\<close> in order, fewer when the queue runs empty.\<close>

lemma gets_take: "rel s xs \<Longrightarrow> \<exists>s'. gets get n s = Inr (take n xs, s') \<and> rel s' (drop n xs)"
proof (induction n arbitrary: s xs)
  case (Suc n)
  show ?case
  proof (cases xs)
    case Nil
    then show ?thesis using get_none Suc.prems by fastforce
  next
    case (Cons x ys)
    then obtain t where t: "get s = Inr (Some x, t)" "rel t ys" using get_some Suc.prems by blast
    from Suc.IH [OF t(2)] show ?thesis using Cons t(1) by auto
  qed
qed simp

text \<open>Taking the oldest item and putting it back rotates the queue.\<close>

lemma turn_rotate: "rel s xs \<Longrightarrow> \<exists>s'. turn put get s = Inr s' \<and> rel s' (rotate1 xs)"
proof (cases xs)
  case Nil
  then show "rel s xs \<Longrightarrow> ?thesis" using get_none by (fastforce simp: turn_def)
next
  case (Cons x ys)
  assume "rel s xs"
  then obtain t where t: "get s = Inr (Some x, t)" "rel t ys" "adm t ys x" using Cons get_some by blast
  then show ?thesis using put_rel [OF t(2,3)] Cons by (auto simp: turn_def)
qed

lemma turns_rotate: "rel s xs \<Longrightarrow> \<exists>s'. turns put get n s = Inr s' \<and> rel s' (rotate n xs)"
proof (induction n arbitrary: s xs)
  case (Suc n)
  obtain t where t: "turn put get s = Inr t" "rel t (rotate1 xs)" using turn_rotate Suc.prems by blast
  have "rotate n (rotate1 xs) = rotate (Suc n) xs" using rotate_rotate [of n 1 xs] by simp
  then show ?case using Suc.IH [OF t(2)] t(1) by auto
qed simp

text \<open>So every item reaches the front within as many turns as there are items before it.\<close>

lemma served: "rel s xs \<Longrightarrow> i < length xs \<Longrightarrow>
  \<exists>s' ys t. turns put get i s = Inr s' \<and> rel s' (xs ! i # ys) \<and> get s' = Inr (Some (xs ! i), t)"
proof -
  assume r: "rel s xs" and i: "i < length xs"
  obtain s' where s': "turns put get i s = Inr s'" "rel s' (rotate i xs)" using turns_rotate [OF r] by blast
  have "rotate i xs = drop i xs @ take i xs" using i by (simp add: rotate_drop_take)
  then obtain ys where ys: "rotate i xs = xs ! i # ys" using i by (metis Cons_nth_drop_Suc append_Cons)
  show ?thesis using s' get_some [of s' "xs ! i" ys] ys by auto
qed

end

end
