(* ===== verification/Sched.thy ===== *)
theory Sched
  imports Task Queues
begin

text \<open>
  The scheduler of \<^verbatim>\<open>core/cpu/sched.c\<close>, with the parts of \<^verbatim>\<open>task.c\<close> that call it. \<^verbatim>\<open>schedule\<close> is
  modelled up to the context switch: it returns the pair of tasks to switch between, or nothing
  when it keeps running the task it was called from. What \<^verbatim>\<open>schedule\<close> does after it is switched
  back in is \<open>schedule_resume\<close>. The run queue and the list of blocked tasks are linked through
  \<^verbatim>\<open>next\<close>; the lemmas relate them to lists.
\<close>

section \<open>The run queue\<close>

definition sched_enqueue :: "u64 \<Rightarrow> kern \<Rightarrow> kern res" where
  "sched_enqueue t s =
     rbind (tstore t (t_next_update (\<lambda>_. 0)) s) (\<lambda>s.
     rbind (if runqueue_tail s \<noteq> 0 then tstore (runqueue_tail s) (t_next_update (\<lambda>_. t)) s
            else Inr (s\<lparr>runqueue_head := t\<rparr>)) (\<lambda>s.
     Inr (s\<lparr>runqueue_tail := t, rq_size := rq_size s + 1\<rparr>)))"

definition sched_enqueue_user :: "u64 \<Rightarrow> kern \<Rightarrow> kern res" where
  "sched_enqueue_user t s =
     (case task_alloc_pid s of (pid, s) \<Rightarrow>
      rbind (tstore t (t_pid_update (\<lambda>_. pid)) s) (sched_enqueue t))"

definition dequeue :: "kern \<Rightarrow> (u64 \<times> kern) res" where
  "dequeue s =
     (let t = runqueue_head s in
      if t = 0 then Inr (0, s)
      else rbind (tload t s) (\<lambda>x.
        let s = s\<lparr>runqueue_head := t_next x\<rparr>;
            s = (if runqueue_head s = 0 then s\<lparr>runqueue_tail := 0\<rparr> else s)
        in rbind (tstore t (t_next_update (\<lambda>_. 0)) s) (\<lambda>s.
           Inr (t, s\<lparr>rq_size := rq_size s - 1\<rparr>))))"

definition sched_init :: "kern \<Rightarrow> kern" where
  "sched_init s = s\<lparr>runqueue_head := 0, runqueue_tail := 0\<rparr>"

section \<open>Choosing the next task\<close>

definition tss_set_rsp0 :: "u64 \<Rightarrow> kern \<Rightarrow> kern" where
  "tss_set_rsp0 rsp s = s\<lparr>tss_rsp0 := rsp\<rparr>"

definition reap_zombie :: "kern \<Rightarrow> kern res" where
  "reap_zombie s =
     (if zombie s \<noteq> 0 \<and> zombie s \<noteq> task_current s
      then rbind (tload (zombie s) s) (\<lambda>z.
           rbind (k_kfree (t_kstack z) s) (\<lambda>s.
           rbind (k_kfree_task (zombie s) s) (\<lambda>s.
           Inr (s\<lparr>zombie := 0\<rparr>))))
      else Inr s)"

definition switch_space :: "task \<Rightarrow> kern \<Rightarrow> kern" where
  "switch_space nxt s =
     (let v = hvm (kh s) in
      if t_cr3 nxt \<noteq> 0 \<and> t_cr3 nxt \<noteq> kernel_cr3 v
      then s\<lparr>kh := (kh s)\<lparr>hvm := vmm_switch (t_cr3 nxt) v\<rparr>\<rparr> else s)"

definition schedule :: "kern \<Rightarrow> ((u64 \<times> u64) option \<times> kern) res" where
  "schedule s =
     (let prev = task_current s in
      rbind (reap_zombie s) (\<lambda>s.
      rbind (dequeue s) (\<lambda>(nxt, s).
      rbind (tload prev s) (\<lambda>p.
      if nxt = 0
      then (if t_state p = TASK_DEAD \<or> t_state p = TASK_ZOMBIE then Inl Halted else Inr (None, s))
      else
        rbind (if t_state p = TASK_RUNNING
               then rbind (tstore prev (t_state_update (\<lambda>_. TASK_READY)) s) (sched_enqueue prev)
               else if t_state p = TASK_DEAD then Inr (s\<lparr>zombie := prev\<rparr>)
               else Inr s) (\<lambda>s.
        rbind (tstore nxt (t_state_update (\<lambda>_. TASK_RUNNING)) s) (\<lambda>s.
        let s = task_set_current nxt s in
        rbind (tload nxt s) (\<lambda>n.
        Inr (Some (prev, nxt), switch_space n (tss_set_rsp0 (t_kstack n + t_kstack_size n) s)))))))))"

definition schedule_resume :: "kern \<Rightarrow> kern res" where
  "schedule_resume s = reap_zombie s"

definition TIME_SLICE :: u64 where "TIME_SLICE = 2"

definition sched_tick :: "kern \<Rightarrow> ((u64 \<times> u64) option \<times> kern) res" where
  "sched_tick s =
     (let s1 = (if need_resched s then s else s\<lparr>ticks_since_switch := ticks_since_switch s + 1\<rparr>) in
      if \<not> need_resched s \<and> ticks_since_switch s1 < TIME_SLICE then Inr (None, s1)
      else schedule (s1\<lparr>need_resched := False, ticks_since_switch := 0\<rparr>))"

definition task_yield :: "kern \<Rightarrow> kern" where
  "task_yield s = s\<lparr>ticks_since_switch := 0, need_resched := True\<rparr>"

definition sched_start :: "kern \<Rightarrow> ((u64 \<times> u64) option \<times> kern) res" where
  "sched_start s = schedule (s\<lparr>kcon := kprintf (KLOG_INFO @ ''sched: %u tasks, starting preemptive round-robin'' @ nl)
     [KNum (ucast (ucast (task_count s) :: u32))] (kcon s)\<rparr>)"

section \<open>Blocking and waking\<close>

definition task_block :: "kern \<Rightarrow> ((u64 \<times> u64) option \<times> kern) res" where
  "task_block s =
     (let t = task_current s in
      rbind (tstore t (\<lambda>x. x\<lparr>t_state := TASK_BLOCKED, t_next := blocked_list s\<rparr>) s) (\<lambda>s.
      schedule (s\<lparr>blocked_list := t\<rparr>)))"

definition task_block_any :: "kern \<Rightarrow> ((u64 \<times> u64) option \<times> kern) res" where
  "task_block_any s =
     (let t = task_current s in
      rbind (tstore t (\<lambda>x. x\<lparr>t_state := TASK_BLOCKED, t_block_on := 0, t_next := blocked_list s\<rparr>) s) (\<lambda>s.
      schedule (s\<lparr>blocked_list := t\<rparr>)))"

text \<open>The pointer \<^verbatim>\<open>pp\<close> is \<open>None\<close> for \<^verbatim>\<open>&blocked_list\<close> and \<open>Some t\<close> for \<^verbatim>\<open>&t->next\<close>.\<close>

definition slot_get :: "u64 option \<Rightarrow> kern \<Rightarrow> u64 res" where
  "slot_get pp s = (case pp of None \<Rightarrow> Inr (blocked_list s) | Some t \<Rightarrow> rbind (tload t s) (\<lambda>x. Inr (t_next x)))"

definition slot_set :: "u64 option \<Rightarrow> u64 \<Rightarrow> kern \<Rightarrow> kern res" where
  "slot_set pp v s = (case pp of None \<Rightarrow> Inr (s\<lparr>blocked_list := v\<rparr>) | Some t \<Rightarrow> tstore t (t_next_update (\<lambda>_. v)) s)"

definition unblock :: "u64 option \<Rightarrow> u64 \<Rightarrow> task \<Rightarrow> kern \<Rightarrow> kern res" where
  "unblock pp t x s =
     rbind (slot_set pp (t_next x) s) (\<lambda>s.
     rbind (tstore t (\<lambda>x. x\<lparr>t_next := 0, t_state := TASK_READY\<rparr>) s) (sched_enqueue t))"

partial_function (option) wakeup_children_from :: "u64 \<Rightarrow> u64 \<Rightarrow> u64 option \<Rightarrow> kern \<Rightarrow> kern res option" where
  "wakeup_children_from exiting_pid exiting_ppid pp s =
     (case slot_get pp s of
        Inl e \<Rightarrow> Some (Inl e)
      | Inr t \<Rightarrow>
        if t = 0 then Some (Inr s)
        else case tload t s of
          Inl e \<Rightarrow> Some (Inl e)
        | Inr x \<Rightarrow>
          if (t_block_on x = 0 \<and> t_pid x = exiting_ppid) \<or> t_block_on x = exiting_pid
          then (case unblock pp t x s of
                  Inl e \<Rightarrow> Some (Inl e)
                | Inr s \<Rightarrow> wakeup_children_from exiting_pid exiting_ppid pp s)
          else wakeup_children_from exiting_pid exiting_ppid (Some t) s)"

definition task_wakeup_children :: "u64 \<Rightarrow> u64 \<Rightarrow> kern \<Rightarrow> kern res option" where
  "task_wakeup_children exiting_pid exiting_ppid s = wakeup_children_from exiting_pid exiting_ppid None s"

partial_function (option) wakeup_from :: "u64 \<Rightarrow> u64 option \<Rightarrow> kern \<Rightarrow> kern res option" where
  "wakeup_from pid pp s =
     (case slot_get pp s of
        Inl e \<Rightarrow> Some (Inl e)
      | Inr t \<Rightarrow>
        if t = 0 then Some (Inr s)
        else case tload t s of
          Inl e \<Rightarrow> Some (Inl e)
        | Inr x \<Rightarrow>
          if t_block_on x = pid then Some (unblock pp t x s)
          else wakeup_from pid (Some t) s)"

definition task_wakeup :: "u64 \<Rightarrow> kern \<Rightarrow> kern res option" where
  "task_wakeup pid s = wakeup_from pid None s"

section \<open>Creating and ending kernel tasks\<close>

text \<open>
  The initial kernel stack: what \<^verbatim>\<open>switch_to\<close> pops (r15, r14, r13, r12, rbx, rbp) and the
  address it returns to. \<open>trampoline\<close> is the address of \<^verbatim>\<open>task_entry_trampoline\<close>.
\<close>

fun push64 :: "u64 \<Rightarrow> u64 \<times> bytes \<Rightarrow> u64 \<times> bytes" where
  "push64 v (sp, m) = (sp - 8, put64 (sp - 8) v m)"

definition switch_frame :: "u64 \<Rightarrow> u64 \<Rightarrow> u64 \<Rightarrow> u64 \<Rightarrow> u64 \<Rightarrow> bytes \<Rightarrow> u64 \<times> bytes" where
  "switch_frame ret r12 r13 r14 sp m = fold push64 [ret, 0, 0, r12, r13, r14, 0] (sp, m)"

definition stack_top :: "task \<Rightarrow> u64" where
  "stack_top x = (t_kstack x + t_kstack_size x) AND NOT 0xF"

definition task_create :: "u64 \<Rightarrow> string \<Rightarrow> u64 \<Rightarrow> u64 \<Rightarrow> kern \<Rightarrow> (u64 \<times> kern) res option" where
  "task_create trampoline name fn arg s =
     obind (task_alloc name s) (\<lambda>(t, s).
     if t = 0 then Some (Inr (0, s))
     else Some (rbind (tload t s) (\<lambda>x.
       case switch_frame trampoline fn arg 0 (stack_top x) (hmem (kh s)) of (sp, m) \<Rightarrow>
       rbind (tstore t (t_rsp_update (\<lambda>_. sp)) (s\<lparr>kh := (kh s)\<lparr>hmem := m\<rparr>\<rparr>)) (\<lambda>s.
       rbind (sched_enqueue t s) (\<lambda>s. Inr (t, s))))))"

definition task_exit :: "kern \<Rightarrow> ((u64 \<times> u64) option \<times> kern) res" where
  "task_exit s =
     (let t = task_current s in
      rbind (tstore t (t_state_update (\<lambda>_. TASK_DEAD)) s) (\<lambda>s.
      rbind (tload t s) (\<lambda>x.
      schedule (s\<lparr>kcon := kprintf (KLOG_INFO @ ''task '' @ [CHR 0x27] @ ''%s'' @ [CHR 0x27] @ '' (pid %u) exiting'' @ nl)
        [KStr (Some (t_name x)), KNum (ucast (ucast (t_pid x) :: u32))] (kcon s)\<rparr>))))"

section \<open>Linked lists of tasks\<close>

lemma tload_live: "tasks s p = Some t \<Longrightarrow> p \<noteq> 0 \<Longrightarrow> tload p s = Inr t"
  by (simp add: tload_def)

lemma tstore_live: "tasks s p = Some t \<Longrightarrow> p \<noteq> 0 \<Longrightarrow> tstore p f s = Inr (s\<lparr>tasks := (tasks s)(p \<mapsto> f t)\<rparr>)"
  by (simp add: tstore_def tload_live)

lemmas task_access = tload_live tstore_live

type_synonym task_store = "u64 \<Rightarrow> task option"

fun tseg :: "task_store \<Rightarrow> u64 \<Rightarrow> u64 list \<Rightarrow> u64 \<Rightarrow> bool" where
  "tseg ts p [] q \<longleftrightarrow> p = q"
| "tseg ts p (x # xs) q \<longleftrightarrow> p = x \<and> x \<noteq> 0 \<and> (\<exists>t. ts x = Some t \<and> tseg ts (t_next t) xs q)"

lemma tseg_append: "tseg ts p (xs @ ys) q \<longleftrightarrow> (\<exists>r. tseg ts p xs r \<and> tseg ts r ys q)"
  by (induction xs arbitrary: p) auto

lemma tseg_live: "tseg ts p xs q \<Longrightarrow> x \<in> set xs \<Longrightarrow> x \<noteq> 0 \<and> (\<exists>t. ts x = Some t)"
  by (induction xs arbitrary: p) auto

lemma tseg_cong:
  "(\<And>x. x \<in> set xs \<Longrightarrow> map_option t_next (ts' x) = map_option t_next (ts x)) \<Longrightarrow> tseg ts' p xs q \<longleftrightarrow> tseg ts p xs q"
proof (induction xs arbitrary: p)
  case (Cons x xs)
  have x: "map_option t_next (ts' x) = map_option t_next (ts x)" and IH: "tseg ts' p xs q \<longleftrightarrow> tseg ts p xs q" for p
    using Cons by simp_all
  from x show ?case by (auto simp: IH map_option_eq_Some dest: sym)
      (metis (no_types, lifting) map_option_eq_Some)+
qed simp

lemma tseg_other: "x \<notin> set xs \<Longrightarrow> tseg (ts(x := v)) p xs q \<longleftrightarrow> tseg ts p xs q"
  by (rule tseg_cong) auto

lemma tseg_set_last:
  assumes "tseg ts p (xs @ [x]) q" "x \<notin> set xs" "ts x = Some t"
  shows "tseg (ts(x \<mapsto> t\<lparr>t_next := r\<rparr>)) p (xs @ [x]) r"
  using assms by (auto simp: tseg_append tseg_other)

definition rq_rel :: "kern \<Rightarrow> u64 list \<Rightarrow> bool" where
  "rq_rel s xs \<longleftrightarrow> tseg (tasks s) (runqueue_head s) xs 0 \<and> distinct xs \<and>
     runqueue_tail s = (if xs = [] then 0 else last xs) \<and> rq_size s = of_nat (length xs)"

text \<open>The state outside the run queue's own variables and links.\<close>

definition same_tasks :: "u64 set \<Rightarrow> kern \<Rightarrow> kern \<Rightarrow> bool" where
  "same_tasks A s s' \<longleftrightarrow> (\<forall>p. p \<notin> A \<longrightarrow> tasks s' p = tasks s p) \<and>
     (\<forall>p\<in>A. map_option (t_next_update (\<lambda>_. 0)) (tasks s' p) = map_option (t_next_update (\<lambda>_. 0)) (tasks s p))"

definition queue_frame :: "u64 set \<Rightarrow> kern \<Rightarrow> kern \<Rightarrow> bool" where
  "queue_frame A s s' \<longleftrightarrow> same_tasks A s s' \<and>
     s' = s\<lparr>tasks := tasks s', runqueue_head := runqueue_head s', runqueue_tail := runqueue_tail s', rq_size := rq_size s'\<rparr>"

lemma sched_enqueue_correct:
  assumes q: "rq_rel s xs" and t: "tasks s t = Some x" "t \<noteq> 0" "t \<notin> set xs"
  shows "\<exists>s'. sched_enqueue t s = Inr s' \<and> rq_rel s' (xs @ [t]) \<and> queue_frame (insert t (set xs)) s s'"
proof (cases xs rule: rev_cases)
  case Nil
  then show ?thesis using q t
    by (auto simp: sched_enqueue_def task_access rq_rel_def queue_frame_def same_tasks_def)
next
  case (snoc ys y)
  then have y: "runqueue_tail s = y" "y \<noteq> t" "y \<notin> set ys" using q t(3) by (auto simp: rq_rel_def)
  obtain v where v: "tasks s y = Some v" "y \<noteq> 0"
    using q snoc tseg_live [of "tasks s" "runqueue_head s" xs 0 y] by (auto simp: rq_rel_def)
  let ?ts = "(tasks s)(t \<mapsto> x\<lparr>t_next := 0\<rparr>)"
  let ?ts' = "?ts(y \<mapsto> v\<lparr>t_next := t\<rparr>)"
  have "tseg ?ts (runqueue_head s) (ys @ [y]) 0" using q t(3) snoc by (simp add: rq_rel_def tseg_other)
  from tseg_set_last [OF this y(3), of v t] have "tseg ?ts' (runqueue_head s) (ys @ [y]) t" using v y by simp
  moreover have "?ts' t = Some (x\<lparr>t_next := 0\<rparr>)" using y by simp
  ultimately have "tseg ?ts' (runqueue_head s) (xs @ [t]) 0" using t(2) snoc by (auto simp: tseg_append simp del: append_assoc)
  moreover have "sched_enqueue t s = Inr (s\<lparr>tasks := ?ts', runqueue_tail := t, rq_size := rq_size s + 1\<rparr>)"
    using y v t by (simp add: sched_enqueue_def task_access)
  ultimately show ?thesis
    using q t v y snoc by (auto simp: rq_rel_def queue_frame_def same_tasks_def)
qed

lemma dequeue_empty: "rq_rel s [] \<Longrightarrow> dequeue s = Inr (0, s)"
  by (simp add: rq_rel_def dequeue_def)

lemma dequeue_correct:
  assumes q: "rq_rel s (x # xs)"
  shows "\<exists>s'. dequeue s = Inr (x, s') \<and> rq_rel s' xs \<and> queue_frame {x} s s'"
proof -
  obtain v where v: "tasks s x = Some v" "x \<noteq> 0" "runqueue_head s = x" "tseg (tasks s) (t_next v) xs 0" "x \<notin> set xs"
    using q by (auto simp: rq_rel_def)
  have "t_next v = 0 \<longleftrightarrow> xs = []" using v(4) by (cases xs) auto
  then show ?thesis using q v
    by (auto simp: dequeue_def Let_def task_access rq_rel_def queue_frame_def same_tasks_def tseg_other)
qed

text \<open>The run queue is a first-in first-out queue.\<close>

definition rq_get :: "kern \<Rightarrow> (u64 option \<times> kern) res" where
  "rq_get s = rbind (dequeue s) (\<lambda>(t, s). Inr (if t = 0 then None else Some t, s))"

definition rq_adm :: "kern \<Rightarrow> u64 list \<Rightarrow> u64 \<Rightarrow> bool" where
  "rq_adm s xs t \<longleftrightarrow> t \<noteq> 0 \<and> tasks s t \<noteq> None \<and> t \<notin> set xs"

interpretation rq: fifo rq_rel rq_adm sched_enqueue rq_get
proof
  show "\<exists>s'. sched_enqueue x s = Inr s' \<and> rq_rel s' (xs @ [x])" if "rq_rel s xs" "rq_adm s xs x" for s xs x
    using that sched_enqueue_correct [OF that(1)] by (auto simp: rq_adm_def)
  show "\<exists>s'. rq_get s = Inr (None, s') \<and> rq_rel s' []" if "rq_rel s []" for s
    using that by (simp add: rq_get_def dequeue_empty)
  show "\<exists>s'. rq_get s = Inr (Some x, s') \<and> rq_rel s' xs \<and> rq_adm s' xs x" if q: "rq_rel s (x # xs)" for s x xs
  proof -
    obtain s' where s': "dequeue s = Inr (x, s')" "rq_rel s' xs" "queue_frame {x} s s'"
      using dequeue_correct [OF q] by blast
    have "x \<noteq> 0" "tasks s x \<noteq> None" "x \<notin> set xs"
      using q tseg_live [of "tasks s" "runqueue_head s" "x # xs" 0 x] by (auto simp: rq_rel_def)
    moreover have "tasks s' x \<noteq> None" using s'(3) calculation(2) by (auto simp: queue_frame_def same_tasks_def)
    ultimately show ?thesis using s' by (simp add: rq_get_def rq_adm_def)
  qed
qed

section \<open>The effect of schedule\<close>

text \<open>A task object up to its list link.\<close>

definition tcore :: "kern \<Rightarrow> u64 \<Rightarrow> task option" where
  "tcore s q = map_option (t_next_update (\<lambda>_. 0)) (tasks s q)"

lemma queue_frameD:
  assumes "queue_frame A s s'"
  shows "tcore s' = tcore s" "q \<notin> A \<Longrightarrow> tasks s' q = tasks s q" "current s' = current s" "zombie s' = zombie s"
    "blocked_list s' = blocked_list s" "all_tasks s' = all_tasks s" "next_pid s' = next_pid s" "kh s' = kh s"
    "need_resched s' = need_resched s" "ticks_since_switch s' = ticks_since_switch s" "kcon s' = kcon s"
proof -
  have "same_tasks A s s'" and e: "s' = s\<lparr>tasks := tasks s', runqueue_head := runqueue_head s', runqueue_tail := runqueue_tail s', rq_size := rq_size s'\<rparr>"
    using assms by (simp_all add: queue_frame_def)
  then show "tcore s' = tcore s" "q \<notin> A \<Longrightarrow> tasks s' q = tasks s q"
    unfolding same_tasks_def tcore_def by (fastforce intro!: ext, blast)
  show "current s' = current s" "zombie s' = zombie s" "blocked_list s' = blocked_list s" "all_tasks s' = all_tasks s"
    "next_pid s' = next_pid s" "kh s' = kh s" "need_resched s' = need_resched s"
    "ticks_since_switch s' = ticks_since_switch s" "kcon s' = kcon s"
    by (subst e, simp)+
qed

definition after_switch :: "u64 \<Rightarrow> kern \<Rightarrow> kern \<Rightarrow> bool" where
  "after_switch x s s' \<longleftrightarrow> current s' = x \<and> zombie s' = zombie s \<and> blocked_list s' = blocked_list s \<and>
     all_tasks s' = all_tasks s \<and> next_pid s' = next_pid s \<and> need_resched s' = need_resched s \<and>
     ticks_since_switch s' = ticks_since_switch s \<and> kcon s' = kcon s \<and>
     (\<exists>n. tasks s' x = Some n \<and> tss_rsp0 s' = t_kstack n + t_kstack_size n)"

lemma finish_switch:
  assumes "tasks s x = Some n" "x \<noteq> 0" "t_state p \<noteq> TASK_DEAD"
  shows "\<exists>s'. rbind (tstore x (t_state_update (\<lambda>_. TASK_RUNNING)) s) (\<lambda>s.
        let s = task_set_current x s in
        rbind (tload x s) (\<lambda>n.
        Inr (Some (prev, x), switch_space n (tss_set_rsp0 (t_kstack n + t_kstack_size n) s)))) = Inr (Some (prev, x), s') \<and>
      after_switch x s s' \<and> tasks s' = (tasks s)(x \<mapsto> n\<lparr>t_state := TASK_RUNNING\<rparr>) \<and>
      runqueue_head s' = runqueue_head s \<and> runqueue_tail s' = runqueue_tail s \<and> rq_size s' = rq_size s"
  using assms by (auto simp: task_access task_set_current_def tss_set_rsp0_def switch_space_def Let_def after_switch_def)

lemma schedule_running:
  assumes q: "rq_rel s (x # xs)" and z: "zombie s = 0" and c: "current s = c" "c \<noteq> 0" "tasks s c = Some p"
    "c \<notin> set (x # xs)" "t_state p = TASK_RUNNING"
  shows "\<exists>s'. schedule s = Inr (Some (c, x), s') \<and> rq_rel s' (xs @ [c]) \<and> after_switch x s s' \<and>
    (\<forall>q. q \<notin> set (c # x # xs) \<longrightarrow> tasks s' q = tasks s q) \<and>
    tcore s' = (tcore s)(c := map_option (t_state_update (\<lambda>_. TASK_READY)) (tcore s c),
      x := map_option (t_state_update (\<lambda>_. TASK_RUNNING)) (tcore s x))"
proof -
  obtain s1 where d: "dequeue s = Inr (x, s1)" "rq_rel s1 xs" "queue_frame {x} s s1" using dequeue_correct [OF q] by blast
  note f1 = queue_frameD [OF d(3)]
  have x: "x \<noteq> 0" "x \<notin> set xs" "x \<noteq> c" using q c tseg_live [of "tasks s" _ "x # xs" 0 x] by (auto simp: rq_rel_def)
  have c1: "tasks s1 c = Some p" using f1(2) [of c] x c by simp
  let ?s2 = "s1\<lparr>tasks := (tasks s1)(c \<mapsto> p\<lparr>t_state := TASK_READY\<rparr>)\<rparr>"
  have q2: "rq_rel ?s2 xs" using d(2) c by (auto simp: rq_rel_def tseg_other)
  have "tasks ?s2 c = Some (p\<lparr>t_state := TASK_READY\<rparr>)" "c \<notin> set xs" using c by auto
  then obtain s3 where e: "sched_enqueue c ?s2 = Inr s3" "rq_rel s3 (xs @ [c])" "queue_frame (insert c (set xs)) ?s2 s3"
    using sched_enqueue_correct [OF q2 _ c(2)] by blast
  note f3 = queue_frameD [OF e(3)]
  obtain n where n: "tasks s3 x = Some n"
  proof -
    have "tasks s x \<noteq> None" using q by (auto simp: rq_rel_def)
    then have "tasks s1 x \<noteq> None" using f1(1) by (metis (mono_tags) tcore_def map_option_is_None)
    then show ?thesis using f3(2) [of x] x that by auto
  qed
  have "t_state p \<noteq> TASK_DEAD" using c by (simp add: task_states)
  from finish_switch [OF n x(1) this, of c] obtain s' where s': "after_switch x s3 s'"
    "tasks s' = (tasks s3)(x \<mapsto> n\<lparr>t_state := TASK_RUNNING\<rparr>)" "runqueue_head s' = runqueue_head s3"
    "runqueue_tail s' = runqueue_tail s3" "rq_size s' = rq_size s3"
    and run: "schedule s = Inr (Some (c, x), s')"
    using d(1) c1 c x e(1) z by (auto simp: schedule_def reap_zombie_def task_current_def Let_def task_access)
  have "rq_rel s' (xs @ [c])" using e(2) s' x by (auto simp: rq_rel_def tseg_other)
  moreover have "after_switch x s s'" using s'(1) f1 f3 by (simp add: after_switch_def)
  moreover have "tasks s' q = tasks s q" if "q \<notin> set (c # x # xs)" for q
    using that s'(2) f3(2) [of q] f1(2) [of q] by auto
  moreover have "tcore s' = (tcore s)(c := map_option (t_state_update (\<lambda>_. TASK_READY)) (tcore s c),
      x := map_option (t_state_update (\<lambda>_. TASK_RUNNING)) (tcore s x))"
  proof -
    have "tcore s3 = (tcore s)(c := map_option (t_state_update (\<lambda>_. TASK_READY)) (tcore s c))"
    proof
      fix q
      have "tcore s3 q = tcore ?s2 q" "tcore s1 q = tcore s q" using f3(1) f1(1) by simp_all
      then show "tcore s3 q = ((tcore s)(c := map_option (t_state_update (\<lambda>_. TASK_READY)) (tcore s c))) q"
        using c(3) by (simp add: tcore_def)
    qed
    moreover have "tcore s' = (tcore s3)(x := map_option (t_state_update (\<lambda>_. TASK_RUNNING)) (tcore s3 x))"
      using n by (auto simp: tcore_def s'(2))
    ultimately show ?thesis using x(3) by simp
  qed
  ultimately show ?thesis using run by blast
qed

lemma schedule_leave:
  assumes q: "rq_rel s (x # xs)" and z: "zombie s = 0" and c: "current s = c" "c \<noteq> 0" "tasks s c = Some p"
    "c \<notin> set (x # xs)" "t_state p \<noteq> TASK_RUNNING" "t_state p \<noteq> TASK_DEAD"
  shows "\<exists>s'. schedule s = Inr (Some (c, x), s') \<and> rq_rel s' xs \<and> after_switch x s s' \<and>
    (\<forall>q. q \<noteq> x \<longrightarrow> tasks s' q = tasks s q) \<and>
    tcore s' = (tcore s)(x := map_option (t_state_update (\<lambda>_. TASK_RUNNING)) (tcore s x))"
proof -
  obtain s1 where d: "dequeue s = Inr (x, s1)" "rq_rel s1 xs" "queue_frame {x} s s1" using dequeue_correct [OF q] by blast
  note f1 = queue_frameD [OF d(3)]
  have x: "x \<noteq> 0" "x \<notin> set xs" "x \<noteq> c" using q c tseg_live [of "tasks s" _ "x # xs" 0 x] by (auto simp: rq_rel_def)
  have c1: "tasks s1 c = Some p" using f1(2) [of c] x c by simp
  obtain n where n: "tasks s1 x = Some n"
  proof -
    have "tasks s x \<noteq> None" using q by (auto simp: rq_rel_def)
    then have "tasks s1 x \<noteq> None" using f1(1) by (metis (mono_tags) tcore_def map_option_is_None)
    then show ?thesis using that by auto
  qed
  from finish_switch [OF n x(1) c(6), of c] obtain s' where s': "after_switch x s1 s'"
    "tasks s' = (tasks s1)(x \<mapsto> n\<lparr>t_state := TASK_RUNNING\<rparr>)" "runqueue_head s' = runqueue_head s1"
    "runqueue_tail s' = runqueue_tail s1" "rq_size s' = rq_size s1"
    and run: "schedule s = Inr (Some (c, x), s')"
    using d(1) c1 c x z by (auto simp: schedule_def reap_zombie_def task_current_def Let_def task_access)
  have "rq_rel s' xs" using d(2) s' x by (auto simp: rq_rel_def tseg_other)
  moreover have "after_switch x s s'" using s'(1) f1 by (simp add: after_switch_def)
  moreover have "tasks s' q = tasks s q" if "q \<noteq> x" for q using that s'(2) f1(2) [of q] by auto
  moreover have "tcore s' = (tcore s)(x := map_option (t_state_update (\<lambda>_. TASK_RUNNING)) (tcore s x))"
  proof -
    have "tcore s' = (tcore s1)(x := map_option (t_state_update (\<lambda>_. TASK_RUNNING)) (tcore s1 x))"
      using n by (auto simp: tcore_def s'(2))
    then show ?thesis using f1(1) by simp
  qed
  ultimately show ?thesis using run by blast
qed

lemma schedule_alone:
  assumes "rq_rel s []" and "zombie s = 0" and "current s = c" "c \<noteq> 0" "tasks s c = Some p"
  shows "schedule s = (if t_state p = TASK_DEAD \<or> t_state p = TASK_ZOMBIE then Inl Halted else Inr (None, s))"
  using assms by (simp add: schedule_def reap_zombie_def task_current_def Let_def task_access dequeue_empty)

section \<open>The scheduler invariant\<close>

definition tstate :: "kern \<Rightarrow> u64 \<Rightarrow> int option" where
  "tstate s q = map_option t_state (tasks s q)"

lemma tstate_core: "tstate s q = map_option t_state (tcore s q)"
  by (simp add: tstate_def tcore_def option.map_comp comp_def)

text \<open>
  \<open>xs\<close> is the run queue, \<open>ys\<close> the list of blocked tasks. The task \<open>idle\<close> is the one that never
  blocks and never ends.
\<close>

definition sched_wf :: "u64 \<Rightarrow> u64 list \<Rightarrow> u64 list \<Rightarrow> kern \<Rightarrow> bool" where
  "sched_wf idle xs ys s \<longleftrightarrow> rq_rel s xs \<and> tseg (tasks s) (blocked_list s) ys 0 \<and> distinct (current s # xs @ ys) \<and>
     current s \<noteq> 0 \<and> tstate s (current s) = Some TASK_RUNNING \<and> (\<forall>x\<in>set xs. tstate s x = Some TASK_READY) \<and>
     (\<forall>y\<in>set ys. tstate s y = Some TASK_BLOCKED) \<and> zombie s = 0 \<and> idle \<in> set (current s # xs)"

lemma sched_wf_disjoint: "sched_wf idle xs ys s \<Longrightarrow> y \<in> set ys \<Longrightarrow> y \<notin> set (current s # xs)"
  by (auto simp: sched_wf_def)

lemma schedule_preserves:
  assumes wf: "sched_wf idle xs ys s"
  shows "\<exists>sw s' xs'. schedule s = Inr (sw, s') \<and> sched_wf idle xs' ys s' \<and> current s' # xs' = rotate1 (current s # xs)"
proof (cases xs)
  case Nil
  obtain p where p: "tasks s (current s) = Some p" "t_state p = TASK_RUNNING" using wf by (auto simp: sched_wf_def tstate_def)
  have "schedule s = Inr (None, s)"
    using schedule_alone [of s "current s" p] wf Nil p by (simp add: sched_wf_def task_states)
  then show ?thesis using wf Nil by auto
next
  case (Cons x zs)
  obtain p where p: "tasks s (current s) = Some p" "t_state p = TASK_RUNNING" using wf by (auto simp: sched_wf_def tstate_def)
  have "rq_rel s (x # zs)" "zombie s = 0" "current s \<noteq> 0" "current s \<notin> set (x # zs)"
    using wf Cons by (simp_all add: sched_wf_def)
  from schedule_running [OF this(1,2) refl this(3) p(1) this(4) p(2)] obtain s' where
    s': "schedule s = Inr (Some (current s, x), s')" "rq_rel s' (zs @ [current s])" "after_switch x s s'"
      "\<forall>q. q \<notin> set (current s # x # zs) \<longrightarrow> tasks s' q = tasks s q"
      "tcore s' = (tcore s)(current s := map_option (t_state_update (\<lambda>_. TASK_READY)) (tcore s (current s)),
        x := map_option (t_state_update (\<lambda>_. TASK_RUNNING)) (tcore s x))" by blast
  have live: "tcore s q \<noteq> None" if "tstate s q = Some v" for q v using that by (auto simp: tstate_core)
  have "sched_wf idle (zs @ [current s]) ys s'"
  proof -
    have "tasks s' y = tasks s y" if "y \<in> set ys" for y
      using s'(4) sched_wf_disjoint [OF wf that] Cons by blast
    then have "tseg (tasks s') (blocked_list s') ys 0"
      using wf s'(3) by (subst tseg_cong [where ts = "tasks s"]) (simp_all add: sched_wf_def after_switch_def)
    moreover have "tstate s' q = (if q = x then Some TASK_RUNNING else if q = current s then Some TASK_READY else tstate s q)"
      if "q \<in> set (current s # x # zs @ ys)" for q
      using that wf Cons by (auto simp: tstate_core s'(5) sched_wf_def option.map_comp comp_def)
    moreover have "x \<noteq> 0" using wf Cons by (auto simp: sched_wf_def rq_rel_def)
    ultimately show ?thesis
      using wf Cons s'(2,3) by (auto simp: sched_wf_def after_switch_def)
  qed
  moreover have "current s' = x" using s'(3) by (simp add: after_switch_def)
  ultimately show ?thesis using s'(1) Cons by auto
qed

section \<open>Waking\<close>

definition slot_after :: "u64 list \<Rightarrow> u64 option" where
  "slot_after us = (if us = [] then None else Some (last us))"

lemma tseg_relink:
  assumes seg: "tseg (tasks s) (blocked_list s) (us @ v # vs) 0" and d: "distinct (us @ v # vs)"
    and x: "tasks s v = Some x"
  shows "\<exists>s'. slot_get (slot_after us) s = Inr v \<and> slot_set (slot_after us) (t_next x) s = Inr s' \<and>
    tseg (tasks s') (blocked_list s') (us @ vs) 0 \<and> tasks s' v = Some x \<and> tcore s' = tcore s \<and>
    (\<forall>q. q \<notin> set us \<longrightarrow> tasks s' q = tasks s q) \<and> s' = s\<lparr>tasks := tasks s', blocked_list := blocked_list s'\<rparr>"
proof (cases us rule: rev_cases)
  case Nil
  then show ?thesis using assms by (auto simp: slot_after_def slot_get_def slot_set_def tcore_def)
next
  case (snoc zs z)
  then obtain y where y: "tasks s z = Some y" "t_next y = v" "z \<noteq> 0" "tseg (tasks s) (blocked_list s) (zs @ [z]) v"
    "tseg (tasks s) (t_next x) vs 0"
    using seg x by (auto simp: tseg_append)
  let ?ts = "(tasks s)(z \<mapsto> y\<lparr>t_next := t_next x\<rparr>)"
  have "z \<notin> set zs" using d snoc by auto
  from tseg_set_last [OF y(4) this y(1), of "t_next x"] have "tseg ?ts (blocked_list s) (zs @ [z]) (t_next x)" .
  moreover have "tseg ?ts (t_next x) vs 0" using y(5) d snoc by (subst tseg_other) auto
  ultimately have "tseg ?ts (blocked_list s) (us @ vs) 0" using snoc by (auto simp: tseg_append)
  moreover have "z \<noteq> v" using d snoc by auto
  moreover have "tcore (s\<lparr>tasks := ?ts\<rparr>) = tcore s" by (rule ext) (use y(1) in \<open>simp add: tcore_def\<close>)
  ultimately show ?thesis using snoc y x
    by (intro exI [of _ "s\<lparr>tasks := ?ts\<rparr>"]) (simp add: slot_after_def slot_get_def slot_set_def task_access)
qed

definition wake_frame :: "u64 set \<Rightarrow> kern \<Rightarrow> kern \<Rightarrow> bool" where
  "wake_frame A s s' \<longleftrightarrow> (\<forall>q. q \<notin> A \<longrightarrow> tasks s' q = tasks s q) \<and> current s' = current s \<and> zombie s' = zombie s \<and>
     all_tasks s' = all_tasks s \<and> next_pid s' = next_pid s \<and> kh s' = kh s \<and> need_resched s' = need_resched s \<and>
     ticks_since_switch s' = ticks_since_switch s \<and> kcon s' = kcon s"

lemma wake_frame_refl: "wake_frame A s s"
  by (simp add: wake_frame_def)

lemma wake_frame_trans: "wake_frame A s t \<Longrightarrow> wake_frame B t u \<Longrightarrow> A \<union> B \<subseteq> C \<Longrightarrow> wake_frame C s u"
  unfolding wake_frame_def by (metis UnCI subsetD)

definition ready :: "task option \<Rightarrow> task option" where
  "ready = map_option (t_state_update (\<lambda>_. TASK_READY))"

lemma unblock_correct:
  assumes q: "rq_rel s xs" and seg: "tseg (tasks s) (blocked_list s) (us @ v # vs) 0" and d: "distinct (xs @ us @ v # vs)"
    and x: "tasks s v = Some x"
  shows "\<exists>s'. unblock (slot_after us) v x s = Inr s' \<and> rq_rel s' (xs @ [v]) \<and>
    tseg (tasks s') (blocked_list s') (us @ vs) 0 \<and> tcore s' = (tcore s)(v := ready (tcore s v)) \<and>
    wake_frame (set (xs @ us @ [v])) s s'"
proof -
  have v0: "v \<noteq> 0" using tseg_live [OF seg, of v] by simp
  have d': "distinct (us @ v # vs)" using d by simp
  from tseg_relink [OF seg d' x] obtain s1 where s1: "slot_set (slot_after us) (t_next x) s = Inr s1"
    "tseg (tasks s1) (blocked_list s1) (us @ vs) 0" "tasks s1 v = Some x" "tcore s1 = tcore s"
    "\<forall>q. q \<notin> set us \<longrightarrow> tasks s1 q = tasks s q" and e1: "s1 = s\<lparr>tasks := tasks s1, blocked_list := blocked_list s1\<rparr>"
    by blast
  let ?x = "x\<lparr>t_next := 0, t_state := TASK_READY\<rparr>"
  let ?s2 = "s1\<lparr>tasks := (tasks s1)(v \<mapsto> ?x)\<rparr>"
  have f1: "runqueue_head s1 = runqueue_head s" "runqueue_tail s1 = runqueue_tail s" "rq_size s1 = rq_size s"
    "current s1 = current s" "zombie s1 = zombie s" "all_tasks s1 = all_tasks s" "next_pid s1 = next_pid s" "kh s1 = kh s"
    "need_resched s1 = need_resched s" "ticks_since_switch s1 = ticks_since_switch s" "kcon s1 = kcon s"
    by (subst e1, simp)+
  have "tseg (tasks ?s2) (runqueue_head s) xs 0"
    using q s1(5) d by (subst tseg_cong [where ts = "tasks s"]) (auto simp: rq_rel_def)
  then have q2: "rq_rel ?s2 xs" using q f1 by (simp add: rq_rel_def)
  have "tasks ?s2 v = Some ?x" "v \<notin> set xs" using d by auto
  then obtain s' where s': "sched_enqueue v ?s2 = Inr s'" "rq_rel s' (xs @ [v])" "queue_frame (insert v (set xs)) ?s2 s'"
    using sched_enqueue_correct [OF q2 _ v0] by blast
  note f = queue_frameD [OF s'(3)]
  have "unblock (slot_after us) v x s = Inr s'" using s1(1,3) v0 s'(1) by (simp add: unblock_def task_access)
  moreover have "tseg (tasks s') (blocked_list s') (us @ vs) 0"
  proof -
    have "tasks s' y = tasks s1 y" if "y \<in> set (us @ vs)" for y
      using that d f(2) [of y] by auto
    then show ?thesis using s1(2) f(5) by (subst tseg_cong [where ts = "tasks s1"]) auto
  qed
  moreover have "tcore s' = (tcore s)(v := ready (tcore s v))"
  proof
    fix y
    have "tcore s' y = tcore ?s2 y" "tcore s1 y = tcore s y" using f(1) s1(4) by simp_all
    then show "tcore s' y = ((tcore s)(v := ready (tcore s v))) y" using x by (auto simp: tcore_def ready_def)
  qed
  moreover have "wake_frame (set (xs @ us @ [v])) s s'"
  proof -
    have "tasks s' y = tasks s y" if "y \<notin> set (xs @ us @ [v])" for y using that f(2) [of y] s1(5) by auto
    then show ?thesis using f f1 by (simp add: wake_frame_def)
  qed
  ultimately show ?thesis using s'(2) by blast
qed

definition child_match :: "u64 \<Rightarrow> u64 \<Rightarrow> kern \<Rightarrow> u64 \<Rightarrow> bool" where
  "child_match exiting_pid exiting_ppid s v \<longleftrightarrow> (case tcore s v of
     None \<Rightarrow> False
   | Some x \<Rightarrow> (t_block_on x = 0 \<and> t_pid x = exiting_ppid) \<or> t_block_on x = exiting_pid)"

lemma child_match_live:
  "tasks s v = Some x \<Longrightarrow> child_match a b s v \<longleftrightarrow> (t_block_on x = 0 \<and> t_pid x = b) \<or> t_block_on x = a"
  by (simp add: child_match_def tcore_def)

lemma child_match_ready:
  "tcore s' = (tcore s)(v := ready (tcore s v)) \<Longrightarrow> child_match a b s' = child_match a b s"
  by (rule ext) (auto simp: child_match_def ready_def split: option.splits)

text \<open>
  The whole scan: \<open>us\<close> are the blocked tasks already passed and kept, \<open>vs\<close> those still to be looked at.
\<close>

lemma wakeup_children_scan:
  assumes "rq_rel s xs" "tseg (tasks s) (blocked_list s) (us @ vs) 0" "distinct (xs @ us @ vs)"
  shows "\<exists>s'. wakeup_children_from a b (slot_after us) s = Some (Inr s') \<and> rq_rel s' (xs @ filter (child_match a b s) vs) \<and>
    tseg (tasks s') (blocked_list s') (us @ filter (\<lambda>v. \<not> child_match a b s v) vs) 0 \<and>
    (\<forall>q. tcore s' q = (if q \<in> set vs \<and> child_match a b s q then ready (tcore s q) else tcore s q)) \<and>
    wake_frame (set (xs @ us @ vs)) s s'"
  using assms
proof (induction vs arbitrary: s xs us)
  case Nil
  have "slot_get (slot_after us) s = Inr 0"
  proof (cases us rule: rev_cases)
    case Nil
    then show ?thesis using \<open>tseg (tasks s) (blocked_list s) (us @ []) 0\<close> by (simp add: slot_get_def slot_after_def)
  next
    case (snoc ys y)
    then show ?thesis using \<open>tseg (tasks s) (blocked_list s) (us @ []) 0\<close>
      by (auto simp: slot_get_def slot_after_def tseg_append task_access)
  qed
  then show ?case using Nil by (subst wakeup_children_from.simps) (simp add: wake_frame_refl)
next
  case (Cons v vs)
  obtain x where x: "tasks s v = Some x" "v \<noteq> 0" using tseg_live [OF Cons.prems(2), of v] by auto
  have d: "distinct (us @ v # vs)" using Cons.prems(3) by simp
  have get: "slot_get (slot_after us) s = Inr v" using tseg_relink [OF Cons.prems(2) d x(1)] by blast
  show ?case
  proof (cases "child_match a b s v")
    case True
    obtain s1 where s1: "unblock (slot_after us) v x s = Inr s1" "rq_rel s1 (xs @ [v])"
      "tseg (tasks s1) (blocked_list s1) (us @ vs) 0" "tcore s1 = (tcore s)(v := ready (tcore s v))"
      "wake_frame (set (xs @ us @ [v])) s s1"
      using unblock_correct [OF Cons.prems x(1)] by blast
    have m: "child_match a b s1 = child_match a b s" using child_match_ready [OF s1(4)] .
    have step: "wakeup_children_from a b (slot_after us) s = wakeup_children_from a b (slot_after us) s1"
      using get x True s1(1) by (subst wakeup_children_from.simps) (simp add: task_access child_match_live)
    have "distinct ((xs @ [v]) @ us @ vs)" using Cons.prems(3) by auto
    from Cons.IH [OF s1(2,3) this] obtain s' where s': "wakeup_children_from a b (slot_after us) s1 = Some (Inr s')"
      "rq_rel s' ((xs @ [v]) @ filter (child_match a b s) vs)"
      "tseg (tasks s') (blocked_list s') (us @ filter (\<lambda>v. \<not> child_match a b s v) vs) 0"
      "\<forall>q. tcore s' q = (if q \<in> set vs \<and> child_match a b s q then ready (tcore s1 q) else tcore s1 q)"
      "wake_frame (set ((xs @ [v]) @ us @ vs)) s1 s'"
      unfolding m by blast
    have "wake_frame (set (xs @ us @ v # vs)) s s'" by (rule wake_frame_trans [OF s1(5) s'(5)]) auto
    moreover have "\<forall>q. tcore s' q = (if q \<in> set (v # vs) \<and> child_match a b s q then ready (tcore s q) else tcore s q)"
      using s'(4) s1(4) True d by auto
    ultimately show ?thesis using s' step True by auto
  next
    case False
    have "slot_after (us @ [v]) = Some v" by (simp add: slot_after_def)
    then have step: "wakeup_children_from a b (slot_after us) s = wakeup_children_from a b (slot_after (us @ [v])) s"
      using get x False by (subst wakeup_children_from.simps) (auto simp: task_access child_match_live)
    have "tseg (tasks s) (blocked_list s) ((us @ [v]) @ vs) 0" "distinct (xs @ (us @ [v]) @ vs)" using Cons.prems by simp_all
    from Cons.IH [OF Cons.prems(1) this] show ?thesis using step False by auto
  qed
qed

section \<open>Every runnable task gets its turn\<close>

fun sched_ticks :: "nat \<Rightarrow> kern \<Rightarrow> kern res" where
  "sched_ticks 0 s = Inr s"
| "sched_ticks (Suc n) s = rbind (sched_tick s) (\<lambda>(sw, s). sched_ticks n s)"

lemma sched_wf_cong:
  assumes "tasks s' = tasks s" "runqueue_head s' = runqueue_head s" "runqueue_tail s' = runqueue_tail s" "rq_size s' = rq_size s"
    "current s' = current s" "blocked_list s' = blocked_list s" "zombie s' = zombie s"
  shows "sched_wf idle xs ys s' \<longleftrightarrow> sched_wf idle xs ys s"
  using assms by (simp add: sched_wf_def rq_rel_def tstate_def)

lemma schedule_flags:
  assumes "sched_wf idle xs ys s" "schedule s = Inr (sw, s')"
  shows "need_resched s' = need_resched s" "ticks_since_switch s' = ticks_since_switch s"
proof -
  obtain p where p: "tasks s (current s) = Some p" "t_state p = TASK_RUNNING" using assms(1) by (auto simp: sched_wf_def tstate_def)
  have "need_resched s' = need_resched s \<and> ticks_since_switch s' = ticks_since_switch s"
  proof (cases xs)
    case Nil
    then have "schedule s = Inr (None, s)"
      using schedule_alone [of s "current s" p] assms(1) p by (simp add: sched_wf_def task_states)
    then show ?thesis using assms(2) by simp
  next
    case (Cons x zs)
    have "rq_rel s (x # zs)" "zombie s = 0" "current s \<noteq> 0" "current s \<notin> set (x # zs)"
      using assms(1) Cons by (simp_all add: sched_wf_def)
    from schedule_running [OF this(1,2) refl this(3) p(1) this(4) p(2)] show ?thesis
      using assms(2) by (auto simp: after_switch_def)
  qed
  then show "need_resched s' = need_resched s" "ticks_since_switch s' = ticks_since_switch s" by simp_all
qed

lemma two_ticks:
  assumes wf: "sched_wf idle xs ys s" and t: "\<not> need_resched s" "ticks_since_switch s = 0"
  shows "\<exists>s' xs'. sched_ticks 2 s = Inr s' \<and> sched_wf idle xs' ys s' \<and> current s' # xs' = rotate1 (current s # xs) \<and>
    \<not> need_resched s' \<and> ticks_since_switch s' = 0"
proof -
  let ?s1 = "s\<lparr>ticks_since_switch := 1\<rparr>" and ?s2 = "s\<lparr>need_resched := False, ticks_since_switch := 0\<rparr>"
  have "sched_tick s = Inr (None, ?s1)" using t by (simp add: sched_tick_def TIME_SLICE_def Let_def)
  moreover have "sched_tick ?s1 = schedule ?s2" using t by (simp add: sched_tick_def TIME_SLICE_def Let_def)
  moreover have wf2: "sched_wf idle xs ys ?s2" using wf by (subst sched_wf_cong [where s = s]) simp_all
  obtain sw s' xs' where s': "schedule ?s2 = Inr (sw, s')" "sched_wf idle xs' ys s'" "current s' # xs' = rotate1 (current ?s2 # xs)"
    using schedule_preserves [OF wf2] by blast
  ultimately have "sched_ticks 2 s = Inr s'" by (simp add: numeral_2_eq_2)
  then show ?thesis using s' schedule_flags [OF wf2 s'(1)] by auto
qed

lemma sched_ticks_add: "sched_ticks (m + n) s = rbind (sched_ticks m s) (sched_ticks n)"
  by (induction m arbitrary: s) (auto simp: rbind_def split: sum.splits prod.splits)

lemma ticks_rotate:
  assumes "sched_wf idle xs ys s" "\<not> need_resched s" "ticks_since_switch s = 0"
  shows "\<exists>s' xs'. sched_ticks (2 * n) s = Inr s' \<and> sched_wf idle xs' ys s' \<and> current s' # xs' = rotate n (current s # xs) \<and>
    \<not> need_resched s' \<and> ticks_since_switch s' = 0"
proof (induction n)
  case (Suc n)
  then obtain t zs where t: "sched_ticks (2 * n) s = Inr t" "sched_wf idle zs ys t" "current t # zs = rotate n (current s # xs)"
    "\<not> need_resched t" "ticks_since_switch t = 0" by blast
  from two_ticks [OF t(2,4,5)] show ?case
    using t(1,3) sched_ticks_add [of "2 * n" 2 s] by (auto simp: add.commute)
qed (use assms in auto)

text \<open>
  Claim C1. Round robin: from a well-formed state with \<open>n\<close> runnable tasks, counting the running
  one, the timer alone gives every task the processor: after \<open>2 * i\<close> ticks the task at position
  \<open>i\<close> (counted modulo \<open>n\<close> from the running one) is the current task, and the state is well formed.
\<close>

theorem sched_round_robin:
  assumes "sched_wf idle xs ys s" "\<not> need_resched s" "ticks_since_switch s = 0"
  shows "\<exists>s' xs'. sched_ticks (2 * i) s = Inr s' \<and> sched_wf idle xs' ys s' \<and>
    current s' = (current s # xs) ! (i mod length (current s # xs)) \<and> set (current s' # xs') = set (current s # xs)"
proof -
  obtain s' xs' where s': "sched_ticks (2 * i) s = Inr s'" "sched_wf idle xs' ys s'"
    and r: "current s' # xs' = rotate i (current s # xs)"
    using ticks_rotate [OF assms, of i] by blast
  have "current s' = hd (rotate i (current s # xs))" using r by (metis list.sel(1))
  also have "\<dots> = (current s # xs) ! (i mod length (current s # xs))" by (rule hd_rotate_conv_nth) simp
  finally show ?thesis using s' r by (metis set_rotate)
qed

section \<open>Blocking, exiting and being woken\<close>

lemma block_any_switches:
  assumes wf: "sched_wf idle xs ys s" and ni: "current s \<noteq> idle"
  shows "\<exists>x zs s'. xs = x # zs \<and> task_block_any s = Inr (Some (current s, x), s') \<and> current s' = x \<and>
    sched_wf idle zs (current s # ys) s'"
proof -
  let ?c = "current s"
  obtain p where p: "tasks s ?c = Some p" using wf by (auto simp: sched_wf_def tstate_def)
  obtain x zs where xs: "xs = x # zs" using wf ni by (cases xs) (auto simp: sched_wf_def)
  let ?p = "p\<lparr>t_state := TASK_BLOCKED, t_block_on := 0, t_next := blocked_list s\<rparr>"
  let ?s1 = "s\<lparr>tasks := (tasks s)(?c \<mapsto> ?p), blocked_list := ?c\<rparr>"
  have c: "?c \<noteq> 0" "?c \<notin> set xs" "?c \<notin> set ys" "zombie s = 0" using wf by (auto simp: sched_wf_def)
  have q: "rq_rel ?s1 (x # zs)" using wf c xs by (auto simp: sched_wf_def rq_rel_def tseg_other)
  have sb: "t_state ?p \<noteq> TASK_RUNNING" "t_state ?p \<noteq> TASK_DEAD" by (simp_all add: task_states)
  have "zombie ?s1 = 0" "current ?s1 = ?c" "tasks ?s1 ?c = Some ?p" "?c \<notin> set (x # zs)" using c xs by simp_all
  from schedule_leave [OF q this(1,2) c(1) this(3,4) sb] obtain s' where s': "schedule ?s1 = Inr (Some (?c, x), s')"
    "rq_rel s' zs" "after_switch x ?s1 s'" "\<forall>q. q \<noteq> x \<longrightarrow> tasks s' q = tasks ?s1 q"
    "tcore s' = (tcore ?s1)(x := map_option (t_state_update (\<lambda>_. TASK_RUNNING)) (tcore ?s1 x))" by blast
  have run: "task_block_any s = Inr (Some (?c, x), s')"
    using s'(1) p c by (simp add: task_block_any_def task_current_def Let_def task_access)
  have x: "x \<noteq> ?c" "x \<notin> set ys" "x \<noteq> 0" "x \<notin> set zs" using wf xs by (auto simp: sched_wf_def rq_rel_def)
  have "tseg (tasks s') (blocked_list s') (?c # ys) 0"
  proof -
    have "tseg (tasks ?s1) ?c (?c # ys) 0" using wf c by (auto simp: sched_wf_def tseg_other)
    moreover have "tasks s' y = tasks ?s1 y" if "y \<in> set (?c # ys)" for y
    proof -
      have "y \<noteq> x" using that x by auto
      then show ?thesis using s'(4) by blast
    qed
    ultimately have "tseg (tasks s') ?c (?c # ys) 0" by (subst tseg_cong [where ts = "tasks ?s1"]) simp_all
    then show ?thesis using s'(3) by (simp add: after_switch_def)
  qed
  moreover have "tstate s' q = (if q = x then Some TASK_RUNNING else if q = ?c then Some TASK_BLOCKED else tstate s q)"
    if "q \<in> set (?c # xs @ ys)" for q
    using that wf xs x by (auto simp: tstate_core s'(5) sched_wf_def option.map_comp comp_def tcore_def)
  ultimately have "sched_wf idle zs (?c # ys) s'"
    using wf xs s'(2,3) x ni by (auto simp: sched_wf_def after_switch_def)
  then show ?thesis using xs run s'(3) by (auto simp: after_switch_def)
qed

text \<open>
  A task that is not the idle one ends: it becomes a zombie, the tasks waiting for it move to the
  run queue in the order of the blocked list, and the processor goes to the head of the queue.
\<close>

lemma exit_switches:
  assumes wf: "sched_wf idle xs ys s" and ni: "current s \<noteq> idle" and p: "tasks s (current s) = Some p"
    and f: "t_state (f p) = TASK_ZOMBIE"
  defines "s1 \<equiv> s\<lparr>tasks := (tasks s)(current s \<mapsto> f p)\<rparr>"
  shows "\<exists>s2 s' x zs. task_wakeup_children a b s1 = Some (Inr s2) \<and>
    xs @ filter (child_match a b s) ys = x # zs \<and> schedule s2 = Inr (Some (current s, x), s') \<and> current s' = x \<and>
    sched_wf idle zs (filter (\<lambda>v. \<not> child_match a b s v) ys) s' \<and> tasks s' (current s) = Some (f p) \<and>
    next_pid s' = next_pid s \<and> all_tasks s' = all_tasks s"
proof -
  let ?c = "current s"
  have c: "?c \<noteq> 0" "?c \<notin> set xs" "?c \<notin> set ys" "zombie s = 0" "distinct (xs @ ys)" using wf by (auto simp: sched_wf_def)
  have q1: "rq_rel s1 xs" using wf c by (auto simp: s1_def sched_wf_def rq_rel_def tseg_other)
  have b1: "tseg (tasks s1) (blocked_list s1) ([] @ ys) 0" using wf c by (auto simp: s1_def sched_wf_def tseg_other)
  have m: "child_match a b s1 v = child_match a b s v" if "v \<noteq> ?c" for v using that by (simp add: child_match_def tcore_def s1_def)
  then have fl: "filter (child_match a b s1) ys = filter (child_match a b s) ys"
    "filter (\<lambda>v. \<not> child_match a b s1 v) ys = filter (\<lambda>v. \<not> child_match a b s v) ys"
    using c(3) m by (metis (mono_tags, lifting) filter_cong)+
  have "distinct (xs @ [] @ ys)" using c by simp
  from wakeup_children_scan [OF q1 b1 this, of a b] obtain s2 where w: "task_wakeup_children a b s1 = Some (Inr s2)"
    "rq_rel s2 (xs @ filter (child_match a b s) ys)"
    "tseg (tasks s2) (blocked_list s2) (filter (\<lambda>v. \<not> child_match a b s v) ys) 0"
    "\<forall>q. tcore s2 q = (if q \<in> set ys \<and> child_match a b s1 q then ready (tcore s1 q) else tcore s1 q)"
    "wake_frame (set (xs @ ys)) s1 s2"
    unfolding fl by (auto simp: task_wakeup_children_def slot_after_def)
  obtain x zs where xz: "xs @ filter (child_match a b s) ys = x # zs"
    using wf ni by (cases xs) (auto simp: sched_wf_def)
  have c2: "tasks s2 ?c = Some (f p)" "current s2 = ?c" "zombie s2 = 0" "next_pid s2 = next_pid s" "all_tasks s2 = all_tasks s"
    using w(5) c by (auto simp: wake_frame_def s1_def)
  have q2: "rq_rel s2 (x # zs)" using w(2) xz by simp
  have sub: "set (x # zs) \<subseteq> set (xs @ ys)" unfolding xz [symmetric] by auto
  have sb: "t_state (f p) \<noteq> TASK_RUNNING" "t_state (f p) \<noteq> TASK_DEAD" using f by (simp_all add: task_states)
  have cx: "?c \<notin> set (x # zs)" using sub c by auto
  from schedule_leave [OF q2 c2(3,2) c(1) c2(1) cx sb] obtain s' where s': "schedule s2 = Inr (Some (?c, x), s')"
    "rq_rel s' zs" "after_switch x s2 s'" "\<forall>q. q \<noteq> x \<longrightarrow> tasks s' q = tasks s2 q"
    "tcore s' = (tcore s2)(x := map_option (t_state_update (\<lambda>_. TASK_RUNNING)) (tcore s2 x))" by blast
  let ?ys = "filter (\<lambda>v. \<not> child_match a b s v) ys"
  have dz: "distinct (xs @ filter (child_match a b s) ys)" "distinct ?ys" "set (x # zs) \<inter> set ?ys = {}"
    using c(5) unfolding xz [symmetric] by auto
  have x: "x \<noteq> ?c" "x \<noteq> 0" "x \<notin> set zs" "x \<notin> set ?ys" using cx q2 dz(3) by (auto simp: rq_rel_def)
  have bl: "tseg (tasks s') (blocked_list s') ?ys 0"
  proof -
    have "tasks s' y = tasks s2 y" if "y \<in> set ?ys" for y
    proof -
      have "y \<noteq> x" using that x(4) by blast
      then show ?thesis using s'(4) by blast
    qed
    then show ?thesis using w(3) s'(3) by (subst tseg_cong [where ts = "tasks s2"]) (simp_all add: after_switch_def)
  qed
  have st: "tstate s2 q = (if q \<in> set ys \<and> child_match a b s q then Some TASK_READY else tstate s q)" if "q \<in> set (xs @ ys)" for q
  proof -
    have "q \<noteq> ?c" using that c by auto
    then have "tcore s1 q = tcore s q" "child_match a b s1 q = child_match a b s q" using m by (simp_all add: tcore_def s1_def)
    moreover have "tcore s q \<noteq> None" using that wf by (auto simp: sched_wf_def tstate_core)
    ultimately show ?thesis using w(4) by (auto simp: tstate_core ready_def option.map_comp comp_def)
  qed
  have x2: "tcore s2 x \<noteq> None" using q2 by (auto simp: rq_rel_def tcore_def)
  have st': "tstate s' q = (if q = x then Some TASK_RUNNING else tstate s2 q)" for q
    using x2 by (auto simp: tstate_core s'(5) option.map_comp comp_def)
  have "\<forall>q\<in>set zs. tstate s' q = Some TASK_READY"
  proof
    fix q assume q: "q \<in> set zs"
    then have "q \<in> set (xs @ filter (child_match a b s) ys)" unfolding xz by simp
    then have "tstate s2 q = Some TASK_READY" using st [of q] wf by (auto simp: sched_wf_def)
    then show "tstate s' q = Some TASK_READY" using st' q x(3) by auto
  qed
  moreover have "\<forall>q\<in>set ?ys. tstate s' q = Some TASK_BLOCKED"
  proof
    fix q assume q: "q \<in> set ?ys"
    then have "tstate s2 q = Some TASK_BLOCKED" using st [of q] wf by (auto simp: sched_wf_def)
    then show "tstate s' q = Some TASK_BLOCKED" using st' q x(4) by metis
  qed
  moreover have "idle \<in> set (x # zs)" using wf ni unfolding xz [symmetric] by (auto simp: sched_wf_def)
  moreover have "distinct (x # zs @ ?ys)" using dz unfolding xz by auto
  moreover have "tstate s' x = Some TASK_RUNNING" using st' by simp
  moreover have "current s' = x" "zombie s' = 0" using s'(3) c2 by (simp_all add: after_switch_def)
  ultimately have "sched_wf idle zs ?ys s'"
    unfolding sched_wf_def using s'(2) bl x(2) by simp
  moreover have "tasks s' ?c = Some (f p)" using s'(4) x c2 by auto
  ultimately show ?thesis using w(1) xz s'(1,3) c2 by (auto simp: after_switch_def)
qed

section \<open>Examples\<close>

text \<open>The idle task is running, one task is ready and one is blocked on any child.\<close>

definition sched_example :: kern where
  "sched_example = \<lparr>kh = heap_example,
     tasks = [4096 \<mapsto> zero_task\<lparr>t_state := TASK_RUNNING, t_pid := 1, t_next_all := 0\<rparr>,
       8192 \<mapsto> zero_task\<lparr>t_state := TASK_READY, t_pid := 2, t_next_all := 4096\<rparr>,
       12288 \<mapsto> zero_task\<lparr>t_state := TASK_BLOCKED, t_pid := 3, t_next_all := 8192\<rparr>],
     all_tasks = 12288, next_pid = 4, current = 4096, runqueue_head = 8192, runqueue_tail = 8192, rq_size = 1,
     ticks_since_switch = 0, need_resched = False, blocked_list = 12288, zombie = 0, tss_rsp0 = 0,
     kcon = console_example\<rparr>"

lemma sched_example_wf: "sched_wf 4096 [8192] [12288] sched_example"
  by (simp add: sched_wf_def sched_example_def rq_rel_def tstate_def zero_task_def)

theorem sched_round_robin_witness:
  "\<exists>s' xs'. sched_ticks 6 sched_example = Inr s' \<and> sched_wf 4096 xs' [12288] s' \<and> current s' = 8192"
proof -
  have "current sched_example = 4096" "\<not> need_resched sched_example" "ticks_since_switch sched_example = 0"
    by (simp_all add: sched_example_def)
  moreover have "(3::nat) mod Suc (Suc 0) = Suc 0" by (simp only: numeral_3_eq_3 mod_Suc) simp
  ultimately show ?thesis using sched_round_robin [OF sched_example_wf, of 3] by fastforce
qed

section \<open>The task registry\<close>

text \<open>The list that starts in \<^verbatim>\<open>all_tasks\<close> and goes on through \<^verbatim>\<open>next_all\<close>.\<close>

fun aseg :: "task_store \<Rightarrow> u64 \<Rightarrow> u64 list \<Rightarrow> u64 \<Rightarrow> bool" where
  "aseg ts p [] q \<longleftrightarrow> p = q"
| "aseg ts p (x # xs) q \<longleftrightarrow> p = x \<and> x \<noteq> 0 \<and> (\<exists>t. ts x = Some t \<and> aseg ts (t_next_all t) xs q)"

definition zombie_of :: "u64 \<Rightarrow> u64 \<Rightarrow> task_store \<Rightarrow> u64 \<Rightarrow> bool" where
  "zombie_of ppid want ts p \<longleftrightarrow> (\<exists>t. ts p = Some t \<and> t_state t = TASK_ZOMBIE \<and> t_ppid t = ppid \<and> (want = - 1 \<or> t_pid t = want))"

lemma find_zombie_step:
  assumes "p \<noteq> 0" "tasks s p = Some t"
  shows "find_zombie_from a b p s = (if zombie_of a b (tasks s) p then Some (Inr p) else find_zombie_from a b (t_next_all t) s)"
  using assms by (subst find_zombie_from.simps) (auto simp: tload_def zombie_of_def)

lemma find_zombie_skip:
  assumes "aseg (tasks s) p us q" "\<forall>u\<in>set us. \<not> zombie_of a b (tasks s) u"
  shows "find_zombie_from a b p s = find_zombie_from a b q s"
  using assms by (induction us arbitrary: p) (auto simp: find_zombie_step)

text \<open>On a registry of live tasks the search ends: it gives the first zombie that matches, or null.\<close>

lemma task_find_zombie_correct:
  assumes "aseg (tasks s) (all_tasks s) us 0"
  shows "task_find_zombie a b s = Some (Inr (case List.find (zombie_of a b (tasks s)) us of None \<Rightarrow> 0 | Some p \<Rightarrow> p))"
proof -
  have "find_zombie_from a b p s = Some (Inr (case List.find (zombie_of a b (tasks s)) us of None \<Rightarrow> 0 | Some p \<Rightarrow> p))"
    if "aseg (tasks s) p us 0" for p
    using that by (induction us arbitrary: p) (auto simp: find_zombie_step find_zombie_from.simps [of _ _ 0])
  then show ?thesis using assms by (simp add: task_find_zombie_def)
qed

text \<open>
  Claim C33. \<^verbatim>\<open>schedule()\<close> frees a dead task but leaves it on the registry: once the task \<open>c\<close>
  waiting in \<^verbatim>\<open>zombie\<close> has been freed, every search of the registry that gets as far as \<open>c\<close>
  (in front of it there is no zombie the search looks for) reads freed memory.
\<close>

theorem reaped_task_stays_registered:
  assumes "aseg (tasks s) (all_tasks s) us c" "c \<notin> set us" "\<forall>u\<in>set us. \<not> zombie_of a b (tasks s) u"
    and z: "zombie s = c" "c \<noteq> 0" "c \<noteq> current s" and r: "reap_zombie s = Inr s'"
  shows "task_find_zombie a b s' = Some (Inl UseAfterFree)"
proof -
  have ts: "tasks s' = (tasks s)(c := None)" "all_tasks s' = all_tasks s"
    using r z by (auto simp: reap_zombie_def task_current_def k_kfree_def k_kfree_task_def rbind_def split: sum.splits if_splits)
  have eq: "aseg (tasks s') p us c \<longleftrightarrow> aseg (tasks s) p us c" for p
    using assms(2) by (induction us arbitrary: p) (auto simp: ts)
  have "\<forall>u\<in>set us. \<not> zombie_of a b (tasks s') u" using assms(2,3) by (auto simp: ts zombie_of_def)
  then have "task_find_zombie a b s' = find_zombie_from a b c s'"
    using find_zombie_skip [of s' "all_tasks s'" us c a b] assms(1) eq ts by (simp add: task_find_zombie_def)
  also have "\<dots> = Some (Inl UseAfterFree)" using z by (subst find_zombie_from.simps) (simp add: tload_def ts)
  finally show ?thesis .
qed

theorem reaped_task_stays_registered_witness:
  "\<exists>s'. reap_zombie (sched_example\<lparr>kh := one_block True, all_tasks := HEAP_VA_BASE + 16, zombie := HEAP_VA_BASE + 16,
      tasks := (tasks sched_example)(HEAP_VA_BASE + 16 \<mapsto> zero_task\<lparr>t_state := TASK_DEAD, t_next_all := 12288\<rparr>)\<rparr>) = Inr s' \<and>
    task_find_zombie 2 (- 1) s' = Some (Inl UseAfterFree)"
proof -
  let ?t = "zero_task\<lparr>t_state := TASK_DEAD, t_next_all := 12288\<rparr>"
  let ?s = "sched_example\<lparr>kh := one_block True, all_tasks := HEAP_VA_BASE + 16, zombie := HEAP_VA_BASE + 16,
    tasks := (tasks sched_example)(HEAP_VA_BASE + 16 \<mapsto> ?t)\<rparr>"
  have nz: "HEAP_VA_BASE + 16 \<noteq> 0" "HEAP_VA_BASE + 16 \<noteq> current ?s" by (simp_all add: HEAP_VA_BASE_def sched_example_def)
  obtain h where h: "kfree (HEAP_VA_BASE + 16) (one_block True) = Inr h"
    using kfree_ok [of "[]" "{HEAP_VA_BASE}" "one_block True" HEAP_VA_BASE] one_block_wf [of True] by auto
  have "kfree 0 (one_block True) = Inr (one_block True)" by (simp add: kfree_def)
  then obtain s' where s': "reap_zombie ?s = Inr s'"
    using h nz by (simp add: reap_zombie_def task_current_def tload_def k_kfree_def k_kfree_task_def zero_task_def)
  have "task_find_zombie 2 (- 1) s' = Some (Inl UseAfterFree)"
    by (rule reaped_task_stays_registered [where us = "[]" and c = "HEAP_VA_BASE + 16", OF _ _ _ _ nz s']) simp_all
  then show ?thesis using s' by blast
qed

end
