(* ===== verification/Keyboard.thy ===== *)
theory Keyboard
  imports Queues
begin

text \<open>
  The PS/2 keyboard driver (\<^verbatim>\<open>drivers/keyboard.c\<close>): scancodes read from the controller become
  characters in a ring of 256 bytes that the interrupt handler fills and \<^verbatim>\<open>keyboard_read\<close> empties.
  The ring is shown to be a first-in first-out queue of at most 255 characters.
\<close>

section \<open>The controller\<close>

text \<open>
  The 8042 controller: bit 0 of its status register says whether a byte waits in its output buffer,
  reading the data port takes that byte; with nothing waiting the port gives the last byte again.
\<close>

record ps2 =
  ps2_pending :: "u8 list"
  ps2_last :: u8

definition PS2_DATA :: u16 where "PS2_DATA = 0x60"
definition PS2_STAT :: u16 where "PS2_STAT = 0x64"

definition ps2_inb :: "u16 \<Rightarrow> ps2 \<Rightarrow> u8 \<times> ps2" where
  "ps2_inb port d =
     (if port = PS2_STAT then (if ps2_pending d = [] then 0 else 1, d)
      else if port = PS2_DATA then
        (case ps2_pending d of [] \<Rightarrow> (ps2_last d, d) | b # bs \<Rightarrow> (b, \<lparr>ps2_pending = bs, ps2_last = b\<rparr>))
      else (0xFF, d))"

section \<open>The driver\<close>

definition KBUF_SIZE :: u32 where "KBUF_SIZE = 256"

record kbd =
  kbuf :: "char list"
  kbuf_head :: u32
  kbuf_tail :: u32
  kport :: ps2

text \<open>The table \<^verbatim>\<open>map\<close>, without shift; the entries after the last initialiser are zero.\<close>

definition keymap :: "char list" where
  "keymap =
     [CHR 0x00, CHR 0x1B] @ ''1234567890-='' @ [CHR 0x08] @
     [CHR 0x09] @ ''qwertyuiop[]'' @ [CHR 0x0A] @
     [CHR 0x00] @ ''asdfghjkl;'' @ [CHR 0x27, CHR 0x60] @
     [CHR 0x00, CHR 0x5C] @ ''zxcvbnm,./'' @
     [CHR 0x00, CHR ''*'', CHR 0x00, CHR '' '', CHR 0x00] @ replicate 69 (CHR 0x00)"

partial_function (option) keyboard_flush :: "ps2 \<Rightarrow> ps2 option" where
  "keyboard_flush d =
     (case ps2_inb PS2_STAT d of (st, d) \<Rightarrow>
      if st AND 1 \<noteq> 0 then keyboard_flush (snd (ps2_inb PS2_DATA d)) else Some d)"

definition keyboard_init :: "kbd \<Rightarrow> kbd option" where
  "keyboard_init s = map_option (\<lambda>d. s\<lparr>kport := d, kbuf_head := 0, kbuf_tail := 0\<rparr>) (keyboard_flush (kport s))"

text \<open>The end of \<^verbatim>\<open>keyboard_irq\<close>: one character into the ring, dropped when the ring is full.\<close>

definition kbuf_put :: "char \<Rightarrow> kbd \<Rightarrow> kbd res" where
  "kbuf_put c s =
     (let nxt = (kbuf_head s + 1) mod KBUF_SIZE in
      if nxt \<noteq> kbuf_tail s
      then if unat (kbuf_head s) < length (kbuf s)
           then Inr (s\<lparr>kbuf := (kbuf s)[unat (kbuf_head s) := c], kbuf_head := nxt\<rparr>)
           else Inl BufferOverflow
      else Inr s)"

definition keyboard_irq :: "kbd \<Rightarrow> kbd res" where
  "keyboard_irq s =
     (case ps2_inb PS2_DATA (kport s) of (sc, d) \<Rightarrow>
      let s = s\<lparr>kport := d\<rparr> in
      if sc AND 0x80 \<noteq> 0 then Inr s
      else if unat sc \<ge> length keymap then Inr s
      else let c = keymap ! unat sc in
      if c = CHR 0x00 then Inr s
      else kbuf_put c s)"

text \<open>
  \<^verbatim>\<open>keyboard_read\<close>: the characters stored to \<^verbatim>\<open>buf\<close>, in order; \<open>n\<close> is what is left of \<^verbatim>\<open>len\<close>.
\<close>

fun kbuf_drain :: "nat \<Rightarrow> kbd \<Rightarrow> (char list \<times> kbd) res" where
  "kbuf_drain 0 s = Inr ([], s)"
| "kbuf_drain (Suc n) s =
     (if kbuf_tail s \<noteq> kbuf_head s
      then if unat (kbuf_tail s) < length (kbuf s)
           then (let c = kbuf s ! unat (kbuf_tail s) in
                 rbind (kbuf_drain n (s\<lparr>kbuf_tail := (kbuf_tail s + 1) mod KBUF_SIZE\<rparr>)) (\<lambda>(cs, s). Inr (c # cs, s)))
           else Inl BufferOverflow
      else Inr ([], s))"

definition keyboard_read :: "u32 \<Rightarrow> kbd \<Rightarrow> (char list \<times> kbd) res" where
  "keyboard_read len s = kbuf_drain (unat len) s"

section \<open>The ring as a queue\<close>

definition kbd_rel :: "kbd \<Rightarrow> char list \<Rightarrow> bool" where
  "kbd_rel s cs \<longleftrightarrow> length (kbuf s) = 256 \<and> kbuf_head s < 256 \<and> kbuf_tail s < 256 \<and> length cs < 256 \<and>
     unat (kbuf_head s) = (unat (kbuf_tail s) + length cs) mod 256 \<and>
     (\<forall>i<length cs. cs ! i = kbuf s ! ((unat (kbuf_tail s) + i) mod 256))"

definition kbd_adm :: "kbd \<Rightarrow> char list \<Rightarrow> char \<Rightarrow> bool" where
  "kbd_adm s cs c \<longleftrightarrow> length cs < 255"

text \<open>One round of the loop of \<^verbatim>\<open>keyboard_read\<close>.\<close>

definition kbuf_get :: "kbd \<Rightarrow> (char option \<times> kbd) res" where
  "kbuf_get s =
     (if kbuf_tail s \<noteq> kbuf_head s
      then if unat (kbuf_tail s) < length (kbuf s)
           then Inr (Some (kbuf s ! unat (kbuf_tail s)), s\<lparr>kbuf_tail := (kbuf_tail s + 1) mod KBUF_SIZE\<rparr>)
           else Inl BufferOverflow
      else Inr (None, s))"

lemma keymap_length: "length keymap = 128"
  by (simp add: keymap_def)

lemma ring_next:
  assumes "(x :: u32) < 256"
  shows "unat ((x + 1) mod KBUF_SIZE) = (unat x + 1) mod 256" "(x + 1) mod KBUF_SIZE < 256"
proof -
  have x: "unat x < 256" using assms by (simp add: word_less_nat_alt)
  then show u: "unat ((x + 1) mod KBUF_SIZE) = (unat x + 1) mod 256"
    by (simp add: KBUF_SIZE_def unat_mod_distrib unat_word_ariths)
  show "(x + 1) mod KBUF_SIZE < 256" using u by (simp add: word_less_nat_alt)
qed

lemma ring_offset_distinct:
  assumes "i < j" "j < (256::nat)"
  shows "(t + i) mod 256 \<noteq> (t + j) mod 256"
proof
  assume "(t + i) mod 256 = (t + j) mod 256"
  then have "256 dvd (t + j) - (t + i)" 
    using assms(1) mod_eq_dvd_iff_nat [of "t + i" "t + j" 256] by simp
  then have "256 dvd j - i" by simp
  then show False using assms by (auto dest: dvd_imp_le)
qed

lemma kbd_rel_empty: "kbd_rel s cs \<Longrightarrow> kbuf_tail s = kbuf_head s \<longleftrightarrow> cs = []"
proof -
  assume r: "kbd_rel s cs"
  then have t: "unat (kbuf_tail s) < 256" by (simp add: kbd_rel_def word_less_nat_alt)
  have "unat (kbuf_tail s) = unat (kbuf_head s) \<longleftrightarrow> cs = []"
    using r t ring_offset_distinct [of 0 "length cs" "unat (kbuf_tail s)"] by (auto simp: kbd_rel_def)
  then show ?thesis by (simp add: word_unat_eq_iff)
qed

lemma kbuf_put_rel:
  assumes r: "kbd_rel s cs"
  shows "\<exists>s'. kbuf_put c s = Inr s' \<and> kport s' = kport s \<and>
    (if length cs < 255 then kbd_rel s' (cs @ [c]) else s' = s)"
proof -
  let ?t = "unat (kbuf_tail s)" and ?n = "length cs"
  have b: "kbuf_head s < 256" "unat (kbuf_head s) = (?t + ?n) mod 256" "length (kbuf s) = 256" "?t < 256" "?n < 256"
    using r by (simp_all add: kbd_rel_def word_less_nat_alt)
  have nx: "unat ((kbuf_head s + 1) mod KBUF_SIZE) = (?t + Suc ?n) mod 256"
    using ring_next(1) [OF b(1)] b(2) by (simp add: mod_Suc_eq)
  show ?thesis
  proof (cases "?n < 255")
    case True
    have "(?t + Suc ?n) mod 256 \<noteq> ?t" using ring_offset_distinct [of 0 "Suc ?n" ?t] True b(4) by auto
    then have ne: "(kbuf_head s + 1) mod KBUF_SIZE \<noteq> kbuf_tail s" using nx by auto
    have hd: "unat (kbuf_head s) < 256" using b(2) by simp
    let ?s = "s\<lparr>kbuf := (kbuf s)[unat (kbuf_head s) := c], kbuf_head := (kbuf_head s + 1) mod KBUF_SIZE\<rparr>"
    have run: "kbuf_put c s = Inr ?s" using ne hd b(3) by (simp add: kbuf_put_def Let_def)
    have "(cs @ [c]) ! i = kbuf ?s ! ((?t + i) mod 256)" if "i < Suc ?n" for i
    proof (cases "i = ?n")
      case True
      then show ?thesis using b by simp
    next
      case False
      then have "i < ?n" using that by simp
      then show ?thesis using ring_offset_distinct [of i ?n ?t] b(2,5) r by (simp add: nth_append kbd_rel_def)
    qed
    then have "kbd_rel ?s (cs @ [c])" using r True nx ring_next(2) [OF b(1)] by (simp add: kbd_rel_def)
    then show ?thesis using run True by simp
  next
    case False
    then have "?n = 255" using b(5) by simp
    then have "(kbuf_head s + 1) mod KBUF_SIZE = kbuf_tail s" using nx b(4) by (simp add: word_unat_eq_iff)
    then show ?thesis using False by (simp add: kbuf_put_def Let_def)
  qed
qed

lemma kbuf_get_rel:
  assumes r: "kbd_rel s (c # cs)"
  shows "\<exists>s'. kbuf_get s = Inr (Some c, s') \<and> kbd_rel s' cs \<and> kport s' = kport s"
proof -
  let ?t = "unat (kbuf_tail s)"
  have b: "kbuf_tail s < 256" "?t < 256" "length (kbuf s) = 256" "c = kbuf s ! ?t"
    using r by (auto simp: kbd_rel_def word_less_nat_alt)
  have ne: "kbuf_tail s \<noteq> kbuf_head s" using kbd_rel_empty [OF r] by simp
  let ?s = "s\<lparr>kbuf_tail := (kbuf_tail s + 1) mod KBUF_SIZE\<rparr>"
  have "cs ! i = kbuf s ! (((?t + 1) mod 256 + i) mod 256)" if "i < length cs" for i
  proof -
    have "cs ! i = (c # cs) ! Suc i" by simp
    also have "\<dots> = kbuf s ! ((?t + Suc i) mod 256)" using r that unfolding kbd_rel_def by auto
    finally show ?thesis by (simp add: mod_add_left_eq)
  qed
  moreover have "unat (kbuf_head s) = ((?t + 1) mod 256 + length cs) mod 256"
    using r by (simp add: kbd_rel_def mod_add_left_eq)
  ultimately have "kbd_rel ?s cs" using r ring_next [OF b(1)] by (simp add: kbd_rel_def)
  then show ?thesis using ne b by (simp add: kbuf_get_def)
qed

interpretation kq: fifo kbd_rel kbd_adm kbuf_put kbuf_get
proof unfold_locales
  fix s cs and c :: char
  assume "kbd_rel s cs" "kbd_adm s cs c"
  then show "\<exists>s'. kbuf_put c s = Inr s' \<and> kbd_rel s' (cs @ [c])"
    using kbuf_put_rel [of s cs c] by (auto simp: kbd_adm_def)
next
  fix s
  assume "kbd_rel s []"
  then show "\<exists>s'. kbuf_get s = Inr (None, s') \<and> kbd_rel s' []"
    using kbd_rel_empty [of s "[]"] by (simp add: kbuf_get_def)
next
  fix s and c :: char and cs
  assume r: "kbd_rel s (c # cs)"
  then have "length cs < 255" by (simp add: kbd_rel_def)
  then show "\<exists>s'. kbuf_get s = Inr (Some c, s') \<and> kbd_rel s' cs \<and> kbd_adm s' cs c"
    using kbuf_get_rel [OF r] by (auto simp: kbd_adm_def)
qed

lemma kbuf_drain_gets: "kbuf_drain n s = gets kbuf_get n s"
  by (induction n arbitrary: s) (auto simp: kbuf_get_def Let_def)

lemma keyboard_read_take:
  assumes "kbd_rel s cs"
  shows "\<exists>s'. keyboard_read len s = Inr (take (unat len) cs, s') \<and> kbd_rel s' (drop (unat len) cs)"
  using kq.gets_take [OF assms, of "unat len"] by (simp add: keyboard_read_def kbuf_drain_gets)

section \<open>Keys\<close>

text \<open>The character a scancode stands for, if any.\<close>

definition key_char :: "u8 \<Rightarrow> char option" where
  "key_char sc = (if unat sc < 128 \<and> keymap ! unat sc \<noteq> CHR 0x00 then Some (keymap ! unat sc) else None)"

lemma high_bit: "sc AND 0x80 = 0 \<longleftrightarrow> unat (sc :: u8) < 128"
proof -
  have "sc AND 0x80 = 0 \<longleftrightarrow> \<not> bit sc 7"
    using and_exp_eq_0_iff_not_bit [of sc 7] by simp
  also have "\<dots> \<longleftrightarrow> unat sc < 128"
  proof -
    have "bit sc 7 \<longleftrightarrow> odd (unat sc div 128)"
      using bit_unsigned_iff [where ?'a = nat, of sc 7] by (simp add: bit_iff_odd)
    moreover have "unat sc div 128 = 1" if "\<not> unat sc < 128"
      using that unsigned_less [where ?'a = nat, of sc] by (intro div_nat_eqI) simp_all
    ultimately show ?thesis by (cases "unat sc < 128") simp_all
  qed
  finally show ?thesis .
qed

lemma keyboard_irq_key:
  assumes "ps2_pending (kport s) = sc # bs"
  shows "keyboard_irq s = (let s = s\<lparr>kport := \<lparr>ps2_pending = bs, ps2_last = sc\<rparr>\<rparr> in
    case key_char sc of None \<Rightarrow> Inr s | Some c \<Rightarrow> kbuf_put c s)"
  using assms high_bit [of sc]
  by (auto simp: keyboard_irq_def ps2_inb_def PS2_DATA_def PS2_STAT_def key_char_def keymap_length Let_def)

fun irqs :: "nat \<Rightarrow> kbd \<Rightarrow> kbd res" where
  "irqs 0 s = Inr s"
| "irqs (Suc n) s = rbind (keyboard_irq s) (irqs n)"

lemma kbd_rel_kport [simp]: "kbd_rel (s\<lparr>kport := d\<rparr>) cs \<longleftrightarrow> kbd_rel s cs"
  by (simp add: kbd_rel_def)

lemma keyboard_irq_rel:
  assumes r: "kbd_rel s cs" and p: "ps2_pending (kport s) = sc # scs"
  shows "\<exists>s'. keyboard_irq s = Inr s' \<and> ps2_pending (kport s') = scs \<and>
    kbd_rel s' (take 255 (cs @ List.map_filter key_char [sc]))"
proof -
  let ?s = "s\<lparr>kport := \<lparr>ps2_pending = scs, ps2_last = sc\<rparr>\<rparr>"
  have l: "length cs < 256" and r': "kbd_rel ?s cs" using r by (simp_all add: kbd_rel_def)
  show ?thesis
  proof (cases "key_char sc")
    case None
    then show ?thesis using keyboard_irq_key [OF p] r' l by (simp add: map_filter_simps Let_def)
  next
    case (Some c)
    obtain t where t: "kbuf_put c ?s = Inr t" "kport t = kport ?s" "if length cs < 255 then kbd_rel t (cs @ [c]) else t = ?s"
      using kbuf_put_rel [OF r', of c] by blast
    have "kbd_rel t (take 255 (cs @ [c]))"
    proof (cases "length cs < 255")
      case False
      then have "length cs = 255" using l by simp
      then show ?thesis using t(3) r by simp
    qed (use t in simp)
    then show ?thesis using keyboard_irq_key [OF p] Some t(1,2) by (simp add: map_filter_simps Let_def)
  qed
qed

lemma take_take_append: "take n (take n xs @ ys) = take n (xs @ ys)"
  by (cases "length xs \<le> n") simp_all

lemma irqs_rel:
  "kbd_rel s cs \<Longrightarrow> ps2_pending (kport s) = scs \<Longrightarrow>
   \<exists>s'. irqs (length scs) s = Inr s' \<and> kbd_rel s' (take 255 (cs @ List.map_filter key_char scs))"
proof (induction scs arbitrary: s cs)
  case Nil
  then show ?case by (simp add: map_filter_simps kbd_rel_def)
next
  case (Cons sc scs)
  let ?ds = "cs @ List.map_filter key_char [sc]"
  obtain t where t: "keyboard_irq s = Inr t" "ps2_pending (kport t) = scs" "kbd_rel t (take 255 ?ds)"
    using keyboard_irq_rel [OF Cons.prems] by blast
  have "take 255 (take 255 ?ds @ List.map_filter key_char scs) = take 255 (?ds @ List.map_filter key_char scs)"
    by (rule take_take_append)
  moreover have "?ds @ List.map_filter key_char scs = cs @ List.map_filter key_char (sc # scs)"
    by (simp add: map_filter_simps split: option.splits)
  ultimately have eq: "take 255 (take 255 ?ds @ List.map_filter key_char scs) = take 255 (cs @ List.map_filter key_char (sc # scs))"
    by metis
  have "irqs (length (sc # scs)) s = irqs (length scs) t" using t(1) by simp
  then show ?case using Cons.IH [OF t(3,2)] unfolding eq by metis
qed

lemma keyboard_flush_all: "keyboard_flush d = Some (d\<lparr>ps2_pending := [], ps2_last := last (ps2_last d # ps2_pending d)\<rparr>)"
proof (induction "ps2_pending d" arbitrary: d)
  case Nil
  then show ?case by (subst keyboard_flush.simps) (simp add: ps2_inb_def PS2_STAT_def)
next
  case (Cons b bs)
  let ?d = "\<lparr>ps2_pending = bs, ps2_last = b\<rparr>"
  have "keyboard_flush d = keyboard_flush ?d"
    using Cons.hyps(2) [symmetric] by (subst keyboard_flush.simps) (simp add: ps2_inb_def PS2_STAT_def PS2_DATA_def)
  then show ?case using Cons.hyps(1) [of ?d] Cons.hyps(2) [symmetric] by simp
qed

text \<open>
  Claim C25. The keyboard is a queue that forgets the newest: after initialisation (which always
  ends) and one interrupt for every scancode in \<open>scs\<close>, reading \<open>len\<close> characters gives the first
  \<open>len\<close> of the first 255 characters typed, in order, without releases and unmapped keys.
\<close>

theorem keyboard_typed_read_back:
  assumes "length (kbuf s) = 256"
  shows "\<exists>s0 s1 s2. keyboard_init s = Some s0 \<and>
    irqs (length scs) (s0\<lparr>kport := (kport s0)\<lparr>ps2_pending := scs\<rparr>\<rparr>) = Inr s1 \<and>
    keyboard_read len s1 = Inr (take (unat len) (take 255 (List.map_filter key_char scs)), s2) \<and>
    kbd_rel s2 (drop (unat len) (take 255 (List.map_filter key_char scs)))"
proof -
  obtain s0 where s0: "keyboard_init s = Some s0" "kbd_rel s0 []"
    using assms by (simp add: keyboard_init_def keyboard_flush_all kbd_rel_def)
  then obtain s1 where s1: "irqs (length scs) (s0\<lparr>kport := (kport s0)\<lparr>ps2_pending := scs\<rparr>\<rparr>) = Inr s1"
    "kbd_rel s1 (take 255 (List.map_filter key_char scs))"
    using irqs_rel [of "s0\<lparr>kport := (kport s0)\<lparr>ps2_pending := scs\<rparr>\<rparr>" "[]" scs] by auto
  then show ?thesis using s0(1) keyboard_read_take [OF s1(2), of len] by blast
qed

definition kbd_example :: kbd where
  "kbd_example = \<lparr>kbuf = replicate 256 (CHR 0x00), kbuf_head = 7, kbuf_tail = 9, kport = \<lparr>ps2_pending = [0xFA], ps2_last = 0\<rparr>\<rparr>"

text \<open>Pressing and releasing h, then i.\<close>

theorem keyboard_typed_read_back_witness:
  "\<exists>s0 s1 s2. keyboard_init kbd_example = Some s0 \<and>
    irqs 3 (s0\<lparr>kport := (kport s0)\<lparr>ps2_pending := [35, 163, 23]\<rparr>\<rparr>) = Inr s1 \<and> keyboard_read 32 s1 = Inr (''hi'', s2)"
proof -
  have "length (kbuf kbd_example) = 256" by (simp add: kbd_example_def)
  from keyboard_typed_read_back [OF this, of "[35, 163, 23]" 32] show ?thesis
    by (auto simp: map_filter_simps key_char_def keymap_def numeral_3_eq_3)
qed

end
