(* ===== verification/Tty.thy ===== *)
theory Tty
  imports Keyboard Console
begin

text \<open>
  The line discipline (\<^verbatim>\<open>personality/tty.c\<close>): \<^verbatim>\<open>tty_poll\<close> takes characters from the keyboard
  ring, edits and echoes a line of at most 127 characters, and \<^verbatim>\<open>tty_readline\<close> hands a finished
  line out. The buffer is shown to refine an editor on strings.
\<close>

definition LINE_MAX :: u32 where "LINE_MAX = 128"

record tty =
  line :: "char list"
  line_len :: u32
  line_ready :: bool
  tkbd :: kbd

definition tty_init :: "tty \<Rightarrow> tty" where
  "tty_init t = t\<lparr>line_len := 0, line_ready := False\<rparr>"

definition line_append :: "char \<Rightarrow> tty \<Rightarrow> tty res" where
  "line_append c t =
     (if unat (line_len t) < length (line t)
      then Inr (t\<lparr>line := (line t)[unat (line_len t) := c], line_len := line_len t + 1\<rparr>)
      else Inl BufferOverflow)"

text \<open>The body of the loop of \<^verbatim>\<open>tty_poll\<close>.\<close>

definition tty_char :: "char \<Rightarrow> tty \<times> console \<Rightarrow> (tty \<times> console) res" where
  "tty_char ch = (\<lambda>(t, con).
     let c = (if ch = CHR 0x0D then CHR 0x0A else ch) in
     if c = CHR 0x08 then
       (if line_len t > 0
        then Inr (t\<lparr>line_len := line_len t - 1\<rparr>, console_putc (CHR 0x08) (console_putc (CHR '' '') (console_putc (CHR 0x08) con)))
        else Inr (t, con))
     else if line_ready t then Inr (t, con)
     else if c = CHR 0x0A then
       rbind (if line_len t < LINE_MAX - 1 then line_append (CHR 0x0A) t else Inr t) (\<lambda>t.
       Inr (t\<lparr>line_ready := True\<rparr>, console_putc (CHR 0x0A) con))
     else if line_len t < LINE_MAX - 1 then
       rbind (line_append c t) (\<lambda>t. Inr (t, console_putc c con))
     else Inr (t, con))"

definition tty_poll :: "tty \<times> console \<Rightarrow> (tty \<times> console) res" where
  "tty_poll = (\<lambda>(t, con).
     rbind (keyboard_read 32 (tkbd t)) (\<lambda>(raw, k). for_res tty_char raw (t\<lparr>tkbd := k\<rparr>, con)))"

text \<open>\<^verbatim>\<open>tty_readline\<close>: the count it returns and the bytes it stores from \<^verbatim>\<open>buf\<close> on.\<close>

definition tty_readline :: "u32 \<Rightarrow> tty \<Rightarrow> (u32 \<times> char list) \<times> tty" where
  "tty_readline len t =
     (if \<not> line_ready t then ((0, []), t)
      else let n = line_len t; n = (if n > len - 1 then len - 1 else n) in
        ((n, take (unat n) (line t) @ [CHR 0x00]), t\<lparr>line_len := 0, line_ready := False\<rparr>))"

section \<open>The editor the line buffer implements\<close>

definition edit :: "char \<Rightarrow> string \<times> bool \<Rightarrow> string \<times> bool" where
  "edit c = (\<lambda>(w, r).
     if c = CHR 0x08 then (butlast w, r)
     else if r then (w, r)
     else if c = CHR 0x0A \<or> c = CHR 0x0D then (if length w < 127 then w @ [CHR 0x0A] else w, True)
     else (if length w < 127 then w @ [c] else w, False))"

definition echo :: "char \<Rightarrow> string \<times> bool \<Rightarrow> string" where
  "echo c = (\<lambda>(w, r).
     if c = CHR 0x08 then (if w = [] then [] else [CHR 0x08, CHR '' '', CHR 0x08])
     else if r then []
     else if c = CHR 0x0A \<or> c = CHR 0x0D then [CHR 0x0A]
     else if length w < 127 then [c] else [])"

fun echoes :: "string \<Rightarrow> string \<times> bool \<Rightarrow> string" where
  "echoes [] e = []"
| "echoes (c # cs) e = echo c e @ echoes cs (edit c e)"

definition tty_inv :: "tty \<Rightarrow> bool" where
  "tty_inv t \<longleftrightarrow> length (line t) = 128 \<and> line_len t \<le> 127"

definition tty_abs :: "tty \<Rightarrow> string \<times> bool" where
  "tty_abs t = (take (unat (line_len t)) (line t), line_ready t)"

lemma tty_inv_len: "tty_inv t \<Longrightarrow> unat (line_len t) \<le> 127" "tty_inv t \<Longrightarrow> length (line t) = 128"
  by (simp_all add: tty_inv_def word_le_nat_alt)

lemma tty_abs_length: "tty_inv t \<Longrightarrow> length (fst (tty_abs t)) = unat (line_len t)"
  using tty_inv_len [of t] by (simp add: tty_abs_def)

lemma line_room: "tty_inv t \<Longrightarrow> line_len t < LINE_MAX - 1 \<longleftrightarrow> length (fst (tty_abs t)) < 127"
  by (simp add: tty_abs_length LINE_MAX_def word_less_nat_alt)

lemma line_append_text:
  assumes i: "tty_inv t" and l: "length (fst (tty_abs t)) < 127"
  shows "\<exists>t'. line_append c t = Inr t' \<and> tty_inv t' \<and> tty_abs t' = (fst (tty_abs t) @ [c], line_ready t) \<and> tkbd t' = tkbd t"
proof -
  let ?n = "unat (line_len t)"
  have n: "?n < 127" "length (line t) = 128" using i l tty_abs_length tty_inv_len by auto
  have "unat (line_len t + 1) = Suc ?n" using n by (simp add: unat_word_ariths)
  then show ?thesis
    using n by (simp add: line_append_def tty_inv_def tty_abs_def word_le_nat_alt take_Suc_conv_app_nth)
qed

text \<open>One character: the buffer follows the editor, the console gets the editor's echo.\<close>

lemma tty_char_edit:
  assumes i: "tty_inv t"
  shows "\<exists>t'. tty_char c (t, con) = Inr (t', console_write (echo c (tty_abs t)) con) \<and> tty_inv t' \<and>
    tty_abs t' = edit c (tty_abs t) \<and> tkbd t' = tkbd t"
proof -
  obtain w r where wr: "tty_abs t = (w, r)" by fastforce
  have w: "w = take (unat (line_len t)) (line t)" "r = line_ready t" "length w = unat (line_len t)"
    using wr tty_abs_length [OF i] by (auto simp: tty_abs_def)
  have room: "line_len t < LINE_MAX - 1 \<longleftrightarrow> length w < 127" using line_room [OF i] wr by simp
  have empty: "line_len t > 0 \<longleftrightarrow> w \<noteq> []" using w(3) by (simp add: word_less_nat_alt flip: length_greater_0_conv)
  consider (bsp) "c = CHR 0x08" | (drop) "c \<noteq> CHR 0x08" "r" | (enter) "c = CHR 0x0A \<or> c = CHR 0x0D" "\<not> r"
    | (other) "c \<notin> {CHR 0x08, CHR 0x0A, CHR 0x0D}" "\<not> r" by auto
  then show ?thesis
  proof cases
    case bsp
    show ?thesis
    proof (cases "w = []")
      case True
      then show ?thesis using bsp i empty wr by (simp add: tty_char_def edit_def echo_def console_write_def)
    next
      case False
      let ?t = "t\<lparr>line_len := line_len t - 1\<rparr>"
      have u: "unat (line_len t - 1) = unat (line_len t) - 1" using False empty by (simp add: unat_minus_one word_gt_0)
      have "tty_inv ?t" using i tty_inv_len [OF i] u by (simp add: tty_inv_def word_le_nat_alt)
      moreover have "tty_abs ?t = (butlast w, r)"
        using w u tty_inv_len [OF i] by (simp add: tty_abs_def butlast_take)
      ultimately show ?thesis using bsp False empty wr
        by (simp add: tty_char_def edit_def echo_def console_write_def Let_def)
    qed
  next
    case drop
    then show ?thesis using i wr w(2) by (auto simp: tty_char_def edit_def echo_def console_write_def)
  next
    case enter
    show ?thesis
    proof (cases "length w < 127")
      case True
      obtain t' where t': "line_append (CHR 0x0A) t = Inr t'" "tty_inv t'" "tty_abs t' = (w @ [CHR 0x0A], r)" "tkbd t' = tkbd t"
        using line_append_text [OF i, of "CHR 0x0A"] True wr w(2) by auto
      then show ?thesis using enter True wr w(2) room
        by (auto simp: tty_char_def edit_def echo_def console_write_def tty_inv_def tty_abs_def)
    next
      case False
      then show ?thesis using enter wr w(2) room i
        by (auto simp: tty_char_def edit_def echo_def console_write_def tty_inv_def tty_abs_def)
    qed
  next
    case other
    show ?thesis
    proof (cases "length w < 127")
      case True
      obtain t' where t': "line_append c t = Inr t'" "tty_inv t'" "tty_abs t' = (w @ [c], r)" "tkbd t' = tkbd t"
        using line_append_text [OF i, of c] True wr w(2) by auto
      then show ?thesis using other True wr w(2) room
        by (auto simp: tty_char_def edit_def echo_def console_write_def)
    next
      case False
      then show ?thesis using other wr w(2) room i
        by (auto simp: tty_char_def edit_def echo_def console_write_def)
    qed
  qed
qed

lemma console_write_append: "console_write (u @ v) con = console_write v (console_write u con)"
  by (simp add: console_write_def)

lemma tty_chars_edit:
  "tty_inv t \<Longrightarrow> \<exists>t'. for_res tty_char cs (t, con) = Inr (t', console_write (echoes cs (tty_abs t)) con) \<and> tty_inv t' \<and>
    tty_abs t' = fold edit cs (tty_abs t) \<and> tkbd t' = tkbd t"
proof (induction cs arbitrary: t con)
  case Nil
  then show ?case by (simp add: console_write_def)
next
  case (Cons c cs)
  obtain t1 where t1: "tty_char c (t, con) = Inr (t1, console_write (echo c (tty_abs t)) con)" "tty_inv t1"
    "tty_abs t1 = edit c (tty_abs t)" "tkbd t1 = tkbd t" using tty_char_edit [OF Cons.prems] by blast
  from Cons.IH [OF t1(2)] show ?case using t1 by (auto simp: console_write_append)
qed

lemma tty_poll_edit:
  assumes i: "tty_inv t" and q: "kbd_rel (tkbd t) cs"
  shows "\<exists>t'. tty_poll (t, con) = Inr (t', console_write (echoes (take 32 cs) (tty_abs t)) con) \<and> tty_inv t' \<and>
    tty_abs t' = fold edit (take 32 cs) (tty_abs t) \<and> kbd_rel (tkbd t') (drop 32 cs)"
proof -
  obtain k where k: "keyboard_read 32 (tkbd t) = Inr (take 32 cs, k)" "kbd_rel k (drop 32 cs)"
    using keyboard_read_take [OF q, of 32] by auto
  have "tty_inv (t\<lparr>tkbd := k\<rparr>)" "tty_abs (t\<lparr>tkbd := k\<rparr>) = tty_abs t" using i by (simp_all add: tty_inv_def tty_abs_def)
  with tty_chars_edit [of "t\<lparr>tkbd := k\<rparr>" "take 32 cs" con] show ?thesis using k by (auto simp: tty_poll_def)
qed

text \<open>
  Polling refines the editor: \<^verbatim>\<open>tty_poll\<close> takes the oldest 32 characters from the
  keyboard, the line becomes what the editor makes of them, the console shows exactly the editor's
  echo, no store leaves the line buffer, and the rest of the characters stay queued.
\<close>

theorem tty_poll_refines:
  assumes "tty_inv t" and "kbd_rel (tkbd t) cs"
  shows "\<exists>t'. tty_poll (t, con) = Inr (t', console_write (echoes (take 32 cs) (tty_abs t)) con) \<and> tty_inv t' \<and>
    tty_abs t' = fold edit (take 32 cs) (tty_abs t) \<and> kbd_rel (tkbd t') (drop 32 cs)"
  by (rule tty_poll_edit [OF assms])

section \<open>Reading lines\<close>

fun tty_polls :: "nat \<Rightarrow> tty \<times> console \<Rightarrow> (tty \<times> console) res" where
  "tty_polls 0 s = Inr s"
| "tty_polls (Suc n) s = rbind (tty_poll s) (tty_polls n)"

lemma tty_polls_edit:
  "tty_inv t \<Longrightarrow> kbd_rel (tkbd t) cs \<Longrightarrow> length cs \<le> 32 * n \<Longrightarrow>
   \<exists>t' con'. tty_polls n (t, con) = Inr (t', con') \<and> tty_inv t' \<and> tty_abs t' = fold edit cs (tty_abs t) \<and> kbd_rel (tkbd t') []"
proof (induction n arbitrary: t cs con)
  case 0
  then show ?case by simp
next
  case (Suc n)
  obtain t1 con1 where t1: "tty_poll (t, con) = Inr (t1, con1)" "tty_inv t1" "tty_abs t1 = fold edit (take 32 cs) (tty_abs t)"
    "kbd_rel (tkbd t1) (drop 32 cs)" using tty_poll_edit [OF Suc.prems(1,2)] by blast
  have "fold edit (drop 32 cs) (fold edit (take 32 cs) (tty_abs t)) = fold edit cs (tty_abs t)"
    by (metis append_take_drop_id fold_append comp_apply)
  moreover have "length (drop 32 cs) \<le> 32 * n" using Suc.prems(3) by simp
  ultimately show ?case using Suc.IH [OF t1(2,4), of con1] t1(1,3) by auto
qed

definition plain :: "char \<Rightarrow> bool" where
  "plain c \<longleftrightarrow> c \<notin> {CHR 0x08, CHR 0x0A, CHR 0x0D}"

lemma edit_plain: "list_all plain w \<Longrightarrow> length (u @ w) \<le> 127 \<Longrightarrow> fold edit w (u, False) = (u @ w, False)"
  by (induction w arbitrary: u) (auto simp: edit_def plain_def)

lemma tty_readline_ready:
  assumes "tty_abs t = (w, True)" and "tty_inv t" and "length w < unat len"
  shows "tty_readline len t = ((of_nat (length w), w @ [CHR 0x00]), tty_init t)"
proof -
  have w: "w = take (unat (line_len t)) (line t)" "line_ready t" using assms(1) by (simp_all add: tty_abs_def)
  have l: "unat (line_len t) = length w" using tty_abs_length [OF assms(2)] assms(1) by simp
  then have n: "line_len t = of_nat (length w)" by (simp flip: l)
  have "len \<noteq> 0" using assms(3) by auto
  then have "unat (len - 1) = unat len - 1" by (simp add: unat_minus_one)
  then have "\<not> line_len t > len - 1" using assms(3) l by (simp add: word_less_nat_alt)
  then have "tty_readline len t = ((line_len t, take (unat (line_len t)) (line t) @ [CHR 0x00]), tty_init t)"
    using w(2) by (simp add: tty_readline_def tty_init_def Let_def)
  then show ?thesis unfolding w(1) [symmetric] n [symmetric] .
qed

text \<open>
  Claim C24. A typed line comes back: on an empty terminal, after up to 126 ordinary characters and
  Enter and enough polls for 32 characters each, \<^verbatim>\<open>tty_readline\<close> with a large enough buffer
  returns the characters with a line feed, terminated by NUL, and leaves the terminal empty.
\<close>

theorem tty_line_roundtrip:
  assumes "tty_inv t" "tty_abs t = ([], False)" "kbd_rel (tkbd t) (w @ [c])" "list_all plain w" "c = CHR 0x0A \<or> c = CHR 0x0D"
    "length w \<le> 126" "length w + 1 \<le> 32 * n" "length w + 1 < unat len"
  shows "\<exists>t1 con1 t2. tty_polls n (t, con) = Inr (t1, con1) \<and>
    tty_readline len t1 = ((of_nat (length w + 1), w @ [CHR 0x0A, CHR 0x00]), t2) \<and>
    tty_inv t2 \<and> tty_abs t2 = ([], False) \<and> kbd_rel (tkbd t2) []"
proof -
  have "length (w @ [c]) \<le> 32 * n" using assms(7) by simp
  from tty_polls_edit [OF assms(1,3) this, of con] obtain t1 con1 where
    t1: "tty_polls n (t, con) = Inr (t1, con1)" "tty_inv t1" "tty_abs t1 = fold edit (w @ [c]) ([], False)" "kbd_rel (tkbd t1) []"
    using assms(2) by auto
  have "fold edit w ([], False) = (w, False)" using edit_plain [OF assms(4), of "[]"] assms(6) by simp
  then have a: "tty_abs t1 = (w @ [CHR 0x0A], True)" using t1(3) assms(5,6) by (auto simp: edit_def)
  have "tty_readline len t1 = ((of_nat (length w + 1), w @ [CHR 0x0A, CHR 0x00]), tty_init t1)"
    using tty_readline_ready [OF a t1(2), of len] assms(8) by simp
  moreover have "tty_inv (tty_init t1)" "tty_abs (tty_init t1) = ([], False)" "tkbd (tty_init t1) = tkbd t1"
    using t1(2) by (simp_all add: tty_inv_def tty_abs_def tty_init_def)
  ultimately show ?thesis using t1(1,4) by metis
qed

text \<open>
  What \<^verbatim>\<open>tty_readline\<close> does with a finished line of \<open>n\<close> characters and a short buffer:
  with room for \<open>len\<close> bytes it stores at most \<open>len\<close> and drops the rest of the line for good; with
  \<^verbatim>\<open>len\<close> 1 it returns 0, as if there were no line, although the line is consumed; and with
  \<^verbatim>\<open>len\<close> 0 it stores the whole line and the terminator.
\<close>

theorem tty_readline_short_buffer:
  assumes "tty_inv t" "line_ready t"
  shows "length (snd (fst (tty_readline len t))) =
      (if len = 0 then unat (line_len t) + 1 else min (unat (line_len t) + 1) (unat len)) \<and>
    fst (fst (tty_readline 1 t)) = 0 \<and> tty_abs (snd (tty_readline len t)) = ([], False)"
proof -
  have l: "unat (line_len t) \<le> 127" "length (line t) = 128" using tty_inv_len [OF assms(1)] .
  have one: "fst (fst (tty_readline 1 t)) = 0"
    using assms(2) word_gt_0 [of "line_len t"] by (simp add: tty_readline_def Let_def)
  show ?thesis
  proof (cases "len = 0")
    case True
    have "\<not> line_len t > - 1" by simp
    then show ?thesis using True one assms(2) l by (simp add: tty_readline_def Let_def tty_abs_def)
  next
    case False
    then have u: "unat (len - 1) = unat len - 1" "0 < unat len" by (simp_all add: unat_minus_one unat_gt_0)
    show ?thesis using False one assms(2) l u
      by (cases "line_len t > len - 1") (auto simp: tty_readline_def Let_def word_less_nat_alt min_def tty_abs_def)
  qed
qed

definition tty_example :: "string \<Rightarrow> tty" where
  "tty_example cs = \<lparr>line = replicate 128 (CHR 0x00), line_len = 0, line_ready = False,
     tkbd = \<lparr>kbuf = cs @ replicate (256 - length cs) (CHR 0x00), kbuf_head = of_nat (length cs), kbuf_tail = 0,
       kport = \<lparr>ps2_pending = [], ps2_last = 0\<rparr>\<rparr>\<rparr>"

lemma tty_example_ok:
  assumes "length cs < 256"
  shows "tty_inv (tty_example cs)" "tty_abs (tty_example cs) = ([], False)" "kbd_rel (tkbd (tty_example cs)) cs"
proof -
  have "unat (of_nat (length cs) :: u32) = length cs" using assms by (simp add: unat_of_nat)
  then show "kbd_rel (tkbd (tty_example cs)) cs"
    using assms by (simp add: tty_example_def kbd_rel_def nth_append word_less_nat_alt)
qed (simp_all add: tty_example_def tty_inv_def tty_abs_def)

theorem tty_poll_refines_witness:
  "\<exists>t'. tty_poll (tty_example [CHR ''a'', CHR 0x08, CHR ''b''], console_example) =
      Inr (t', console_write [CHR ''a'', CHR 0x08, CHR '' '', CHR 0x08, CHR ''b''] console_example) \<and> tty_abs t' = (''b'', False)"
proof -
  let ?cs = "[CHR ''a'', CHR 0x08, CHR ''b'']"
  have "length ?cs < 256" by simp
  note ok = tty_example_ok [OF this]
  show ?thesis using tty_poll_refines [OF ok(1,3), of console_example] ok(2) by (auto simp: edit_def echo_def)
qed

theorem tty_line_roundtrip_witness:
  "\<exists>t1 con1 t2. tty_polls 1 (tty_example (''ls'' @ [CHR 0x0D]), console_example) = Inr (t1, con1) \<and>
    tty_readline 128 t1 = ((3, ''ls'' @ [CHR 0x0A, CHR 0x00]), t2)"
proof -
  have "length (''ls'' @ [CHR 0x0D]) < 256" by simp
  from tty_line_roundtrip [OF tty_example_ok [OF this], of 1 128 console_example]
  show ?thesis by (auto simp: plain_def)
qed

theorem tty_readline_short_buffer_witness:
  "length (snd (fst (tty_readline 0 ((tty_example [])\<lparr>line_len := 5, line_ready := True\<rparr>)))) = 6"
  using tty_readline_short_buffer [of "(tty_example [])\<lparr>line_len := 5, line_ready := True\<rparr>" 0]
    tty_example_ok(1) [of "[]"] by (simp add: tty_inv_def)

end
