(* ===== verification/Pci.thy ===== *)
theory Pci
  imports Kprintf
begin

text \<open>
  PCI enumeration (\<^verbatim>\<open>drivers/pci.c\<close>, \<^verbatim>\<open>include/uix/pci.h\<close>): configuration space through the
  address and data ports, the scan of bus 0, base address registers and their sizes, and the lookups
  the drivers use.
\<close>

section \<open>Configuration space\<close>

text \<open>
  The host bridge latches the address written to 0xCF8 and routes accesses to 0xCFC to that register.
  What a register holds after a write is up to the device: \<open>cfg_store a old v\<close> is a parameter (a base
  address register, for one, keeps only the address bits it decodes).
\<close>

record pci_bus =
  cf8 :: u32
  cfg :: "u32 \<Rightarrow> u32"
  cfg_store :: "u32 \<Rightarrow> u32 \<Rightarrow> u32 \<Rightarrow> u32"

definition PCI_ADDR :: u16 where "PCI_ADDR = 0xCF8"
definition PCI_DATA :: u16 where "PCI_DATA = 0xCFC"

definition pci_outl :: "u16 \<Rightarrow> u32 \<Rightarrow> pci_bus \<Rightarrow> pci_bus" where
  "pci_outl port v b =
     (if port = PCI_ADDR then b\<lparr>cf8 := v\<rparr>
      else if port = PCI_DATA then b\<lparr>cfg := (cfg b)(cf8 b := cfg_store b (cf8 b) (cfg b (cf8 b)) v)\<rparr>
      else b)"

definition pci_inl :: "u16 \<Rightarrow> pci_bus \<Rightarrow> u32" where
  "pci_inl port b = (if port = PCI_DATA then cfg b (cf8 b) else cf8 b)"

definition pci_addr :: "u8 \<Rightarrow> u8 \<Rightarrow> u8 \<Rightarrow> u8 \<Rightarrow> u32" where
  "pci_addr bus dev fn off =
     push_bit 31 1 OR push_bit 16 (ucast bus) OR push_bit 11 (ucast dev) OR push_bit 8 (ucast fn) OR (ucast off AND 0xFC)"

definition pci_read32 :: "u8 \<Rightarrow> u8 \<Rightarrow> u8 \<Rightarrow> u8 \<Rightarrow> pci_bus \<Rightarrow> u32 \<times> pci_bus" where
  "pci_read32 bus dev fn off b =
     (let b = pci_outl PCI_ADDR (pci_addr bus dev fn off) b in (pci_inl PCI_DATA b, b))"

definition pci_write32 :: "u8 \<Rightarrow> u8 \<Rightarrow> u8 \<Rightarrow> u8 \<Rightarrow> u32 \<Rightarrow> pci_bus \<Rightarrow> pci_bus" where
  "pci_write32 bus dev fn off val b =
     pci_outl PCI_DATA val (pci_outl PCI_ADDR (pci_addr bus dev fn off) b)"

definition pci_read16 :: "u8 \<Rightarrow> u8 \<Rightarrow> u8 \<Rightarrow> u8 \<Rightarrow> pci_bus \<Rightarrow> u16 \<times> pci_bus" where
  "pci_read16 bus dev fn off b =
     (case pci_read32 bus dev fn (off AND NOT 3) b of (v, b) \<Rightarrow>
      (ucast (drop_bit (unat (off AND 2) * 8) v), b))"

definition bar_size :: "u8 \<Rightarrow> u8 \<Rightarrow> u8 \<Rightarrow> nat \<Rightarrow> pci_bus \<Rightarrow> u64 \<times> pci_bus" where
  "bar_size bus dev fn bar b =
     (let off = 0x10 + of_nat (bar * 4) in
      case pci_read32 bus dev fn off b of (orig, b) \<Rightarrow>
      let b = pci_write32 bus dev fn off 0xFFFFFFFF b in
      case pci_read32 bus dev fn off b of (sz, b) \<Rightarrow>
      let b = pci_write32 bus dev fn off orig b in
      (if orig AND 1 \<noteq> 0 then ucast (NOT (sz AND NOT 3) + 1) AND 0xFFFF
       else ucast (NOT (sz AND NOT 0xF) + 1), b))"

section \<open>The table of devices\<close>

record pci_dev =
  vendor :: u16
  device :: u16
  d_bus :: u8
  d_dev :: u8
  d_fn :: u8
  dclass :: u8
  sub_class :: u8
  prog_if :: u8
  irq :: u8
  bars :: "u64 list"
  bar_types :: "u8 list"

definition MAX_DEVS :: nat where "MAX_DEVS = 32"

record pci =
  found :: "pci_dev list"
  found_count :: nat
  pbus :: pci_bus

text \<open>The loop over the base address registers of a device, from register \<open>n\<close> on.\<close>

function probe_bars :: "u8 \<Rightarrow> u8 \<Rightarrow> u8 \<Rightarrow> nat \<Rightarrow> pci_dev \<times> pci_bus \<Rightarrow> pci_dev \<times> pci_bus" where
  "probe_bars bus dev fn n (d, b) =
     (if n < 6
      then case pci_read32 bus dev fn (0x10 + of_nat (n * 4)) b of (bar, b) \<Rightarrow>
        let d = d\<lparr>bar_types := (bar_types d)[n := ucast (bar AND 1)]\<rparr> in
        if bar AND 1 \<noteq> 0
        then probe_bars bus dev fn (n + 1) (d\<lparr>bars := (bars d)[n := ucast (bar AND NOT 3)]\<rparr>, b)
        else if bar AND 6 = 4 \<and> n < 5
        then case pci_read32 bus dev fn (0x10 + of_nat ((n + 1) * 4)) b of (hi, b) \<Rightarrow>
          probe_bars bus dev fn (n + 2)
            (d\<lparr>bars := (bars d)[n := push_bit 32 (ucast hi) OR ucast (bar AND NOT 0xF)]\<rparr>, b)
        else probe_bars bus dev fn (n + 1) (d\<lparr>bars := (bars d)[n := ucast (bar AND NOT 0xF)]\<rparr>, b)
      else (d, b))"
  by pat_completeness auto
termination by (relation "measure (\<lambda>(_, _, _, n, _). 6 - n)") auto

declare probe_bars.simps [simp del]

text \<open>The identification registers of a device that answered with \<open>vend\<close>.\<close>

definition probe_ids :: "u8 \<Rightarrow> u8 \<Rightarrow> u8 \<Rightarrow> u16 \<Rightarrow> pci_dev \<Rightarrow> pci_bus \<Rightarrow> pci_dev \<times> pci_bus" where
  "probe_ids bus dev fn vend d b =
     (let d = d\<lparr>vendor := vend\<rparr> in
      case pci_read16 bus dev fn 2 b of (devid, b) \<Rightarrow>
      let d = d\<lparr>device := devid, d_bus := bus, d_dev := dev, d_fn := fn\<rparr> in
      case pci_read32 bus dev fn 8 b of (cl, b) \<Rightarrow>
      let d = d\<lparr>prog_if := ucast (drop_bit 16 cl AND 0xFF), sub_class := ucast (drop_bit 24 cl AND 0xFF),
                dclass := ucast (drop_bit 8 (drop_bit 16 cl))\<rparr> in
      case pci_read16 bus dev fn 0x3C b of (iq, b) \<Rightarrow>
      (d\<lparr>irq := ucast (iq AND 0xFF)\<rparr>, b))"

definition probe :: "u8 \<Rightarrow> u8 \<Rightarrow> u8 \<Rightarrow> pci \<times> console \<Rightarrow> pci \<times> console" where
  "probe bus dev fn = (\<lambda>(s, con).
     case pci_read16 bus dev fn 0 (pbus s) of (vend, b) \<Rightarrow>
     if vend = 0xFFFF then (s\<lparr>pbus := b\<rparr>, con)
     else if found_count s \<ge> MAX_DEVS then (s\<lparr>pbus := b\<rparr>, con)
     else let i = found_count s in
       case probe_bars bus dev fn 0 (probe_ids bus dev fn vend (found s ! i) b) of (d, b) \<Rightarrow>
       case bar_size bus dev fn 0 b of (sz, b) \<Rightarrow>
       (s\<lparr>found := (found s)[i := d], found_count := i + 1, pbus := b\<rparr>,
        kprintf (KLOG_INFO @ ''pci %02x:%02x.%u %04x:%04x class %02x%02x%02x irq %u bar0 %p (size %pK)'' @ nl)
          [KNum (ucast bus), KNum (ucast dev), KNum (ucast fn), KNum (ucast (vendor d)), KNum (ucast (device d)),
           KNum (ucast (dclass d)), KNum (ucast (sub_class d)), KNum (ucast (prog_if d)), KNum (ucast (irq d)),
           KNum (bars d ! 0), KNum sz] con))"

text \<open>One round of the loop of \<^verbatim>\<open>pci_scan\<close>: the functions of device \<open>dev\<close>.\<close>

definition scan_dev :: "u8 \<Rightarrow> pci \<times> console \<Rightarrow> pci \<times> console" where
  "scan_dev dev = (\<lambda>(s, con).
     case pci_read16 0 dev 0 0 (pbus s) of (vend, b) \<Rightarrow>
     if vend = 0xFFFF then (s\<lparr>pbus := b\<rparr>, con)
     else case probe 0 dev 0 (s\<lparr>pbus := b\<rparr>, con) of (s, con) \<Rightarrow>
       case pci_read16 0 dev 0 14 (pbus s) of (hdr, b) \<Rightarrow>
       if (ucast hdr AND 0xFF :: u8) AND 0x80 \<noteq> 0
       then fold (\<lambda>fn. probe 0 dev (of_nat fn)) [1..<8] (s\<lparr>pbus := b\<rparr>, con)
       else (s\<lparr>pbus := b\<rparr>, con))"

definition pci_scan :: "pci \<times> console \<Rightarrow> nat \<times> pci \<times> console" where
  "pci_scan = (\<lambda>(s, con).
     case fold (\<lambda>dev. scan_dev (of_nat dev)) [0..<32] (s\<lparr>found_count := 0\<rparr>, con) of
       (s, con) \<Rightarrow> (found_count s, s, con))"

text \<open>The lookups: 0 and the device, or -1.\<close>

definition pci_find_by_class :: "u8 \<Rightarrow> u8 \<Rightarrow> pci \<Rightarrow> pci_dev option" where
  "pci_find_by_class c sc s = List.find (\<lambda>d. dclass d = c \<and> sub_class d = sc) (take (found_count s) (found s))"

definition pci_find_by_id :: "u16 \<Rightarrow> u16 \<Rightarrow> pci \<Rightarrow> pci_dev option" where
  "pci_find_by_id v i s = List.find (\<lambda>d. vendor d = v \<and> device d = i) (take (found_count s) (found s))"

definition pci_enable_bus_master :: "pci_dev \<Rightarrow> pci \<Rightarrow> pci" where
  "pci_enable_bus_master d s =
     (case pci_read32 (d_bus d) (d_dev d) (d_fn d) 4 (pbus s) of (cmd, b) \<Rightarrow>
      s\<lparr>pbus := pci_write32 (d_bus d) (d_dev d) (d_fn d) 4 (cmd OR 7) b\<rparr>)"

section \<open>What a scan finds\<close>

definition same_cfg :: "pci_bus \<Rightarrow> pci_bus \<Rightarrow> bool" where
  "same_cfg b b' \<longleftrightarrow> cfg b' = cfg b \<and> cfg_store b' = cfg_store b"

lemma pci_read32_simps [simp]:
  "fst (pci_read32 bus dev fn off b) = cfg b (pci_addr bus dev fn off)"
  "cfg (snd (pci_read32 bus dev fn off b)) = cfg b" "cfg_store (snd (pci_read32 bus dev fn off b)) = cfg_store b"
  by (simp_all add: pci_read32_def pci_outl_def pci_inl_def PCI_ADDR_def PCI_DATA_def Let_def)

lemma pci_write32_simps [simp]:
  "cfg (pci_write32 bus dev fn off v b) = (let a = pci_addr bus dev fn off in (cfg b)(a := cfg_store b a (cfg b a) v))"
  "cfg_store (pci_write32 bus dev fn off v b) = cfg_store b"
  by (simp_all add: pci_write32_def pci_outl_def PCI_ADDR_def PCI_DATA_def Let_def)

definition cfg16 :: "pci_bus \<Rightarrow> u8 \<Rightarrow> u8 \<Rightarrow> u8 \<Rightarrow> u8 \<Rightarrow> u16" where
  "cfg16 b bus dev fn off = ucast (drop_bit (unat (off AND 2) * 8) (cfg b (pci_addr bus dev fn (off AND NOT 3))))"

lemma pci_read16_simps [simp]:
  "fst (pci_read16 bus dev fn off b) = cfg16 b bus dev fn off"
  "cfg (snd (pci_read16 bus dev fn off b)) = cfg b" "cfg_store (snd (pci_read16 bus dev fn off b)) = cfg_store b"
  by (simp_all add: pci_read16_def cfg16_def split: prod.splits) (metis pci_read32_simps prod.sel)+

lemma cfg16_cong: "cfg b' = cfg b \<Longrightarrow> cfg16 b' = cfg16 b"
  by (intro ext) (simp add: cfg16_def)

text \<open>The documented behaviour of a base address register: writing back what was read restores it.\<close>

definition bar_restores :: "pci_bus \<Rightarrow> u32 \<Rightarrow> bool" where
  "bar_restores b a \<longleftrightarrow> cfg_store b a (cfg_store b a (cfg b a) 0xFFFFFFFF) (cfg b a) = cfg b a"

lemma bar_size_value:
  "fst (bar_size bus dev fn n b) =
     (let a = pci_addr bus dev fn (0x10 + of_nat (n * 4)); orig = cfg b a; sz = cfg_store b a orig 0xFFFFFFFF in
      if orig AND 1 \<noteq> 0 then ucast (NOT (sz AND NOT 3) + 1) AND 0xFFFF else ucast (NOT (sz AND NOT 0xF) + 1))"
  by (simp add: bar_size_def Let_def case_prod_beta)

lemma bar_size_same_cfg:
  "bar_restores b (pci_addr bus dev fn (0x10 + of_nat (n * 4))) \<Longrightarrow> same_cfg b (snd (bar_size bus dev fn n b))"
  by (auto simp: bar_size_def Let_def case_prod_beta same_cfg_def bar_restores_def)

text \<open>Reading the base addresses changes nothing else.\<close>

definition bars_frame :: "pci_dev \<times> pci_bus \<Rightarrow> pci_dev \<times> pci_bus \<Rightarrow> bool" where
  "bars_frame x y \<longleftrightarrow> same_cfg (snd x) (snd y) \<and> 
     (fst y)\<lparr>bars := [], bar_types := []\<rparr> = (fst x)\<lparr>bars := [], bar_types := []\<rparr>"

lemma bars_frame_trans: "bars_frame x y \<Longrightarrow> bars_frame y z \<Longrightarrow> bars_frame x z"
  by (auto simp: bars_frame_def same_cfg_def)

lemma probe_bars_frame: "bars_frame x (probe_bars bus dev fn n x)"
proof (induction "6 - n" arbitrary: n x rule: less_induct)
  case less
  obtain d b where x: "x = (d, b)" by fastforce
  show ?case
  proof (cases "n < 6")
    case False
    then show ?thesis using x by (simp add: bars_frame_def same_cfg_def probe_bars.simps)
  next
    case True
    have step: "bars_frame x y" if "fst y = d\<lparr>bar_types := ts, bars := bs\<rparr>" "cfg (snd y) = cfg b" "cfg_store (snd y) = cfg_store b" for y ts bs
      using that x by (simp add: bars_frame_def same_cfg_def)
    have "bars_frame y (probe_bars bus dev fn (Suc n) y)" "bars_frame y (probe_bars bus dev fn (Suc (Suc n)) y)" for y
      using True less.hyps [of "Suc n" y] less.hyps [of "Suc (Suc n)" y] by auto
    then show ?thesis
      using True unfolding x by (subst probe_bars.simps) (auto simp: Let_def case_prod_beta intro!: bars_frame_trans [OF step, unfolded x])
  qed
qed

text \<open>The functions that answer on bus 0, in the order of the scan.\<close>

definition present :: "pci_bus \<Rightarrow> u8 \<Rightarrow> u8 \<Rightarrow> bool" where
  "present b dev fn \<longleftrightarrow> cfg16 b 0 dev fn 0 \<noteq> 0xFFFF"

definition multifunction :: "pci_bus \<Rightarrow> u8 \<Rightarrow> bool" where
  "multifunction b dev \<longleftrightarrow> (ucast (cfg16 b 0 dev 0 14) AND 0xFF :: u8) AND 0x80 \<noteq> 0"

definition functions_of :: "pci_bus \<Rightarrow> u8 \<Rightarrow> (u8 \<times> u8) list" where
  "functions_of b dev = (if \<not> present b dev 0 then []
     else map (Pair dev) (filter (present b dev) (0 # (if multifunction b dev then map of_nat [1..<8] else []))))"

definition bus_functions :: "pci_bus \<Rightarrow> (u8 \<times> u8) list" where
  "bus_functions b = concat (map (\<lambda>dev. functions_of b (of_nat dev)) [0..<32])"

text \<open>What the table holds of a function.\<close>

definition pci_entry :: "pci_bus \<Rightarrow> u8 \<times> u8 \<Rightarrow> pci_dev \<Rightarrow> bool" where
  "pci_entry b = (\<lambda>(dev, fn) d.
     d_bus d = 0 \<and> d_dev d = dev \<and> d_fn d = fn \<and> vendor d = cfg16 b 0 dev fn 0 \<and> device d = cfg16 b 0 dev fn 2 \<and>
     dclass d = ucast (drop_bit 24 (cfg b (pci_addr 0 dev fn 8))) \<and> sub_class d = dclass d)"

definition bars_restore :: "pci_bus \<Rightarrow> bool" where
  "bars_restore b \<longleftrightarrow> (\<forall>dev fn. bar_restores b (pci_addr 0 dev fn 0x10))"

definition scan_inv :: "pci_bus \<Rightarrow> (u8 \<times> u8) list \<Rightarrow> pci \<Rightarrow> bool" where
  "scan_inv b xs s \<longleftrightarrow> same_cfg b (pbus s) \<and> length (found s) = 32 \<and> found_count s = min 32 (length xs) \<and>
     list_all2 (pci_entry b) (take 32 xs) (take (found_count s) (found s))"

lemma scan_inv_bus: "scan_inv b xs s \<Longrightarrow> same_cfg b b' \<Longrightarrow> scan_inv b xs (s\<lparr>pbus := b'\<rparr>)"
  by (auto simp: scan_inv_def)

lemma pci_entry_bars: "bars_frame (d, b1) (d', b2) \<Longrightarrow> pci_entry b x d' = pci_entry b x d"
proof -
  assume "bars_frame (d, b1) (d', b2)"
  then have "d'\<lparr>bars := [], bar_types := []\<rparr> = d\<lparr>bars := [], bar_types := []\<rparr>" by (simp add: bars_frame_def)
  then have "vendor d' = vendor d" "device d' = device d" "d_bus d' = d_bus d" "d_dev d' = d_dev d" "d_fn d' = d_fn d"
    "dclass d' = dclass d" "sub_class d' = sub_class d"
    by (metis (no_types, lifting) pci_dev.select_convs pci_dev.surjective pci_dev.update_convs)+
  then show ?thesis by (cases x) (simp add: pci_entry_def)
qed

lemma class_byte: "(ucast (drop_bit 24 cl AND 0xFF :: u32) :: u8) = ucast (drop_bit 24 cl)"
  "(ucast (drop_bit 8 (drop_bit 16 cl) :: u32) :: u8) = ucast (drop_bit 24 cl)"
proof -
  have "drop_bit 8 (drop_bit 16 cl) = drop_bit 24 cl" by simp
  then show "(ucast (drop_bit 8 (drop_bit 16 cl) :: u32) :: u8) = ucast (drop_bit 24 cl)" by simp
  have "drop_bit 24 cl AND 0xFF = take_bit 8 (drop_bit 24 cl)" by (simp add: take_bit_eq_mask mask_eq_exp_minus_1)
  then show "(ucast (drop_bit 24 cl AND 0xFF :: u32) :: u8) = ucast (drop_bit 24 cl)"
    by (simp add: bit_eq_iff [where ?'a = u8] bit_unsigned_iff bit_take_bit_iff)
qed

lemma probe_ids_entry:
  assumes "cfg b' = cfg b" "cfg_store b' = cfg_store b" "vend = cfg16 b 0 dev fn 0"
  shows "pci_entry b (dev, fn) (fst (probe_ids 0 dev fn vend d b'))" "same_cfg b (snd (probe_ids 0 dev fn vend d b'))"
  using assms cfg16_cong [OF assms(1)]
  by (simp_all add: probe_ids_def pci_entry_def same_cfg_def case_prod_beta Let_def class_byte)

lemma probe_inv:
  assumes i: "scan_inv b xs s" and r: "bars_restore b"
  shows "scan_inv b (xs @ (if present b dev fn then [(dev, fn)] else [])) (fst (probe 0 dev fn (s, con)))"
proof -
  let ?b = "snd (pci_read16 0 dev fn 0 (pbus s))"
  have c: "cfg (pbus s) = cfg b" "cfg_store (pbus s) = cfg_store b" "length (found s) = 32" "found_count s = min 32 (length xs)"
    "list_all2 (pci_entry b) (take 32 xs) (take (found_count s) (found s))"
    using i unfolding scan_inv_def same_cfg_def by blast+
  have v: "fst (pci_read16 0 dev fn 0 (pbus s)) = cfg16 b 0 dev fn 0" using cfg16_cong [OF c(1)] by simp
  have sb: "same_cfg b ?b" using c by (simp add: same_cfg_def)
  consider (absent) "\<not> present b dev fn" | (full) "present b dev fn" "32 \<le> length xs" | (new) "present b dev fn" "length xs < 32" by linarith
  then show ?thesis
  proof cases
    case absent
    then have "fst (probe 0 dev fn (s, con)) = s\<lparr>pbus := ?b\<rparr>" using v by (simp add: probe_def present_def case_prod_beta)
    then show ?thesis using absent scan_inv_bus [OF i sb] by simp
  next
    case full
    then have "fst (probe 0 dev fn (s, con)) = s\<lparr>pbus := ?b\<rparr>" using v c(4) by (simp add: probe_def present_def case_prod_beta MAX_DEVS_def)
    then show ?thesis using full scan_inv_bus [OF i sb] by (auto simp: scan_inv_def)
  next
    case new
    let ?n = "length xs"
    have n: "found_count s = ?n" using new c(4) by simp
    define x where "x = probe_ids 0 dev fn (cfg16 b 0 dev fn 0) (found s ! ?n) ?b"
    define d where "d = probe_bars 0 dev fn 0 x"
    have x: "pci_entry b (dev, fn) (fst x)" "same_cfg b (snd x)"
      unfolding x_def by (rule probe_ids_entry; use c in simp)+
    have f: "bars_frame (fst x, snd x) (fst d, snd d)" unfolding d_def using probe_bars_frame [of x] by simp
    have run: "fst (probe 0 dev fn (s, con)) =
        s\<lparr>found := (found s)[?n := fst d], found_count := Suc ?n, pbus := snd (bar_size 0 dev fn 0 (snd d))\<rparr>"
      using new n v unfolding d_def x_def by (simp add: probe_def present_def case_prod_beta MAX_DEVS_def Let_def)
    have e: "pci_entry b (dev, fn) (fst d)" using pci_entry_bars [OF f] x(1) by simp
    have sd: "same_cfg b (snd d)" using f x(2) by (auto simp: bars_frame_def same_cfg_def)
    then have "bar_restores (snd d) (pci_addr 0 dev fn (0x10 + of_nat (0 * 4)))" using r by (auto simp: bars_restore_def bar_restores_def same_cfg_def)
    from bar_size_same_cfg [OF this] have "same_cfg b (snd (bar_size 0 dev fn 0 (snd d)))" using sd by (simp add: same_cfg_def)
    moreover have "take (Suc ?n) ((found s)[?n := fst d]) = take ?n (found s) @ [fst d]"
      using c(3) new(2) by (simp add: take_Suc_conv_app_nth)
    ultimately show ?thesis using run e c(3,5) n new by (simp add: scan_inv_def list_all2_appendI)
  qed
qed

lemma probes_inv:
  "scan_inv b xs (fst x) \<Longrightarrow> bars_restore b \<Longrightarrow>
   scan_inv b (xs @ map (Pair dev) (filter (present b dev) (map of_nat ns))) (fst (fold (\<lambda>fn. probe 0 dev (of_nat fn)) ns x))"
proof (induction ns arbitrary: xs x)
  case (Cons n ns)
  have "scan_inv b (xs @ (if present b dev (of_nat n) then [(dev, of_nat n)] else [])) (fst (probe 0 dev (of_nat n) x))"
    using probe_inv [OF Cons.prems, of dev "of_nat n" "snd x"] by simp
  from Cons.IH [OF this Cons.prems(2)] show ?case by (cases "present b dev (of_nat n)") simp_all
qed simp

lemma scan_dev_inv:
  assumes i: "scan_inv b xs (fst x)" and r: "bars_restore b"
  shows "scan_inv b (xs @ functions_of b dev) (fst (scan_dev dev x))"
proof -
  obtain s con where x: "x = (s, con)" by fastforce
  let ?b = "snd (pci_read16 0 dev 0 0 (pbus s))"
  have i': "scan_inv b xs s" using i x by simp
  then have c: "cfg (pbus s) = cfg b" and sb: "same_cfg b ?b" by (simp_all add: scan_inv_def same_cfg_def)
  have v: "fst (pci_read16 0 dev 0 0 (pbus s)) = cfg16 b 0 dev 0 0" using cfg16_cong [OF c] by simp
  show ?thesis
  proof (cases "present b dev 0")
    case False
    then show ?thesis using x v scan_inv_bus [OF i' sb] by (simp add: scan_dev_def present_def functions_of_def case_prod_beta)
  next
    case True
    obtain s1 con1 where p: "probe 0 dev 0 (s\<lparr>pbus := ?b\<rparr>, con) = (s1, con1)" by fastforce
    have i1: "scan_inv b (xs @ [(dev, 0)]) s1" using probe_inv [OF scan_inv_bus [OF i' sb] r, of dev 0 con] True p by simp
    then have c1: "cfg (pbus s1) = cfg b" "cfg_store (pbus s1) = cfg_store b" by (simp_all add: scan_inv_def same_cfg_def)
    let ?b1 = "snd (pci_read16 0 dev 0 14 (pbus s1))"
    have "same_cfg b ?b1" using c1 by (simp add: same_cfg_def)
    then have i2: "scan_inv b (xs @ [(dev, 0)]) (s1\<lparr>pbus := ?b1\<rparr>)" by (rule scan_inv_bus [OF i1])
    have h: "fst (pci_read16 0 dev 0 14 (pbus s1)) = cfg16 b 0 dev 0 14" using cfg16_cong [OF c1(1)] by simp
    have run: "scan_dev dev x = (if multifunction b dev
        then fold (\<lambda>fn. probe 0 dev (of_nat fn)) [1..<8] (s1\<lparr>pbus := ?b1\<rparr>, con1) else (s1\<lparr>pbus := ?b1\<rparr>, con1))"
      using x p v h True by (simp add: scan_dev_def present_def multifunction_def case_prod_beta)
    have "scan_inv b ((xs @ [(dev, 0)]) @ map (Pair dev) (filter (present b dev) (map of_nat [1..<8])))
        (fst (fold (\<lambda>fn. probe 0 dev (of_nat fn)) [1..<8] (s1\<lparr>pbus := ?b1\<rparr>, con1)))"
      by (rule probes_inv) (use i2 r in simp_all)
    then show ?thesis using run True i2 by (simp add: functions_of_def del: upt_Suc)
  qed
qed

lemma pci_scan_inv:
  assumes "length (found s) = 32" and r: "bars_restore (pbus s)"
  shows "scan_inv (pbus s) (bus_functions (pbus s)) (fst (snd (pci_scan (s, con))))"
    "fst (pci_scan (s, con)) = min 32 (length (bus_functions (pbus s)))"
proof -
  let ?b = "pbus s"
  have "scan_inv ?b (xs @ concat (map (\<lambda>dev. functions_of ?b (of_nat dev)) ns)) (fst (fold (\<lambda>dev. scan_dev (of_nat dev)) ns x))"
    if "scan_inv ?b xs (fst x)" for xs ns x
    using that
  proof (induction ns arbitrary: xs x)
    case (Cons n ns)
    from Cons.IH [OF scan_dev_inv [OF Cons.prems r, of "of_nat n"]] show ?case by simp
  qed simp
  note scan = this
  have "scan_inv ?b [] (fst (s\<lparr>found_count := 0\<rparr>, con))" using assms(1) by (simp add: scan_inv_def same_cfg_def)
  from scan [OF this, of "[0..<32]"] show i: "scan_inv ?b (bus_functions ?b) (fst (snd (pci_scan (s, con))))"
    unfolding bus_functions_def pci_scan_def by (simp only: case_prod_beta prod.sel append_Nil)
  have "fst (pci_scan (s, con)) = found_count (fst (snd (pci_scan (s, con))))" by (simp add: pci_scan_def case_prod_beta)
  then show "fst (pci_scan (s, con)) = min 32 (length (bus_functions ?b))" using i by (simp add: scan_inv_def)
qed

text \<open>
  Claim C26. The scan finds every function of bus 0 that answers, in order, up to the 32 places of
  the table; each entry holds the identifiers of its function; and provided the base address
  registers take back their contents, the configuration space is afterwards as it was before.
\<close>

theorem pci_scan_complete:
  assumes "length (found s) = 32" and "bars_restore (pbus s)" and "pci_scan (s, con) = (n, s', con')"
  shows "n = min 32 (length (bus_functions (pbus s))) \<and>
    list_all2 (pci_entry (pbus s)) (take 32 (bus_functions (pbus s))) (take n (found s')) \<and> cfg (pbus s') = cfg (pbus s)"
proof -
  have "scan_inv (pbus s) (bus_functions (pbus s)) s'" "n = min 32 (length (bus_functions (pbus s)))"
    using pci_scan_inv [OF assms(1,2), of con] assms(3) by auto
  then show ?thesis unfolding scan_inv_def same_cfg_def by (elim conjE) simp
qed

lemma find_none_iff: "List.find P xs = None \<longleftrightarrow> (\<forall>x\<in>set xs. \<not> P x)"
  by (induction xs) auto

text \<open>
  \<^verbatim>\<open>probe\<close> stores the class code in both the class and the subclass field, so after a
  scan \<^verbatim>\<open>pci_find_by_class\<close> finds nothing whenever class and subclass differ, whatever is on the bus.
\<close>

theorem pci_find_by_class_misses:
  assumes "length (found s) = 32" and "bars_restore (pbus s)" and "pci_scan (s, con) = (n, s', con')" and "c \<noteq> sc"
  shows "pci_find_by_class c sc s' = None"
proof -
  have "scan_inv (pbus s) (bus_functions (pbus s)) s'" using pci_scan_inv(1) [OF assms(1,2), of con] assms(3) by simp
  then have "list_all2 (pci_entry (pbus s)) (take 32 (bus_functions (pbus s))) (take (found_count s') (found s'))"
    unfolding scan_inv_def by blast
  then have "\<forall>d\<in>set (take (found_count s') (found s')). sub_class d = dclass d"
    by (induction rule: list_all2_induct) (auto simp: pci_entry_def)
  then show ?thesis using assms(4) by (auto simp: pci_find_by_class_def find_none_iff)
qed

section \<open>Base address register sizes\<close>

text \<open>
  A register that decodes \<open>2 ^ k\<close> bytes keeps only the address bits from \<open>k\<close> on, plus its read-only
  type bits; \<^verbatim>\<open>bar_size\<close> finds \<open>2 ^ k\<close> then, for memory of up to 2 GiB and for ports.
\<close>

lemma not_or_not_mask:
  assumes "n \<le> k" and "k < 32"
  shows "NOT ((NOT (mask k) OR (x AND mask n)) AND NOT (mask n)) + 1 = (2 ^ k :: u32)"
proof -
  have "(NOT (mask k) OR (x AND mask n)) AND NOT (mask n) = (NOT (mask k) :: u32)"
    using assms(1) by (auto simp: bit_eq_iff bit_and_iff bit_or_iff bit_not_iff bit_mask_iff)
  then show ?thesis by (simp add: mask_eq_exp_minus_1)
qed

lemma bar_size_memory:
  assumes a: "a = pci_addr bus dev fn (0x10 + of_nat (n * 4))" and m: "cfg b a AND 1 = 0"
    and k: "4 \<le> k" "k < 32" and st: "cfg_store b a (cfg b a) 0xFFFFFFFF = NOT (mask k) OR (cfg b a AND mask 4)"
  shows "fst (bar_size bus dev fn n b) = 2 ^ k"
proof -
  have m4: "mask 4 = (0xF :: u32)" by (simp add: mask_eq_exp_minus_1)
  have "NOT (cfg_store b a (cfg b a) 0xFFFFFFFF AND NOT 0xF) + 1 = (2 ^ k :: u32)"
    using not_or_not_mask [OF k, of "cfg b a"] unfolding st m4 .
  moreover have "(ucast (2 ^ k :: u32) :: u64) = 2 ^ k"
    using k by (auto simp: bit_eq_iff [where ?'a = u64] bit_unsigned_iff bit_exp_iff)
  ultimately show ?thesis using m unfolding bar_size_value a [symmetric] Let_def by simp
qed

lemma bar_size_ports:
  assumes a: "a = pci_addr bus dev fn (0x10 + of_nat (n * 4))" and m: "cfg b a AND 1 \<noteq> 0"
    and k: "2 \<le> k" "k < 16" and st: "cfg_store b a (cfg b a) 0xFFFFFFFF = NOT (mask k) OR (cfg b a AND mask 2)"
  shows "fst (bar_size bus dev fn n b) = 2 ^ k"
proof -
  have m2: "mask 2 = (3 :: u32)" by (simp add: mask_eq_exp_minus_1)
  have m16: "(0xFFFF :: u64) = mask 16" by (simp add: mask_eq_exp_minus_1)
  have "k < 32" using k by simp
  then have "NOT (cfg_store b a (cfg b a) 0xFFFFFFFF AND NOT 3) + 1 = (2 ^ k :: u32)"
    using not_or_not_mask [OF k(1), of "cfg b a"] unfolding st m2 by simp
  moreover have "(ucast (2 ^ k :: u32) :: u64) AND 0xFFFF = 2 ^ k"
    unfolding m16 using k by (auto simp: bit_eq_iff [where ?'a = u64] bit_unsigned_iff bit_exp_iff bit_and_iff bit_mask_iff)
  ultimately show ?thesis using m unfolding bar_size_value a [symmetric] Let_def by simp
qed

section \<open>Example\<close>

text \<open>A bus with a virtio block device at device 3.\<close>

definition pci_bus_example :: pci_bus where
  "pci_bus_example = \<lparr>cf8 = 0,
     cfg = (\<lambda>a. if a = 0x80001800 then 0x10011AF4 else if a = 0x80001808 then 0x01000000 else if a = 0x80001810 then 0xC001
       else if a AND 0xFFFFFF00 = 0x80001800 then 0 else 0xFFFFFFFF),
     cfg_store = (\<lambda>a old v. if a = 0x80001810 then (v AND 0xFFFFFF80) OR 1 else old)\<rparr>"

definition pci_example :: pci where
  "pci_example = \<lparr>found = replicate 32 \<lparr>vendor = 0, device = 0, d_bus = 0, d_dev = 0, d_fn = 0, dclass = 0, sub_class = 0,
     prog_if = 0, irq = 0, bars = replicate 6 0, bar_types = replicate 6 0\<rparr>, found_count = 0, pbus = pci_bus_example\<rparr>"

lemma pci_example_functions: "bus_functions pci_bus_example = [(3, 0)]"
  by code_simp

lemma pci_example_ok: "length (found pci_example) = 32" "bars_restore (pbus pci_example)"
  by (simp_all add: pci_example_def bars_restore_def bar_restores_def pci_bus_example_def)

theorem pci_scan_complete_witness:
  "\<exists>s' con'. pci_scan (pci_example, console_example) = (1, s', con') \<and> vendor (found s' ! 0) = 0x1AF4"
proof -
  obtain n s' con' where p: "pci_scan (pci_example, console_example) = (n, s', con')" by (metis prod_cases3)
  have "pbus pci_example = pci_bus_example" by (simp add: pci_example_def)
  note r = pci_scan_complete [OF pci_example_ok p, unfolded this pci_example_functions]
  have "cfg16 pci_bus_example 0 3 0 0 = 0x1AF4" by code_simp
  then obtain z where z: "n = 1" "take 1 (found s') = [z]" "vendor z = 0x1AF4"
    using r by (auto simp: pci_entry_def list_all2_Cons1)
  then have "vendor (found s' ! 0) = 0x1AF4" by (metis nth_Cons_0 nth_take zero_less_one)
  then show ?thesis using p z(1) by blast
qed

theorem pci_find_by_class_misses_witness:
  "pci_find_by_class 1 0 (fst (snd (pci_scan (pci_example, console_example)))) = None"
proof -
  obtain n s' con' where p: "pci_scan (pci_example, console_example) = (n, s', con')" by (metis prod_cases3)
  show ?thesis using pci_find_by_class_misses [OF pci_example_ok p, of 1 0] p by simp
qed

end
