(* ===== verification/Virtio.thy ===== *)
theory Virtio
  imports Pci Pmm Bytes
begin

text \<open>
  The legacy virtio block driver (\<^verbatim>\<open>drivers/virtio_blk.c\<close>): initialisation of the device and of the
  split queue, one request at a time with a polled completion, reading and writing sectors. The four
  pages of the queue are byte memory addressed by the offset from \<^verbatim>\<open>desc\<close>.
\<close>

section \<open>The device\<close>

text \<open>
  The device is not code of the kernel. Its registers answer \<open>vio_regs\<close>; once notified it takes
  \<open>latency i\<close> looks of the driver at the used index until request number \<open>i\<close> is done; and what it
  then does to its disk and to the memory of the queue is the parameter \<open>serve\<close> (given the physical
  address of the queue and its size).
\<close>

record vdev =
  vio_regs :: "u16 \<Rightarrow> u32"
  vio_log :: "(u16 \<times> u32) list"
  serve :: "u64 \<Rightarrow> u16 \<Rightarrow> (nat \<Rightarrow> u8) \<Rightarrow> bytes \<Rightarrow> (nat \<Rightarrow> u8) \<times> bytes"
  disk :: "nat \<Rightarrow> u8"
  latency :: "nat \<Rightarrow> nat"
  requests :: nat
  countdown :: "nat option"

record vblk =
  io_base :: u16
  capacity_sectors :: u64
  qsize :: u16
  avail_off :: u64
  used_off :: u64
  ring_pa :: paddr
  buf_pa :: paddr
  hdr_off :: u64
  st_off :: u64
  dma :: bytes
  vdev :: vdev

definition VIO_FEATURES :: u16 where "VIO_FEATURES = 0x00"
definition VIO_GUEST :: u16 where "VIO_GUEST = 0x04"
definition VIO_QADDR :: u16 where "VIO_QADDR = 0x08"
definition VIO_QNUM :: u16 where "VIO_QNUM = 0x0C"
definition VIO_QSEL :: u16 where "VIO_QSEL = 0x0E"
definition VIO_QNOTIFY :: u16 where "VIO_QNOTIFY = 0x10"
definition VIO_STATUS :: u16 where "VIO_STATUS = 0x12"
definition VIO_ISR :: u16 where "VIO_ISR = 0x13"

definition VIRTIO_ACK :: u8 where "VIRTIO_ACK = 0x01"
definition VIRTIO_DRIVER :: u8 where "VIRTIO_DRIVER = 0x02"
definition VIRTIO_DRIVER_OK :: u8 where "VIRTIO_DRIVER_OK = 0x04"
definition VIRTIO_FAILED :: u8 where "VIRTIO_FAILED = 0x80"

definition VRING_DESC_F_NEXT :: u16 where "VRING_DESC_F_NEXT = 1"
definition VRING_DESC_F_WRITE :: u16 where "VRING_DESC_F_WRITE = 2"

text \<open>A write to a register, of 1, 2 or 4 bytes; a write to the notify register starts a request.\<close>

definition vio_out :: "u16 \<Rightarrow> u32 \<Rightarrow> nat \<Rightarrow> vblk \<Rightarrow> vblk" where
  "vio_out off v width b =
     (let x = (if width = 4 then v else if width = 2 then ucast (ucast v :: u16) else ucast (ucast v :: u8)); d = vdev b in
      b\<lparr>vdev := d\<lparr>vio_log := (off, x) # vio_log d,
        countdown := (if off = VIO_QNOTIFY then Some (latency d (requests d)) else countdown d)\<rparr>\<rparr>)"

definition vio_in :: "u16 \<Rightarrow> nat \<Rightarrow> vblk \<Rightarrow> u32" where
  "vio_in off width b =
     (let v = vio_regs (vdev b) off in
      if width = 4 then v else if width = 2 then ucast (ucast v :: u16) else ucast (ucast v :: u8))"

definition set_status :: "u8 \<Rightarrow> vblk \<Rightarrow> vblk" where
  "set_status st b = vio_out VIO_STATUS (ucast st) 1 b"

text \<open>Between two looks of the driver the device goes on.\<close>

definition dev_tick :: "vblk \<Rightarrow> vblk" where
  "dev_tick b = (let d = vdev b in case countdown d of
     None \<Rightarrow> b
   | Some (Suc k) \<Rightarrow> b\<lparr>vdev := d\<lparr>countdown := Some k\<rparr>\<rparr>
   | Some 0 \<Rightarrow> (case serve d (ring_pa b) (qsize b) (disk d) (dma b) of (dk, m) \<Rightarrow>
       b\<lparr>dma := m, vdev := d\<lparr>disk := dk, requests := Suc (requests d), countdown := None\<rparr>\<rparr>))"

definition used_idx :: "vblk \<Rightarrow> u16 \<times> vblk" where
  "used_idx b = (let b = dev_tick b in (get16 (dma b) (used_off b + 2), b))"

section \<open>Initialisation\<close>

text \<open>The four zeroed pages of the queue and the places of its parts, for the queue size in \<open>b\<close>.\<close>

definition setup_ring :: "paddr \<Rightarrow> vblk \<Rightarrow> vblk" where
  "setup_ring pa b =
     (let av = 16 * ucast (qsize b) in
      b\<lparr>ring_pa := pa, buf_pa := pa + 3 * UIX_PAGE_SIZE, dma := memset 0 0 (4 * UIX_PAGE_SIZE) (dma b),
        avail_off := av, used_off := (av + 6 + 2 * ucast (qsize b) + 0xFFF) AND NOT 0xFFF,
        hdr_off := 3 * UIX_PAGE_SIZE + 0x400, st_off := 3 * UIX_PAGE_SIZE + 0x4FF\<rparr>)"

definition virtio_blk_init :: "pci \<times> vblk \<times> pmm \<times> console \<Rightarrow> int \<times> pci \<times> vblk \<times> pmm \<times> console" where
  "virtio_blk_init = (\<lambda>(pci, b, p, con).
     case pci_find_by_id 0x1AF4 0x1001 pci of
       None \<Rightarrow> (- 1, pci, b, p, kprintf (KLOG_WARN @ ''virtio-blk: device not found'' @ nl) [] con)
     | Some dev \<Rightarrow>
       (let b = b\<lparr>io_base := ucast (bars dev ! 0)\<rparr>;
            pci = pci_enable_bus_master dev pci;
            b = set_status 0 b; b = set_status VIRTIO_ACK b; b = set_status (VIRTIO_ACK OR VIRTIO_DRIVER) b;
            b = vio_out 0x04 0 4 b;
            b = vio_out VIO_QSEL 0 2 b;
            b = b\<lparr>qsize := ucast (vio_in VIO_QNUM 2 b)\<rparr> in
        if qsize b = 0 \<or> qsize b > 256
        then (- 1, pci, set_status VIRTIO_FAILED b, p,
              kprintf (KLOG_ERR @ ''virtio-blk: bad queue size %u'' @ nl) [KNum (ucast (qsize b))] con)
        else case pmm_alloc_pages 4 p of (pa, p) \<Rightarrow>
          if pa = 0 then (- 1, pci, b\<lparr>ring_pa := 0\<rparr>, p, con)
          else let b = setup_ring pa b;
                   b = vio_out VIO_QSEL 0 2 b;
                   b = vio_out VIO_QADDR (ucast (drop_bit 12 (ring_pa b))) 4 b;
                   b = set_status (VIRTIO_ACK OR VIRTIO_DRIVER OR VIRTIO_DRIVER_OK) b;
                   b = b\<lparr>capacity_sectors := ucast (vio_regs (vdev b) 0x14) OR push_bit 32 (ucast (vio_regs (vdev b) 0x18))\<rparr>
               in (0, pci, b, p,
                   kprintf (KLOG_INFO @ ''virtio-blk: io %x qsz %u, %u sectors (%u MiB)'' @ nl)
                     [KNum (ucast (io_base b)), KNum (ucast (qsize b)), KNum (ucast (ucast (capacity_sectors b) :: u32)),
                      KNum (ucast (ucast (capacity_sectors b div 2048) :: u32))] con)))"

section \<open>Requests\<close>

definition put_desc :: "u64 \<Rightarrow> u64 \<Rightarrow> u32 \<Rightarrow> u16 \<Rightarrow> u16 \<Rightarrow> bytes \<Rightarrow> bytes" where
  "put_desc i addr len flags nxt m =
     put16 (16 * i + 14) nxt (put16 (16 * i + 12) flags (put32 (16 * i + 8) len (put64 (16 * i) addr m)))"

text \<open>The bytes \<open>bs\<close> from offset \<open>a\<close> on.\<close>

fun put_bytes :: "u64 \<Rightarrow> u8 list \<Rightarrow> bytes \<Rightarrow> bytes" where
  "put_bytes a [] m = m"
| "put_bytes a (b # bs) m = put_bytes (a + 1) bs (m(a := b))"

definition get_bytes :: "nat \<Rightarrow> bytes \<Rightarrow> u64 \<Rightarrow> u8 list" where
  "get_bytes n m a = map (\<lambda>i. m (a + of_nat i)) [0..<n]"

definition buf_off :: "vblk \<Rightarrow> u64" where
  "buf_off b = buf_pa b - ring_pa b"

text \<open>\<^verbatim>\<open>do_request\<close> up to the notification.\<close>

definition prepare :: "u32 \<Rightarrow> u64 \<Rightarrow> u8 list \<Rightarrow> vblk \<Rightarrow> vblk" where
  "prepare type sector data b =
     (let m = dma b;
          m = put32 (hdr_off b) type m;
          m = put64 (hdr_off b + 8) sector m;
          m = m(st_off b := 0xFF);
          m = put_desc 0 (ring_pa b + hdr_off b) 16 VRING_DESC_F_NEXT 1 m;
          m = put_desc 1 (buf_pa b) 512 (VRING_DESC_F_NEXT OR (if type = 0 then VRING_DESC_F_WRITE else 0)) 2 m;
          m = put_desc 2 (ring_pa b + st_off b) 1 VRING_DESC_F_WRITE 0 m;
          m = (if type = 1 then put_bytes (buf_off b) data m else m);
          idx = get16 m (avail_off b + 2);
          m = put16 (avail_off b + 4 + 2 * ucast (idx mod qsize b)) 0 m;
          m = put16 (avail_off b + 2) (idx + 1) m
      in b\<lparr>dma := m\<rparr>)"

text \<open>The polling loop: \<open>n\<close> looks at the used index are left before it gives up.\<close>

fun poll_used :: "nat \<Rightarrow> u16 \<Rightarrow> vblk \<Rightarrow> bool \<times> vblk" where
  "poll_used 0 prev b = (False, b)"
| "poll_used (Suc n) prev b = (case used_idx b of (u, b) \<Rightarrow> if u = prev then poll_used n prev b else (True, b))"

definition SPINS :: nat where "SPINS = 200000000"

text \<open>The result code, the 512 bytes \<^verbatim>\<open>data\<close> points at afterwards, and the state.\<close>

definition do_request :: "u32 \<Rightarrow> u64 \<Rightarrow> u8 list \<Rightarrow> vblk \<times> console \<Rightarrow> int \<times> u8 list \<times> vblk \<times> console" where
  "do_request type sector data = (\<lambda>(b, con).
     let b = prepare type sector data b; b = vio_out VIO_QNOTIFY 0 2 b in
     case used_idx b of (prev, b) \<Rightarrow>
     case poll_used (Suc SPINS) prev b of (done, b) \<Rightarrow>
     if \<not> done
     then (- 5, data, b,
           kprintf (KLOG_ERR @ ''virtio-blk: request timeout (status=%p avail=%u used=%u)'' @ nl)
             [KNum (ucast (vio_in VIO_STATUS 1 b)), KNum (ucast (get16 (dma b) (avail_off b + 2))),
              KNum (ucast (get16 (dma b) (used_off b + 2)))] con)
     else let data = (if type = 0 then get_bytes 512 (dma b) (buf_off b) else data)
          in (if dma b (st_off b) = 0 then 0 else - 5, data, b, con))"

definition virtio_blk_read :: "u64 \<Rightarrow> u8 list \<Rightarrow> vblk \<times> console \<Rightarrow> int \<times> u8 list \<times> vblk \<times> console" where
  "virtio_blk_read sector buf s = do_request 0 sector buf s"

definition virtio_blk_write :: "u64 \<Rightarrow> u8 list \<Rightarrow> vblk \<times> console \<Rightarrow> int \<times> vblk \<times> console" where
  "virtio_blk_write sector buf s = (case do_request 1 sector buf s of (r, d, s) \<Rightarrow> (r, s))"

definition virtio_blk_sectors :: "vblk \<Rightarrow> u64" where
  "virtio_blk_sectors b = capacity_sectors b"

text \<open>The text a C string starts with, as \<^verbatim>\<open>kprintf\<close> prints it.\<close>

definition text_of :: "u8 list \<Rightarrow> string" where
  "text_of bs = map (\<lambda>b. char_of (unat b)) (takeWhile (\<lambda>b. b \<noteq> 0) bs)"

definition bytes_of :: "string \<Rightarrow> u8 list" where
  "bytes_of s = map (\<lambda>c. of_nat (of_char c)) s"

text \<open>\<open>scratch\<close> is what the uninitialised buffer of \<^verbatim>\<open>virtio_blk_selftest\<close> holds.\<close>

definition virtio_blk_selftest :: "u8 list \<Rightarrow> vblk \<times> console \<Rightarrow> int \<times> vblk \<times> console" where
  "virtio_blk_selftest scratch = (\<lambda>(b, con).
     if io_base b = 0 then (- 1, b, con)
     else let scratch = bytes_of ''UIXROOTFS!'' @ drop 10 scratch in
       case virtio_blk_write 0 scratch (b, con) of (r, b, con) \<Rightarrow>
       if r \<noteq> 0 then (- 1, b, kprintf (KLOG_ERR @ ''virtio-blk: selftest write failed'' @ nl) [] con)
       else case virtio_blk_read 0 (replicate 512 0) (b, con) of (r, scratch, b, con) \<Rightarrow>
         if r \<noteq> 0 then (- 1, b, kprintf (KLOG_ERR @ ''virtio-blk: selftest read failed'' @ nl) [] con)
         else (0, b, kprintf (KLOG_INFO @ ''virtio-blk: selftest OK ('' @ [CHR 0x27] @ ''%s'' @ [CHR 0x27] @ '' roundtrip)'' @ nl)
                      [KStr (Some (text_of scratch))] con))"

section \<open>Addresses inside the queue\<close>

lemma unat_diff_offsets:
  "x \<le> 2 ^ 32 \<Longrightarrow> y \<le> 2 ^ 32 \<Longrightarrow> unat (of_nat y - of_nat x :: u64) = (if x \<le> y then y - x else 2 ^ 64 - (x - y))"
  by (auto simp: unat_sub_if' unat_of_nat)

lemma apart_offsets:
  assumes "a + n \<le> b \<or> b + k \<le> a" "a + n \<le> 2 ^ 32" "b + k \<le> 2 ^ 32" "0 < n" "0 < k"
  shows "apart n (of_nat a) k (of_nat b)"
  unfolding apart_def using assms unat_diff_offsets [of a b] unat_diff_offsets [of b a] by auto

lemma of_nat_ne: "a \<noteq> b \<Longrightarrow> a < 2 ^ 64 \<Longrightarrow> b < 2 ^ 64 \<Longrightarrow> (of_nat a :: u64) \<noteq> of_nat b"
  by (simp add: word_unat_eq_iff unat_of_nat)

lemma put_bytes_apply:
  "length bs < 2 ^ 64 \<Longrightarrow> put_bytes a bs m x = (if unat (x - a) < length bs then bs ! unat (x - a) else m x)"
proof (induction bs arbitrary: a m)
  case (Cons b bs)
  show ?case
  proof (cases "x = a")
    case True
    have "unat (a - (a + 1)) = 2 ^ 64 - 1" by (rule unat_before)
    then show ?thesis using True Cons by simp
  next
    case False
    then have "unat (x - a) = Suc (unat (x - (a + 1)))" by (rule unat_dist_Suc)
    then show ?thesis using Cons False by simp
  qed
qed simp

lemma unat_round_down: "unat (x AND NOT (mask n) :: u64) = unat x div 2 ^ n * 2 ^ n"
proof -
  have "(x AND NOT (mask n)) + (x AND mask n) = (x AND NOT (mask n)) OR (x AND mask n)"
    by (rule disjunctive_add) (auto simp: bit_and_iff bit_not_iff)
  also have "\<dots> = x" by (auto simp: bit_eq_iff bit_or_iff bit_and_iff bit_not_iff)
  finally have "x AND NOT (mask n) = x - take_bit n x" by (simp add: take_bit_eq_mask algebra_simps)
  moreover have t: "unat (take_bit n x) = unat x mod 2 ^ n" by (subst unsigned_take_bit_eq) (rule take_bit_eq_mod)
  moreover have "take_bit n x \<le> x" using t by (simp only: word_le_nat_alt) simp
  ultimately have "unat (x AND NOT (mask n)) = unat x - unat x mod 2 ^ n" by (simp only: unat_sub)
  then show ?thesis by (simp add: minus_mod_eq_div_mult)
qed

text \<open>The queue as \<^verbatim>\<open>virtio_blk_init\<close> leaves it, for a queue size of at least 3.\<close>

definition vblk_ok :: "vblk \<Rightarrow> bool" where
  "vblk_ok b \<longleftrightarrow> 3 \<le> unat (qsize b) \<and> unat (qsize b) \<le> 256 \<and> avail_off b = 16 * ucast (qsize b) \<and>
     used_off b = (16 * ucast (qsize b) + 6 + 2 * ucast (qsize b) + 0xFFF) AND NOT 0xFFF \<and>
     hdr_off b = 0x3400 \<and> st_off b = 0x34FF \<and> buf_pa b = ring_pa b + 0x3000 \<and> countdown (vdev b) = None"

definition used_at :: "nat \<Rightarrow> nat" where
  "used_at q = (18 * q + 6 + 4095) div 4096 * 4096"

lemma used_at_bounds: "18 * q + 6 \<le> used_at q" "q \<le> 256 \<Longrightarrow> used_at q \<le> 8192"
  by (simp_all add: used_at_def)

lemma vblk_offsets:
  assumes "vblk_ok b"
  shows "avail_off b = of_nat (16 * unat (qsize b))" "used_off b = of_nat (used_at (unat (qsize b)))"
    "hdr_off b = of_nat 0x3400" "st_off b = of_nat 0x34FF" "buf_off b = of_nat 0x3000"
proof -
  let ?q = "unat (qsize b)"
  have q: "?q \<le> 256" using assms by (simp add: vblk_ok_def)
  show "avail_off b = of_nat (16 * ?q)" using assms by (simp add: vblk_ok_def)
  have e: "(16 * ucast (qsize b) + 6 + 2 * ucast (qsize b) + 0xFFF :: u64) = of_nat (18 * ?q + 6 + 4095)" by simp
  have m: "(0xFFF :: u64) = mask 12" by (simp add: mask_eq_exp_minus_1)
  have "unat (used_off b) = used_at ?q"
  proof -
    have "unat (of_nat (18 * ?q + 6 + 4095) :: u64) = 18 * ?q + 6 + 4095" unfolding unat_of_nat using q by simp
    moreover have "used_off b = of_nat (18 * ?q + 6 + 4095) AND NOT (mask 12)"
      using assms unfolding vblk_ok_def e [symmetric] m by simp
    ultimately show ?thesis unfolding used_at_def by (simp only: unat_round_down) simp
  qed
  then have "(of_nat (unat (used_off b)) :: u64) = of_nat (used_at ?q)" by simp
  then show "used_off b = of_nat (used_at ?q)" by simp
qed (use assms in \<open>simp_all add: vblk_ok_def buf_off_def\<close>)

section \<open>A request in the queue\<close>

text \<open>
  What the device finds: the newest entry of the available ring is descriptor 0, from which three
  descriptors lead to the header, the data buffer of 512 bytes and the status byte.
\<close>

definition queued :: "u64 \<Rightarrow> u16 \<Rightarrow> bytes \<Rightarrow> u32 \<Rightarrow> u64 \<Rightarrow> bool" where
  "queued pa q m type sector \<longleftrightarrow>
     (let av = 16 * ucast q; idx = get16 m (av + 2) in
      get16 m (av + 4 + 2 * ucast ((idx - 1) mod q)) = 0 \<and>
      get64 m 0 = pa + 0x3400 \<and> get32 m 8 = 16 \<and> get16 m 12 = 1 \<and> get16 m 14 = 1 \<and>
      get64 m 16 = pa + 0x3000 \<and> get32 m 24 = 512 \<and> get16 m 28 = (if type = 0 then 3 else 1) \<and> get16 m 30 = 2 \<and>
      get64 m 32 = pa + 0x34FF \<and> get32 m 40 = 1 \<and> get16 m 44 = 2 \<and>
      get32 m 0x3400 = type \<and> get64 m 0x3408 = sector)"

text \<open>Writes between the descriptors and the data page leave those alone, and the other way round.\<close>

lemma apart_mid:
  assumes "48 \<le> a" "a + n \<le> 0x3000" "unat x + k \<le> 48 \<or> 0x3000 \<le> unat x \<and> unat x + k \<le> 2 ^ 32" "0 < n" "0 < k"
  shows "apart n (of_nat a) k x" "apart k x n (of_nat a)"
proof -
  have "apart n (of_nat a) k (of_nat (unat x))" using assms by (intro apart_offsets) auto
  then show "apart n (of_nat a) k x" "apart k x n (of_nat a)" by (simp_all add: apart_def)
qed

lemma get_put_bytes_other:
  assumes "apart 512 a k x" "k \<le> 8" "length data = 512"
  shows "get_le k (put_bytes a data m) x = get_le k m x"
proof (rule get_le_cong [OF _ assms(2)])
  fix z assume z: "unat (z - x) < k"
  have "\<not> unat (z - a) < 512"
  proof
    assume "unat (z - a) < 512"
    then have "apart 1 (a + of_nat (unat (z - a))) 1 (x + of_nat (unat (z - x)))"
      using z by (intro apart_fields [OF assms(1)]) simp_all
    then show False by (simp add: apart_def)
  qed
  then show "put_bytes a data m z = m z" using put_bytes_apply [of data a m z] assms(3) by simp
qed

definition req_mem :: "u64 \<Rightarrow> u32 \<Rightarrow> u64 \<Rightarrow> u8 list \<Rightarrow> bytes \<Rightarrow> bytes" where
  "req_mem pa type sector data m =
     (if type = 1 then put_bytes 0x3000 data else id)
     (put_desc 2 (pa + 0x34FF) 1 2 0 (put_desc 1 (pa + 0x3000) 512 (if type = 0 then 3 else 1) 2 (put_desc 0 (pa + 0x3400) 16 1 1
       ((put64 0x3408 sector (put32 0x3400 type m))(0x34FF := 0xFF)))))"

lemma get_upd_byte: "1 \<le> unat (z - x) \<Longrightarrow> k \<le> unat (x - z) \<Longrightarrow> k \<le> 8 \<Longrightarrow> get_le k (m(x := v)) z = get_le k m z"
  by (rule get_le_cong) auto

lemma get_over_bytes:
  "length data = 512 \<Longrightarrow> apart 512 a 2 x \<Longrightarrow> get16 (put_bytes a data m) x = get16 m x"
  "length data = 512 \<Longrightarrow> apart 512 a 4 x \<Longrightarrow> get32 (put_bytes a data m) x = get32 m x"
  "length data = 512 \<Longrightarrow> apart 512 a 8 x \<Longrightarrow> get64 (put_bytes a data m) x = get64 m x"
  "1 \<le> unat (x - a) \<Longrightarrow> 2 \<le> unat (a - x) \<Longrightarrow> get16 (m(a := v)) x = get16 m x"
  "1 \<le> unat (x - a) \<Longrightarrow> 4 \<le> unat (a - x) \<Longrightarrow> get32 (m(a := v)) x = get32 m x"
  "1 \<le> unat (x - a) \<Longrightarrow> 8 \<le> unat (a - x) \<Longrightarrow> get64 (m(a := v)) x = get64 m x"
  by (simp_all add: get_defs get_put_bytes_other get_upd_byte)

lemma req_mem_fields:
  assumes "length data = 512"
  shows "get64 (req_mem pa type sector data m) 0 = pa + 0x3400"
    "get32 (req_mem pa type sector data m) 8 = 16" "get16 (req_mem pa type sector data m) 12 = 1"
    "get16 (req_mem pa type sector data m) 14 = 1"
    "get64 (req_mem pa type sector data m) 16 = pa + 0x3000" "get32 (req_mem pa type sector data m) 24 = 512"
    "get16 (req_mem pa type sector data m) 28 = (if type = 0 then 3 else 1)" "get16 (req_mem pa type sector data m) 30 = 2"
    "get64 (req_mem pa type sector data m) 32 = pa + 0x34FF" "get32 (req_mem pa type sector data m) 40 = 1"
    "get16 (req_mem pa type sector data m) 44 = 2"
    "get32 (req_mem pa type sector data m) 0x3400 = type" "get64 (req_mem pa type sector data m) 0x3408 = sector"
  by (simp_all add: req_mem_def put_desc_def get_put_other apart_def get_over_bytes assms)

lemma prepare_eq:
  assumes "vblk_ok b"
  shows "prepare type sector data b = b\<lparr>dma := (let m = req_mem (ring_pa b) type sector data (dma b); idx = get16 m (avail_off b + 2)
    in put16 (avail_off b + 2) (idx + 1) (put16 (avail_off b + 4 + 2 * ucast (idx mod qsize b)) 0 m))\<rparr>"
  using assms unfolding vblk_ok_def
  by (simp add: prepare_def req_mem_def Let_def buf_off_def VRING_DESC_F_NEXT_def VRING_DESC_F_WRITE_def)

lemma avail_slots:
  assumes "vblk_ok b"
  shows "avail_off b + 2 = of_nat (16 * unat (qsize b) + 2)"
    "avail_off b + 4 + 2 * ucast (i mod qsize b) = of_nat (16 * unat (qsize b) + 4 + 2 * (unat i mod unat (qsize b)))"
    "unat i mod unat (qsize b) < unat (qsize b)" "used_off b + 2 = of_nat (used_at (unat (qsize b)) + 2)"
proof -
  have q: "0 < unat (qsize b)" using assms by (simp add: vblk_ok_def)
  show "avail_off b + 2 = of_nat (16 * unat (qsize b) + 2)" "used_off b + 2 = of_nat (used_at (unat (qsize b)) + 2)"
    using vblk_offsets [OF assms] by simp_all
  have "(ucast (i mod qsize b) :: u64) = of_nat (unat (i mod qsize b))" by simp
  then have "(ucast (i mod qsize b) :: u64) = of_nat (unat i mod unat (qsize b))" by (simp only: unat_mod_distrib)
  then show "avail_off b + 4 + 2 * ucast (i mod qsize b) = of_nat (16 * unat (qsize b) + 4 + 2 * (unat i mod unat (qsize b)))"
    using vblk_offsets(1) [OF assms] by (simp only: of_nat_add of_nat_mult) simp
  show "unat i mod unat (qsize b) < unat (qsize b)" using q by simp
qed

lemma prepare_queued:
  assumes ok: "vblk_ok b" and len: "length data = 512" and m_def: "m = dma (prepare type sector data b)"
  shows "queued (ring_pa b) (qsize b) m type sector" "get16 m (used_off b + 2) = get16 (dma b) (used_off b + 2)"
    "type = 1 \<Longrightarrow> get_bytes 512 m 0x3000 = data"
proof -
  let ?q = "unat (qsize b)"
  let ?r = "req_mem (ring_pa b) type sector data (dma b)"
  define idx where "idx = get16 ?r (avail_off b + 2)"
  define A where "A = 16 * ?q + 2"
  define B where "B = 16 * ?q + 4 + 2 * (unat idx mod ?q)"
  have q: "3 \<le> ?q" "?q \<le> 256" using ok by (simp_all add: vblk_ok_def)
  note sl = avail_slots(1) [OF ok] avail_slots(2,3) [OF ok, of idx] avail_slots(4) [OF ok]
  have m: "m = put16 (of_nat A) (idx + 1) (put16 (of_nat B) 0 ?r)"
    unfolding m_def prepare_eq [OF ok] Let_def idx_def [symmetric] A_def B_def sl(1)[symmetric] sl(2) [symmetric] by simp
  have ab: "48 \<le> A" "A + 2 \<le> 0x3000" "48 \<le> B" "B + 2 \<le> 0x3000" "A + 2 \<le> B" "B + 2 \<le> 18 * ?q + 6" "A + 2 \<le> 18 * ?q + 6"
    unfolding A_def B_def using q sl(3) by linarith+
  have ap: "apart 2 (of_nat A) k x \<and> apart 2 (of_nat B) k x" if "unat x + k \<le> 48 \<or> 0x3000 \<le> unat x \<and> unat x + k \<le> 2 ^ 32" "0 < k" for k x
    using apart_mid(1) [of A 2 x k] apart_mid(1) [of B 2 x k] ab that by simp
  have keep: "get64 m x = get64 ?r x" if "unat x + 8 \<le> 48 \<or> 0x3000 \<le> unat x \<and> unat x + 8 \<le> 2 ^ 32" for x
    using ap [OF that] by (simp add: m get_put_other)
  have keep32: "get32 m x = get32 ?r x" if "unat x + 4 \<le> 48 \<or> 0x3000 \<le> unat x \<and> unat x + 4 \<le> 2 ^ 32" for x
    using ap [OF that] by (simp add: m get_put_other)
  have keep16: "get16 m x = get16 ?r x" if "unat x + 2 \<le> 48 \<or> 0x3000 \<le> unat x \<and> unat x + 2 \<le> 2 ^ 32" for x
    using ap [OF that] by (simp add: m get_put_other)
  have AB: "apart 2 (of_nat A) 2 (of_nat B)" using ab by (intro apart_offsets) simp_all
  have ix: "get16 m (16 * ucast (qsize b) + 2) = idx + 1" "get16 m (16 * ucast (qsize b) + 4 + 2 * ucast (idx mod qsize b)) = 0"
  proof -
    have av: "16 * ucast (qsize b) = avail_off b" using ok by (simp add: vblk_ok_def)
    show "get16 m (16 * ucast (qsize b) + 2) = idx + 1" unfolding av sl(1) A_def [symmetric] m by simp
    show "get16 m (16 * ucast (qsize b) + 4 + 2 * ucast (idx mod qsize b)) = 0"
      unfolding av sl(2) B_def [symmetric] m using AB by (simp add: get_put_other)
  qed
  show "queued (ring_pa b) (qsize b) m type sector"
    unfolding queued_def Let_def using ix by (simp add: keep keep32 keep16 req_mem_fields [OF len])
  show "get16 m (used_off b + 2) = get16 (dma b) (used_off b + 2)"
  proof -
    let ?u = "used_at ?q + 2"
    have u: "B + 2 \<le> ?u" "A + 2 \<le> ?u" "48 \<le> ?u" "?u + 2 \<le> 0x3000"
      using ab q used_at_bounds [of ?q] by linarith+
    define w :: u64 where "w = of_nat ?u"
    have A: "apart 2 (of_nat A) 2 w" "apart 2 (of_nat B) 2 w" unfolding w_def by (rule apart_offsets; use ab u in simp)+
    have o: "apart n x 2 w" if "unat x + n \<le> 48 \<or> 0x3000 \<le> unat x \<and> unat x + n \<le> 2 ^ 32" "0 < n" for n x
      unfolding w_def using apart_mid(2) [of ?u 2 x n] u that by simp
    have "1 \<le> unat (w - 0x34FF)" "2 \<le> unat (0x34FF - w)" using o [of "0x34FF" 1] by (simp_all add: apart_def)
    then have "get16 ?r w = get16 (dma b) w"
      by (simp add: req_mem_def put_desc_def get_put_other get_over_bytes o len)
    then show ?thesis unfolding sl(4) w_def [symmetric] m using A by (simp add: get_put_other)
  qed
  show "get_bytes 512 m 0x3000 = data" if t: "type = 1"
  proof (rule nth_equalityI)
    fix i assume "i < length (get_bytes 512 m 0x3000)"
    then have i: "i < 512" by (simp add: get_bytes_def)
    let ?x = "0x3000 + of_nat i :: u64"
    have x: "unat ?x = 0x3000 + i" using i by (simp add: unat_word_ariths unat_of_nat)
    have "apart 2 (of_nat A) 1 ?x" "apart 2 (of_nat B) 1 ?x" using ap [of ?x 1] x i by simp_all
    then have "m ?x = ?r ?x" by (simp add: m put_byte_other apart_def)
    also have "\<dots> = data ! i"
      using t i len by (simp add: req_mem_def put_bytes_apply unat_of_nat)
    finally show "get_bytes 512 m 0x3000 ! i = data ! i" using i by (simp add: get_bytes_def)
  qed (simp add: get_bytes_def len)
qed

section \<open>Serving requests\<close>

definition sector_bytes :: "(nat \<Rightarrow> u8) \<Rightarrow> u64 \<Rightarrow> u8 list" where
  "sector_bytes dk sec = map (\<lambda>i. dk (512 * unat sec + i)) [0..<512]"

definition set_sector :: "u64 \<Rightarrow> u8 list \<Rightarrow> (nat \<Rightarrow> u8) \<Rightarrow> nat \<Rightarrow> u8" where
  "set_sector sec data dk i =
     (if 512 * unat sec \<le> i \<and> i < 512 * unat sec + 512 then data ! (i - 512 * unat sec) else dk i)"

text \<open>
  What the specification of the device promises for a queued request on one of its \<open>cap\<close> sectors:
  the sector is read or written, the status becomes 0 and the used index goes up by one.
\<close>

definition blk_device :: "nat \<Rightarrow> vdev \<Rightarrow> bool" where
  "blk_device cap d \<longleftrightarrow> (\<forall>pa q dk m type sec.
     3 \<le> unat q \<and> unat q \<le> 256 \<and> queued pa q m type sec \<and> (type = 0 \<or> type = 1) \<and> unat sec < cap \<longrightarrow>
     (case serve d pa q dk m of (dk', m') \<Rightarrow>
       let u = ((16 * ucast q + 6 + 2 * ucast q + 0xFFF) AND NOT 0xFFF) + 2 in
       m' 0x34FF = 0 \<and> get16 m' u = get16 m u + 1 \<and>
       dk' = (if type = 1 then set_sector sec (get_bytes 512 m 0x3000) dk else dk) \<and>
       (type = 0 \<longrightarrow> get_bytes 512 m' 0x3000 = sector_bytes dk sec)))"

lemma used_idx_waiting: "countdown (vdev b) = Some (Suc k) \<Longrightarrow>
  used_idx b = (get16 (dma b) (used_off b + 2), b\<lparr>vdev := (vdev b)\<lparr>countdown := Some k\<rparr>\<rparr>)"
  by (simp add: used_idx_def dev_tick_def Let_def)

lemma used_idx_idle: "countdown (vdev b) = None \<Longrightarrow> used_idx b = (get16 (dma b) (used_off b + 2), b)"
  by (simp add: used_idx_def dev_tick_def Let_def)

lemma poll_timeout: "countdown (vdev b) = None \<Longrightarrow> get16 (dma b) (used_off b + 2) = prev \<Longrightarrow> poll_used n prev b = (False, b)"
  by (induction n) (simp_all add: used_idx_idle)

definition served :: "vblk \<Rightarrow> vblk" where
  "served b = (case serve (vdev b) (ring_pa b) (qsize b) (disk (vdev b)) (dma b) of (dk, m) \<Rightarrow>
     b\<lparr>dma := m, vdev := (vdev b)\<lparr>disk := dk, requests := Suc (requests (vdev b)), countdown := None\<rparr>\<rparr>)"

lemma used_idx_served: "countdown (vdev b) = Some 0 \<Longrightarrow> used_idx b = (get16 (dma (served b)) (used_off (served b) + 2), served b)"
  by (simp add: used_idx_def dev_tick_def served_def Let_def)

lemma served_countdown: "served (b\<lparr>vdev := (vdev b)\<lparr>countdown := x\<rparr>\<rparr>) = served b"
  by (simp add: served_def split: prod.splits)

lemma poll_served:
  assumes "countdown (vdev b) = Some k" "k < n" "get16 (dma b) (used_off b + 2) = prev"
    "get16 (dma (served b)) (used_off (served b) + 2) \<noteq> prev"
  shows "poll_used n prev b = (True, served b)"
  using assms
proof (induction k arbitrary: n b)
  case 0
  then show ?case by (cases n) (simp_all add: used_idx_served)
next
  case (Suc k)
  then obtain n' where n: "n = Suc n'" by (cases n) auto
  let ?b = "b\<lparr>vdev := (vdev b)\<lparr>countdown := Some k\<rparr>\<rparr>"
  have "poll_used n' prev ?b = (True, served ?b)"
    by (rule Suc.IH) (use Suc.prems n served_countdown [of _ b] in auto)
  then show ?case using Suc.prems n by (simp add: used_idx_waiting served_countdown)
qed

lemma served_vblk_ok: "vblk_ok (b\<lparr>vdev := (vdev b)\<lparr>countdown := None\<rparr>\<rparr>) \<Longrightarrow> vblk_ok (served b)"
  by (simp add: vblk_ok_def served_def split: prod.splits)

text \<open>The state after the notification.\<close>

definition notified :: "u32 \<Rightarrow> u64 \<Rightarrow> u8 list \<Rightarrow> vblk \<Rightarrow> vblk" where
  "notified type sec data b = vio_out VIO_QNOTIFY 0 2 (prepare type sec data b)"

lemma notified_fields:
  "countdown (vdev (notified type sec data b)) = Some (latency (vdev b) (requests (vdev b)))"
  "dma (notified type sec data b) = dma (prepare type sec data b)" "used_off (notified type sec data b) = used_off b"
  "ring_pa (notified type sec data b) = ring_pa b" "qsize (notified type sec data b) = qsize b"
  "buf_pa (notified type sec data b) = buf_pa b" "st_off (notified type sec data b) = st_off b"
  "serve (vdev (notified type sec data b)) = serve (vdev b)" "disk (vdev (notified type sec data b)) = disk (vdev b)"
  "latency (vdev (notified type sec data b)) = latency (vdev b)" "requests (vdev (notified type sec data b)) = requests (vdev b)"
  by (simp_all add: notified_def vio_out_def prepare_def Let_def)

lemma notified_ok: "vblk_ok b \<Longrightarrow> vblk_ok ((notified type sec data b)\<lparr>vdev := (vdev (notified type sec data b))\<lparr>countdown := None\<rparr>\<rparr>)"
  by (simp add: vblk_ok_def notified_def vio_out_def prepare_def Let_def)

lemma request_served:
  assumes ok: "vblk_ok b" and dev: "blk_device cap (vdev b)" and t: "type = 0 \<or> type = 1" and sec: "unat sec < cap" and len: "length data = 512"
  defines "b' \<equiv> served (notified type sec data b)"
  shows "vblk_ok b'" "dma b' (st_off b') = 0" "get16 (dma b') (used_off b' + 2) = get16 (dma b) (used_off b + 2) + 1"
    "disk (vdev b') = (if type = 1 then set_sector sec data (disk (vdev b)) else disk (vdev b))"
    "type = 0 \<Longrightarrow> get_bytes 512 (dma b') (buf_off b') = sector_bytes (disk (vdev b)) sec"
    "serve (vdev b') = serve (vdev b)" "latency (vdev b') = latency (vdev b)" "requests (vdev b') = Suc (requests (vdev b))"
proof -
  let ?m = "dma (prepare type sec data b)"
  obtain dk m' where sv: "serve (vdev b) (ring_pa b) (qsize b) (disk (vdev b)) ?m = (dk, m')" by fastforce
  have q: "3 \<le> unat (qsize b)" "unat (qsize b) \<le> 256" and u: "used_off b = (16 * ucast (qsize b) + 6 + 2 * ucast (qsize b) + 0xFFF) AND NOT 0xFFF"
    and o: "st_off b = 0x34FF" "buf_pa b = ring_pa b + 0x3000" using ok by (simp_all add: vblk_ok_def)
  have law: "m' 0x34FF = 0" "get16 m' (used_off b + 2) = get16 ?m (used_off b + 2) + 1"
    "dk = (if type = 1 then set_sector sec (get_bytes 512 ?m 0x3000) (disk (vdev b)) else disk (vdev b))"
    "type = 0 \<longrightarrow> get_bytes 512 m' 0x3000 = sector_bytes (disk (vdev b)) sec"
    using dev [unfolded blk_device_def, rule_format, of "qsize b" "ring_pa b" ?m type sec "disk (vdev b)"]
      q prepare_queued(1) [OF ok len refl] t sec sv u by (simp_all add: Let_def)
  show "vblk_ok b'" unfolding b'_def by (rule served_vblk_ok [OF notified_ok [OF ok]])
  have f: "dma b' = m'" "st_off b' = st_off b" "used_off b' = used_off b" "disk (vdev b') = dk" "buf_off b' = 0x3000"
    "serve (vdev b') = serve (vdev b)" "latency (vdev b') = latency (vdev b)" "requests (vdev b') = Suc (requests (vdev b))"
    using sv o(2) by (simp_all add: b'_def served_def notified_fields buf_off_def)
  then show "dma b' (st_off b') = 0" "get16 (dma b') (used_off b' + 2) = get16 (dma b) (used_off b + 2) + 1"
    "disk (vdev b') = (if type = 1 then set_sector sec data (disk (vdev b)) else disk (vdev b))"
    "type = 0 \<Longrightarrow> get_bytes 512 (dma b') (buf_off b') = sector_bytes (disk (vdev b)) sec"
    "serve (vdev b') = serve (vdev b)" "latency (vdev b') = latency (vdev b)" "requests (vdev b') = Suc (requests (vdev b))"
    using law o prepare_queued(2,3) [OF ok len refl, of type sec] by auto
qed

lemma do_request_notified:
  "do_request type sec data (b, con) =
     (case used_idx (notified type sec data b) of (prev, b) \<Rightarrow>
      case poll_used (Suc SPINS) prev b of (done, b) \<Rightarrow>
      if \<not> done
      then (- 5, data, b,
           kprintf (KLOG_ERR @ ''virtio-blk: request timeout (status=%p avail=%u used=%u)'' @ nl)
             [KNum (ucast (vio_in VIO_STATUS 1 b)), KNum (ucast (get16 (dma b) (avail_off b + 2))),
              KNum (ucast (get16 (dma b) (used_off b + 2)))] con)
      else (if dma b (st_off b) = 0 then 0 else - 5, if type = 0 then get_bytes 512 (dma b) (buf_off b) else data, b, con))"
  by (simp only: do_request_def notified_def Let_def case_prod_conv)

text \<open>A device that answers, but not before the driver has looked at the used index, serves the request.\<close>

lemma do_request_ok:
  assumes ok: "vblk_ok b" and dev: "blk_device cap (vdev b)" and t: "type = 0 \<or> type = 1" and sec: "unat sec < cap" and len: "length data = 512"
    and lat: "0 < latency (vdev b) (requests (vdev b))" "latency (vdev b) (requests (vdev b)) \<le> Suc SPINS"
  shows "do_request type sec data (b, con) = (0, if type = 0 then sector_bytes (disk (vdev b)) sec else data,
    served (notified type sec data b), con)"
proof -
  let ?n = "notified type sec data b"
  note r = request_served [OF assms(1-5)]
  obtain k where k: "latency (vdev b) (requests (vdev b)) = Suc k" using lat(1) by (cases "latency (vdev b) (requests (vdev b))") auto
  let ?w = "?n\<lparr>vdev := (vdev ?n)\<lparr>countdown := Some k\<rparr>\<rparr>"
  have u: "used_idx ?n = (get16 (dma ?n) (used_off ?n + 2), ?w)"
    by (rule used_idx_waiting) (simp add: notified_fields k)
  have p: "get16 (dma ?n) (used_off ?n + 2) = get16 (dma b) (used_off b + 2)"
    using prepare_queued(2) [OF ok len refl] by (simp add: notified_fields)
  have "get16 (dma (served ?w)) (used_off (served ?w) + 2) \<noteq> get16 (dma ?w) (used_off ?w + 2)"
    unfolding served_countdown r(3) using p by simp
  then have "poll_used (Suc SPINS) (get16 (dma ?w) (used_off ?w + 2)) ?w = (True, served ?w)"
    using lat k by (intro poll_served [where k = k]) simp_all
  then show ?thesis unfolding do_request_notified u served_countdown using r(2,5) by simp
qed

text \<open>
  Claim C11. What is written is read back: with a device that keeps its promise and takes a moment,
  writing 512 bytes to a sector succeeds, reading the sector afterwards gives these bytes, and every
  other sector is as before. The queue is fit for the next request each time.
\<close>

theorem virtio_write_read:
  assumes ok: "vblk_ok b" and dev: "blk_device cap (vdev b)" and lat: "\<And>i. 0 < latency (vdev b) i \<and> latency (vdev b) i \<le> Suc SPINS"
    and sec: "unat sec < cap" and len: "length data = 512" and buf: "length buf = 512"
  shows "\<exists>b1 b2. virtio_blk_write sec data (b, con) = (0, b1, con) \<and> virtio_blk_read sec buf (b1, con) = (0, data, b2, con) \<and>
    vblk_ok b2 \<and> blk_device cap (vdev b2) \<and>
    (\<forall>s. s \<noteq> sec \<longrightarrow> sector_bytes (disk (vdev b2)) s = sector_bytes (disk (vdev b)) s)"
proof -
  let ?b1 = "served (notified 1 sec data b)"
  let ?b2 = "served (notified 0 sec buf ?b1)"
  have r1: "vblk_ok ?b1" "disk (vdev ?b1) = set_sector sec data (disk (vdev b))" "serve (vdev ?b1) = serve (vdev b)" "latency (vdev ?b1) = latency (vdev b)"
    using request_served [OF ok dev _ sec len, of 1] by simp_all
  then have d1: "blk_device cap (vdev ?b1)" using dev by (simp add: blk_device_def)
  have r2: "vblk_ok ?b2" "disk (vdev ?b2) = disk (vdev ?b1)" "serve (vdev ?b2) = serve (vdev ?b1)"
    using request_served [OF r1(1) d1 _ sec buf, of 0] by simp_all
  then have d2: "blk_device cap (vdev ?b2)" using d1 by (simp add: blk_device_def)
  have "sector_bytes (set_sector sec data dk) sec = data" for dk
    using len by (intro nth_equalityI) (simp_all add: sector_bytes_def set_sector_def)
  moreover have "sector_bytes (set_sector sec data dk) s = sector_bytes dk s" if "s \<noteq> sec" for dk s
  proof -
    have "unat s \<noteq> unat sec" using that by (simp add: word_unat_eq_iff)
    then have "\<not> (512 * unat sec \<le> 512 * unat s + i \<and> 512 * unat s + i < 512 * unat sec + 512)" if "i < 512" for i using that by linarith
    then show ?thesis by (auto simp: sector_bytes_def set_sector_def)
  qed
  ultimately show ?thesis
    using do_request_ok [OF ok dev _ sec len, of 1 con] do_request_ok [OF r1(1) d1 _ sec buf, of 0 con] lat r1 r2 d2
    by (simp add: virtio_blk_write_def virtio_blk_read_def)
qed

text \<open>
  Claim C35. \<^verbatim>\<open>do_request\<close> looks at the used index for the first time after it has notified the
  device. A device that is done by then is never noticed: the request is served, the status byte is 0,
  and yet the driver spins 200000001 times and reports a timeout.
\<close>

theorem virtio_fast_device_times_out:
  assumes ok: "vblk_ok b" and dev: "blk_device cap (vdev b)" and t: "type = 0 \<or> type = 1" and sec: "unat sec < cap"
    and len: "length data = 512" and fast: "latency (vdev b) (requests (vdev b)) = 0"
  shows "\<exists>b' con'. do_request type sec data (b, con) = (- 5, data, b', con') \<and> dma b' (st_off b') = 0 \<and>
    disk (vdev b') = (if type = 1 then set_sector sec data (disk (vdev b)) else disk (vdev b))"
proof -
  let ?b = "served (notified type sec data b)"
  have u: "used_idx (notified type sec data b) = (get16 (dma ?b) (used_off ?b + 2), ?b)"
    by (rule used_idx_served) (simp add: notified_fields fast)
  have "countdown (vdev ?b) = None" by (simp add: served_def split: prod.splits)
  then have "poll_used (Suc SPINS) (get16 (dma ?b) (used_off ?b + 2)) ?b = (False, ?b)" by (rule poll_timeout) simp
  then show ?thesis unfolding do_request_notified u using request_served(2,4) [OF assms(1-5)] by simp
qed

section \<open>Example\<close>

definition ex_serve :: "u64 \<Rightarrow> u16 \<Rightarrow> (nat \<Rightarrow> u8) \<Rightarrow> bytes \<Rightarrow> (nat \<Rightarrow> u8) \<times> bytes" where
  "ex_serve pa q dk m =
     (let h = get64 m 0 - pa; type = get32 m h; sec = get64 m (h + 8); d = get64 m 16 - pa; st = get64 m 32 - pa;
          u = ((16 * ucast q + 6 + 2 * ucast q + 0xFFF) AND NOT 0xFFF) + 2
      in (if type = 1 then set_sector sec (get_bytes 512 m d) dk else dk,
          put16 u (get16 m u + 1) ((if type = 0 then put_bytes d (sector_bytes dk sec) m else m)(st := 0))))"

definition vdev_example :: "nat \<Rightarrow> vdev" where
  "vdev_example lat = \<lparr>vio_regs = \<lambda>_. 0, vio_log = [], serve = ex_serve, disk = \<lambda>_. 0, latency = \<lambda>_. lat, requests = 0, countdown = None\<rparr>"

definition vblk_example :: "nat \<Rightarrow> vblk" where
  "vblk_example lat = \<lparr>io_base = 0xC000, capacity_sectors = 16384, qsize = 256, avail_off = 4096, used_off = 8192, ring_pa = 0x10000,
     buf_pa = 0x13000, hdr_off = 0x3400, st_off = 0x34FF, dma = \<lambda>_. 0, vdev = vdev_example lat\<rparr>"

lemma vblk_example_ok: "vblk_ok (vblk_example lat)"
  by (simp add: vblk_ok_def vblk_example_def vdev_example_def)

lemma sector_bytes_length [simp]: "length (sector_bytes dk sec) = 512"
  by (simp add: sector_bytes_def)

lemma blk_device_example: "blk_device cap (vdev_example lat)"
  unfolding blk_device_def
proof (intro allI impI)
  fix pa :: u64 and q :: u16 and dk :: "nat \<Rightarrow> u8" and m :: bytes and type :: u32 and sec :: u64
  assume a: "3 \<le> unat q \<and> unat q \<le> 256 \<and> queued pa q m type sec \<and> (type = 0 \<or> type = 1) \<and> unat sec < cap"
  define u :: u64 where "u = ((16 * ucast q + 6 + 2 * ucast q + 0xFFF) AND NOT 0xFFF) + 2"
  have f: "get64 m 0 - pa = 0x3400" "get32 m 0x3400 = type" "get64 m 0x3408 = sec" "get64 m 16 - pa = 0x3000" "get64 m 32 - pa = 0x34FF"
    using a by (auto simp: queued_def Let_def)
  then have f3: "get64 m (0x3400 + 8) = sec" by simp
  have "vblk_ok ((vblk_example lat)\<lparr>qsize := q, avail_off := 16 * ucast q, used_off := u - 2\<rparr>)"
    using a by (simp add: vblk_ok_def vblk_example_def vdev_example_def u_def)
  from vblk_offsets(2) [OF this] have u: "u = of_nat (used_at (unat q) + 2)" by (simp add: algebra_simps)
  have "48 \<le> used_at (unat q) + 2" "used_at (unat q) + 2 + 2 \<le> 0x3000" using a used_at_bounds [of "unat q"] by linarith+
  from apart_mid(1) [OF this(1,2)] have ap: "apart 2 u k x" if "0x3000 \<le> unat x \<and> unat x + k \<le> 2 ^ 32" "0 < k" for k x
    unfolding u using that by simp
  let ?m = "(if type = 0 then put_bytes 0x3000 (sector_bytes dk sec) m else m)(0x34FF := 0)"
  have "apart 2 u 1 0x34FF" by (rule ap) simp_all
  then have "put16 u v ?m 0x34FF = 0" for v by (simp add: put_byte_other apart_def)
  moreover have "get_bytes 512 (put16 u v ?m) 0x3000 = sector_bytes dk sec" if t: "type = 0" for v
  proof (rule nth_equalityI)
    fix i assume "i < length (get_bytes 512 (put16 u v ?m) 0x3000)"
    then have i: "i < 512" by (simp add: get_bytes_def)
    let ?x = "0x3000 + of_nat i :: u64"
    have x: "unat ?x = 0x3000 + i" using i by (simp add: unat_word_ariths unat_of_nat)
    have "apart 2 u 1 ?x" using x i by (intro ap) simp_all
    moreover have "?x \<noteq> 0x34FF" using x i by auto
    ultimately have "put16 u v ?m ?x = sector_bytes dk sec ! i"
      using t i by (simp add: put_byte_other apart_def put_bytes_apply unat_of_nat)
    then show "get_bytes 512 (put16 u v ?m) 0x3000 ! i = sector_bytes dk sec ! i" using i by (simp add: get_bytes_def)
  qed (simp add: get_bytes_def)
  moreover have sv: "serve (vdev_example lat) pa q dk m =
      (if type = 1 then set_sector sec (get_bytes 512 m 0x3000) dk else dk, put16 u (get16 m u + 1) ?m)"
    by (simp only: vdev_example_def vdev.simps ex_serve_def Let_def f f3 u_def [symmetric])
  ultimately show "case serve (vdev_example lat) pa q dk m of (dk', m') \<Rightarrow>
      let u = ((16 * ucast q + 6 + 2 * ucast q + 0xFFF) AND NOT 0xFFF) + 2 in
       m' 0x34FF = 0 \<and> get16 m' u = get16 m u + 1 \<and>
       dk' = (if type = 1 then set_sector sec (get_bytes 512 m 0x3000) dk else dk) \<and>
       (type = 0 \<longrightarrow> get_bytes 512 m' 0x3000 = sector_bytes dk sec)"
    unfolding sv Let_def u_def [symmetric] by simp
qed

theorem virtio_write_read_witness:
  "\<exists>b1 b2. virtio_blk_write 9 (replicate 512 7) (vblk_example 3, console_example) = (0, b1, console_example) \<and>
    virtio_blk_read 9 (replicate 512 0) (b1, console_example) = (0, replicate 512 7, b2, console_example)"
proof -
  have l: "0 < latency (vdev (vblk_example 3)) i \<and> latency (vdev (vblk_example 3)) i \<le> Suc SPINS" for i
    by (simp add: vblk_example_def vdev_example_def SPINS_def)
  have "blk_device 16384 (vdev (vblk_example 3))" using blk_device_example by (simp add: vblk_example_def)
  from virtio_write_read [OF vblk_example_ok this l, of 9 "replicate 512 7" "replicate 512 0" console_example]
  show ?thesis by auto
qed

theorem virtio_fast_device_times_out_witness:
  "\<exists>b' con'. do_request 1 9 (replicate 512 7) (vblk_example 0, console_example) = (- 5, replicate 512 7, b', con') \<and>
    disk (vdev b') 4608 = 7"
proof -
  have "blk_device 16384 (vdev (vblk_example 0))" using blk_device_example by (simp add: vblk_example_def)
  from virtio_fast_device_times_out [OF vblk_example_ok this, of 1 9 "replicate 512 7" console_example]
  show ?thesis by (auto simp: vblk_example_def vdev_example_def set_sector_def)
qed

end
