(* ===== verification/Uixfs.thy ===== *)
theory Uixfs
  imports Virtio
begin

text \<open>
  The read-only file system (\<^verbatim>\<open>personality/fs/uixfs.c\<close>) over the block driver, and the program that
  makes its images (\<^verbatim>\<open>tools/mkuixfs.py\<close>). Files packed by the one are shown to be read back by the
  other.
\<close>

section \<open>State\<close>

definition NFILES_MAX :: u32 where "NFILES_MAX = 32"

text \<open>
  The table \<^verbatim>\<open>entries\<close> is kept as the bytes of the array. The file buffer is known by its physical
  address (\<open>None\<close> for \<^verbatim>\<open>NULL\<close>); its bytes are \<open>file_data\<close>, by offset.
\<close>

record uixfs =
  entries :: bytes
  nfiles :: u32
  mounted :: bool
  sector :: "u8 list"
  file_buf :: "paddr option"
  file_buf_pages :: u64
  file_data :: bytes

text \<open>The fields of \<^verbatim>\<open>struct uixfs_entry\<close> number \<open>i\<close>.\<close>

definition entry_name :: "u32 \<Rightarrow> u64" where "entry_name i = 32 * ucast i"
definition entry_size :: "uixfs \<Rightarrow> u32 \<Rightarrow> u32" where "entry_size f i = get32 (entries f) (32 * ucast i + 24)"
definition entry_lba :: "uixfs \<Rightarrow> u32 \<Rightarrow> u32" where "entry_lba f i = get32 (entries f) (32 * ucast i + 28)"

text \<open>A local buffer as memory.\<close>

definition lmem :: "u8 list \<Rightarrow> bytes" where
  "lmem bs a = (if unat a < length bs then bs ! unat a else 0)"

section \<open>The file buffer\<close>

definition file_buf_free :: "uixfs \<times> pmm \<Rightarrow> (uixfs \<times> pmm) res" where
  "file_buf_free = (\<lambda>(f, p). case file_buf f of
     None \<Rightarrow> Inr (f, p)
   | Some pa \<Rightarrow>
       rbind (for_res (\<lambda>i. pmm_free (pa + of_nat i * UIX_PAGE_SIZE)) [0..<unat (file_buf_pages f)] p)
         (\<lambda>p. Inr (f\<lparr>file_buf := None, file_buf_pages := 0\<rparr>, p)))"

definition file_buf_alloc :: "u32 \<Rightarrow> uixfs \<times> pmm \<Rightarrow> (int \<times> uixfs \<times> pmm) res" where
  "file_buf_alloc sz s =
     rbind (file_buf_free s) (\<lambda>(f, p).
       let f = f\<lparr>file_buf_pages := (ucast sz + UIX_PAGE_SIZE - 1) div UIX_PAGE_SIZE\<rparr> in
       case pmm_alloc_pages (file_buf_pages f) p of (pa, p) \<Rightarrow>
         if pa = 0 then Inr (- 1, f\<lparr>file_buf_pages := 0\<rparr>, p)
         else Inr (0, f\<lparr>file_buf := Some pa\<rparr>, p))"

section \<open>Mounting\<close>

text \<open>The body of the loop that reads the table; the first component says whether to go on.\<close>

definition mount_entry :: "u32 \<Rightarrow> uixfs \<times> vblk \<times> console \<Rightarrow> bool \<times> uixfs \<times> vblk \<times> console" where
  "mount_entry i = (\<lambda>(f, b, con).
     let lba = 1 + i * 32 div 512; off = i * 32 mod 512 in
     case (if off = 0 then virtio_blk_read (ucast lba) (sector f) (b, con) else (0, sector f, b, con)) of
       (r, sec, b, con) \<Rightarrow>
       let f = f\<lparr>sector := sec\<rparr> in
       if r \<noteq> 0 then (False, f, b, con)
       else (True, f\<lparr>entries := put_bytes (entry_name i) (take 32 (drop (unat off) sec)) (entries f)\<rparr>, b, con))"

fun mount_entries :: "nat \<Rightarrow> u32 \<Rightarrow> uixfs \<times> vblk \<times> console \<Rightarrow> bool \<times> uixfs \<times> vblk \<times> console" where
  "mount_entries 0 i s = (True, s)"
| "mount_entries (Suc n) i s =
     (case mount_entry i s of (ok, s) \<Rightarrow> if ok then mount_entries n (i + 1) s else (False, s))"

text \<open>
  The line printed for an entry. A name that does not end in the table would go on in the memory
  after it; the text printed here stops at the end of the table.
\<close>

definition print_entry :: "uixfs \<Rightarrow> u32 \<Rightarrow> console \<Rightarrow> console" where
  "print_entry f i = kprintf (KLOG_INFO @ ''uixfs: '' @ [CHR 0x27] @ ''%s'' @ [CHR 0x27] @ '' %u bytes @ LBA %u'' @ nl)
     [KStr (Some (text_of (get_bytes (1024 - 32 * unat i) (entries f) (entry_name i)))),
      KNum (ucast (entry_size f i)), KNum (ucast (entry_lba f i))]"

definition uixfs_mount :: "uixfs \<times> vblk \<times> console \<Rightarrow> int \<times> uixfs \<times> vblk \<times> console" where
  "uixfs_mount = (\<lambda>(f, b, con).
     case virtio_blk_read 0 (sector f) (b, con) of (r, sec, b, con) \<Rightarrow>
     let f = f\<lparr>sector := sec\<rparr> in
     if r \<noteq> 0 then (- 1, f, b, kprintf (KLOG_ERR @ ''uixfs: cannot read LBA 0'' @ nl) [] con)
     else if memcmp (lmem sec) 0 (lmem (bytes_of ''UIXF'')) 0 4 \<noteq> 0
     then (- 1, f, b, kprintf (KLOG_ERR @ ''uixfs: bad magic'' @ nl) [] con)
     else
       let n = get32 (lmem sec) 4; n = (if n > NFILES_MAX then NFILES_MAX else n) in
       case mount_entries (unat n) 0 (f\<lparr>nfiles := n\<rparr>, b, con) of (ok, f, b, con) \<Rightarrow>
       if \<not> ok then (- 1, f, b, con)
       else let f = f\<lparr>mounted := True\<rparr>;
                con = kprintf (KLOG_INFO @ ''uixfs: mounted, %u files'' @ nl) [KNum (ucast n)] con
            in (0, f, b, fold (\<lambda>i. print_entry f (of_nat i)) [0..<unat n] con))"

definition uixfs_release_buf :: "uixfs \<times> pmm \<Rightarrow> (uixfs \<times> pmm) res" where
  "uixfs_release_buf s = file_buf_free s"

section \<open>Reading a file\<close>

text \<open>The search for the name at address \<open>na\<close> of \<open>nm\<close>; \<open>None\<close> when \<^verbatim>\<open>strcmp\<close> does not come back.\<close>

fun find_entry :: "nat \<Rightarrow> u32 \<Rightarrow> bytes \<Rightarrow> u64 \<Rightarrow> uixfs \<Rightarrow> u32 option option" where
  "find_entry 0 i nm na f = Some None"
| "find_entry (Suc n) i nm na f =
     (case strcmp (entries f) (entry_name i) nm na of
        None \<Rightarrow> None
      | Some c \<Rightarrow> if c \<noteq> 0 then find_entry n (i + 1) nm na f else Some (Some i))"

text \<open>The loop that copies the sectors of the file to the buffer.\<close>

function read_chunks :: "u32 \<Rightarrow> u32 \<Rightarrow> u32 \<Rightarrow> uixfs \<times> vblk \<times> console \<Rightarrow> int \<times> uixfs \<times> vblk \<times> console" where
  "read_chunks sz lba done (f, b, con) =
     (if done < sz
      then case virtio_blk_read (ucast lba) (sector f) (b, con) of (r, sec, b, con) \<Rightarrow>
        let f = f\<lparr>sector := sec\<rparr> in
        if r \<noteq> 0 then (- 5, f, b, con)
        else let chunk = (if sz - done > 512 then 512 else sz - done)
             in read_chunks sz (lba + 1) (done + chunk)
                  (f\<lparr>file_data := put_bytes (ucast done) (take (unat chunk) sec) (file_data f)\<rparr>, b, con)
      else (0, f, b, con))"
  by pat_completeness auto

lemma chunk_progress:
  assumes "done < (sz :: u32)"
  shows "unat (sz - (done + (if sz - done > 512 then 512 else sz - done))) < unat (sz - done)"
    "unat (sz - (done + (if sz - done > 512 then 512 else sz - done))) = unat (sz - done) - 512"
proof -
  have e: "sz - (done + c) = (sz - done) - c" for c by simp
  have "512 < sz - done \<Longrightarrow> unat (sz - done - 512) = unat (sz - done) - 512"
    by (subst unat_sub) (auto simp: word_le_nat_alt word_less_nat_alt)
  moreover have "0 < unat (sz - done)" using assms by (simp add: unat_gt_0) 
  moreover have "\<not> 512 < sz - done \<Longrightarrow> unat (sz - done) \<le> 512" by (simp add: word_less_nat_alt)
  ultimately show "unat (sz - (done + (if sz - done > 512 then 512 else sz - done))) < unat (sz - done)"
    "unat (sz - (done + (if sz - done > 512 then 512 else sz - done))) = unat (sz - done) - 512"
    unfolding e by (auto simp: word_less_nat_alt)
qed

termination read_chunks
  by (relation "measure (\<lambda>(sz, lba, done, _). unat (sz - done))") (auto simp: chunk_progress(1))

declare read_chunks.simps [simp del]

text \<open>The result, \<^verbatim>\<open>*out\<close> if it is stored, and the state.\<close>

definition uixfs_read :: "bytes \<Rightarrow> u64 \<Rightarrow> uixfs \<times> vblk \<times> pmm \<times> console \<Rightarrow>
    (int \<times> paddr option \<times> uixfs \<times> vblk \<times> pmm \<times> console) res option" where
  "uixfs_read nm na = (\<lambda>(f, b, p, con).
     if \<not> mounted f then Some (Inr (- 1, None, f, b, p, con))
     else case find_entry (unat (nfiles f)) 0 nm na f of
       None \<Rightarrow> None
     | Some None \<Rightarrow> Some (Inr (- 2, None, f, b, p, con))
     | Some (Some i) \<Rightarrow>
         let sz = entry_size f i in
         Some (rbind (file_buf_alloc sz (f, p)) (\<lambda>(r, f, p).
           if r \<noteq> 0 then Inr (- 12, None, f, b, p, con)
           else case read_chunks sz (entry_lba f i) 0 (f, b, con) of (r, f, b, con) \<Rightarrow>
             if r \<noteq> 0 then Inr (- 5, None, f, b, p, con)
             else Inr (uint sz, file_buf f, f, b, p, con))))"

section \<open>mkuixfs.py\<close>

definition SECT :: nat where "SECT = 512"

text \<open>\<^verbatim>\<open>struct.pack_into\<close> at an offset, which fails outside the array, and assignment to a slice.\<close>

definition pack_into :: "nat \<Rightarrow> u8 list \<Rightarrow> u8 list \<Rightarrow> u8 list option" where
  "pack_into off bs img =
     (if off + length bs \<le> length img then Some (take off img @ bs @ drop (off + length bs) img) else None)"

definition slice_assign :: "nat \<Rightarrow> nat \<Rightarrow> u8 list \<Rightarrow> u8 list \<Rightarrow> u8 list" where
  "slice_assign a b bs img = take a img @ bs @ drop (max a b) img"

text \<open>A 32-bit number in format \<^verbatim>\<open>I\<close> and a name in format \<^verbatim>\<open>24s\<close>.\<close>

definition pack_I :: "nat \<Rightarrow> u8 list option" where
  "pack_I n = (if n < 2 ^ 32 then Some (map (\<lambda>k. of_nat (n div 256 ^ k)) [0..<4]) else None)"

definition pack_24s :: "u8 list \<Rightarrow> u8 list" where
  "pack_24s nm = take 24 (nm @ replicate 24 0)"

definition round_sect :: "nat \<Rightarrow> nat" where
  "round_sect n = (n + SECT - 1) div SECT * SECT"

definition pack_entry :: "u8 list \<Rightarrow> nat \<Rightarrow> nat \<Rightarrow> u8 list option" where
  "pack_entry nm len lba =
     (case pack_I len of None \<Rightarrow> None | Some l \<Rightarrow>
      case pack_I lba of None \<Rightarrow> None | Some a \<Rightarrow> Some (pack_24s nm @ l @ a))"

text \<open>The loop over the files, given as name and contents; \<open>None\<close> is an exception.\<close>

fun pack_files :: "nat \<Rightarrow> nat \<Rightarrow> (u8 list \<times> u8 list) list \<Rightarrow> u8 list \<Rightarrow> u8 list option" where
  "pack_files i cur [] img = Some img"
| "pack_files i cur ((nm, blob) # files) img =
     (case pack_entry (take 23 nm) (length blob) (cur div SECT) of None \<Rightarrow> None | Some e \<Rightarrow>
      case pack_into (SECT + i * 32) e img of None \<Rightarrow> None | Some img \<Rightarrow>
      pack_files (Suc i) (cur + round_sect (length blob)) files (slice_assign cur (cur + length blob) blob img))"

definition mkuixfs :: "(u8 list \<times> u8 list) list \<Rightarrow> u8 list option" where
  "mkuixfs files =
     (case pack_I (length files) of None \<Rightarrow> None | Some n \<Rightarrow>
      case pack_into 0 (bytes_of ''UIXF'' @ n) (replicate (8 * 1024 * 1024) 0) of None \<Rightarrow> None | Some img \<Rightarrow>
      pack_files 0 (round_sect (SECT + 32 * 32)) files img)"

section \<open>The image\<close>

definition slice :: "nat \<Rightarrow> nat \<Rightarrow> u8 list \<Rightarrow> u8 list" where
  "slice a n xs = take n (drop a xs)"

definition file_sectors :: "(u8 list \<times> u8 list) list \<Rightarrow> nat" where
  "file_sectors files = sum_list (map (\<lambda>(nm, blob). round_sect (length blob)) files)"

text \<open>The offset of file \<open>j\<close>.\<close>

definition file_at :: "(u8 list \<times> u8 list) list \<Rightarrow> nat \<Rightarrow> nat" where
  "file_at files j = 1536 + file_sectors (take j files)"

lemma round_sect: "n \<le> round_sect n" "512 dvd round_sect n"
  by (simp_all add: round_sect_def SECT_def)

lemma pack_I_length: "pack_I n = Some bs \<Longrightarrow> length bs = 4"
  by (auto simp: pack_I_def split: if_splits)

lemma pack_entry_length: "pack_entry nm len lba = Some e \<Longrightarrow> length e = 32"
  by (auto simp: pack_entry_def pack_24s_def pack_I_length split: option.splits)

lemma splice_spec:
  assumes "a + length bs \<le> length img"
  shows "length (take a img @ bs @ drop (a + length bs) img) = length img"
    "slice a (length bs) (take a img @ bs @ drop (a + length bs) img) = bs"
    "x < a \<or> a + length bs \<le> x \<Longrightarrow> (take a img @ bs @ drop (a + length bs) img) ! x = img ! x"
proof -
  have m: "min (length img) a = a" using assms by simp
  show "length (take a img @ bs @ drop (a + length bs) img) = length img" using assms by simp
  show "slice a (length bs) (take a img @ bs @ drop (a + length bs) img) = bs" by (simp add: slice_def m)
  show "(take a img @ bs @ drop (a + length bs) img) ! x = img ! x" if "x < a \<or> a + length bs \<le> x"
    using that assms by (auto simp: nth_append m)
qed

lemma pack_into_splice:
  assumes "pack_into off bs img = Some img'"
  shows "off + length bs \<le> length img \<and> img' = take off img @ bs @ drop (off + length bs) img"
  using assms by (auto simp: pack_into_def split: if_splits)

lemma slice_cong:
  "length xs = length ys \<Longrightarrow> a + n \<le> length xs \<Longrightarrow> (\<And>x. a \<le> x \<Longrightarrow> x < a + n \<Longrightarrow> xs ! x = ys ! x) \<Longrightarrow> slice a n xs = slice a n ys"
  by (auto simp: slice_def intro!: nth_equalityI)

lemma pack_files_spec:
  assumes "pack_files i cur files img = Some img'" "512 + 32 * (i + length files) \<le> cur" "cur + file_sectors files \<le> length img"
  shows "length img' = length img \<and>
    (\<forall>x. x < 512 + 32 * i \<or> 512 + 32 * (i + length files) \<le> x \<and> x < cur \<longrightarrow> img' ! x = img ! x) \<and>
    (\<forall>j < length files.
       pack_entry (take 23 (fst (files ! j))) (length (snd (files ! j))) ((cur + file_sectors (take j files)) div 512)
         = Some (slice (512 + 32 * (i + j)) 32 img') \<and>
       slice (cur + file_sectors (take j files)) (length (snd (files ! j))) img' = snd (files ! j))"
  using assms
proof (induction files arbitrary: i cur img)
  case (Cons fl files)
  obtain nm blob where fl: "fl = (nm, blob)" by (cases fl)
  from Cons.prems(1) obtain e img1 where e: "pack_entry (take 23 nm) (length blob) (cur div 512) = Some e"
      "pack_into (512 + i * 32) e img = Some img1"
      "pack_files (Suc i) (cur + round_sect (length blob)) files (slice_assign cur (cur + length blob) blob img1) = Some img'"
    by (auto simp: fl SECT_def split: option.splits)
  let ?img2 = "take cur img1 @ blob @ drop (cur + length blob) img1"
  let ?cur = "cur + round_sect (length blob)"
  have le: "length e = 32" by (rule pack_entry_length [OF e(1)])
  note p1 = pack_into_splice [OF e(2), unfolded le]
  note s1 = splice_spec [of "512 + i * 32" e img, unfolded le, OF conjunct1 [OF p1], folded conjunct2 [OF p1]]
  have fs: "file_sectors (fl # files) = round_sect (length blob) + file_sectors files" by (simp add: file_sectors_def fl)
  have r: "length blob \<le> round_sect (length blob)" by (rule round_sect)
  have cl: "cur + length blob \<le> length img1" using Cons.prems(3) fs r s1(1) by simp
  note s2 = splice_spec [OF cl]
  have l: "512 + 32 * (Suc i + length files) \<le> ?cur" "?cur + file_sectors files \<le> length ?img2"
    using Cons.prems(2,3) s1(1) s2(1) fs by simp_all
  have IH: "length img' = length ?img2"
      "x < 512 + 32 * Suc i \<or> 512 + 32 * (Suc i + length files) \<le> x \<and> x < ?cur \<Longrightarrow> img' ! x = ?img2 ! x"
      "j < length files \<Longrightarrow>
        pack_entry (take 23 (fst (files ! j))) (length (snd (files ! j))) ((?cur + file_sectors (take j files)) div 512)
          = Some (slice (512 + 32 * (Suc i + j)) 32 img') \<and>
        slice (?cur + file_sectors (take j files)) (length (snd (files ! j))) img' = snd (files ! j)" for x j
    using Cons.IH [OF _ l] e(3) by (auto simp: slice_assign_def)
  have len: "length img' = length img" using IH(1) s2(1) s1(1) by simp
  have "img' ! x = img ! x" if "x < 512 + 32 * i \<or> 512 + 32 * (i + length (fl # files)) \<le> x \<and> x < cur" for x
    using that IH(2) [of x] s2(3) [of x] s1(3) [of x] Cons.prems(2) by auto
  moreover have "slice (512 + 32 * i) 32 img' = e"
  proof -
    have "slice (512 + 32 * i) 32 img' = slice (512 + 32 * i) 32 img1"
      using IH(2) s2(3) Cons.prems(2) by (intro slice_cong) (use len s1(1) p1 in auto)
    then show ?thesis using s1(2) by (simp add: mult.commute)
  qed
  moreover have "slice cur (length blob) img' = blob"
  proof -
    have "slice cur (length blob) img' = slice cur (length blob) ?img2"
      using IH(2) r Cons.prems(2) cl by (intro slice_cong) (use len s1(1) s2(1) in auto)
    then show ?thesis using s2(2) by simp
  qed
  moreover have "file_sectors (take (Suc j) (fl # files)) = round_sect (length blob) + file_sectors (take j files)" for j
    by (simp add: file_sectors_def fl)
  ultimately show ?case using len IH(3) e(1) fl
    by (auto simp: less_Suc_eq_0_disj file_sectors_def add.assoc)
qed simp_all

text \<open>What may be packed: the image has room, and names are distinct C strings that fit an entry.\<close>

definition files_ok :: "(u8 list \<times> u8 list) list \<Rightarrow> bool" where
  "files_ok files \<longleftrightarrow> length files \<le> 32 \<and> 1536 + file_sectors files \<le> 8 * 1024 * 1024 \<and> distinct (map fst files) \<and>
     list_all (\<lambda>(nm, blob). 0 \<notin> set nm \<and> length nm \<le> 23) files"

lemma file_sectors_take: "j < length files \<Longrightarrow>
  file_sectors (take j files) + round_sect (length (snd (files ! j))) \<le> file_sectors files"
proof (induction files arbitrary: j)
  case (Cons a files)
  then show ?case by (cases j) (auto simp: file_sectors_def split: prod.splits)
qed simp

lemma file_sectors_dvd: "512 dvd file_sectors files"
  by (induction files) (auto simp: file_sectors_def round_sect split: prod.splits)

lemma pack_files_total:
  assumes "512 + 32 * (i + length files) \<le> cur" "cur + file_sectors files \<le> length img" "length img < 2 ^ 32"
  shows "\<exists>img'. pack_files i cur files img = Some img'"
  using assms
proof (induction files arbitrary: i cur img)
  case (Cons fl files)
  obtain nm blob where fl: "fl = (nm, blob)" by (cases fl)
  have r: "length blob \<le> round_sect (length blob)" by (rule round_sect)
  have fs: "file_sectors (fl # files) = round_sect (length blob) + file_sectors files" by (simp add: file_sectors_def fl)
  have b: "cur + length blob \<le> length img" using Cons.prems(2) fs r by simp
  have "cur div 512 < 2 ^ 32" using b Cons.prems(3) by simp
  then obtain e where e: "pack_entry (take 23 nm) (length blob) (cur div SECT) = Some e"
    using b Cons.prems(3) by (simp add: pack_entry_def pack_I_def SECT_def)
  have "SECT + i * 32 + length e \<le> length img" using Cons.prems(1) b pack_entry_length [OF e] by (simp add: SECT_def)
  then obtain img1 where i1: "pack_into (SECT + i * 32) e img = Some img1" "length img1 = length img"
    by (simp add: pack_into_def)
  have l: "length (slice_assign cur (cur + length blob) blob img1) = length img"
    using splice_spec(1) [of cur blob img1] b i1(2) by (simp add: slice_assign_def)
  have "\<exists>img'. pack_files (Suc i) (cur + round_sect (length blob)) files (slice_assign cur (cur + length blob) blob img1) = Some img'"
    by (rule Cons.IH) (use Cons.prems fs l in auto)
  then show ?case by (simp add: fl e i1)
qed simp

lemma mkuixfs_image:
  assumes ok: "files_ok files"
  obtains img where "mkuixfs files = Some img" "length img = 8 * 1024 * 1024"
    "slice 0 4 img = bytes_of ''UIXF''" "Some (slice 4 4 img) = pack_I (length files)"
    "\<And>j. j < length files \<Longrightarrow> pack_entry (fst (files ! j)) (length (snd (files ! j))) (file_at files j div 512)
       = Some (slice (512 + 32 * j) 32 img)"
    "\<And>j. j < length files \<Longrightarrow> slice (file_at files j) (length (snd (files ! j))) img = snd (files ! j)"
proof -
  have n: "length files \<le> 32" and sec: "1536 + file_sectors files \<le> 8 * 1024 * 1024" using ok by (auto simp: files_ok_def)
  obtain nb where nb: "pack_I (length files) = Some nb" "length nb = 4" using n by (simp add: pack_I_def)
  have lu: "length (bytes_of ''UIXF'' @ nb) = 8" using nb by (simp add: bytes_of_def)
  define img0 :: "u8 list" where "img0 = replicate (8 * 1024 * 1024) 0"
  have l0: "length img0 = 8 * 1024 * 1024" by (simp add: img0_def)
  obtain img1 where i1: "pack_into 0 (bytes_of ''UIXF'' @ nb) img0 = Some img1" using lu l0 by (simp add: pack_into_def)
  note p1 = pack_into_splice [OF i1, unfolded lu]
  note s1 = splice_spec [of 0 "bytes_of ''UIXF'' @ nb" img0, unfolded lu, OF conjunct1 [OF p1], folded conjunct2 [OF p1]]
  have l1: "length img1 = 8 * 1024 * 1024" using s1(1) l0 by simp
  have pre: "512 + 32 * (0 + length files) \<le> (1536 :: nat)" "1536 + file_sectors files \<le> length img1" "length img1 < 2 ^ 32"
    using n sec l1 by simp_all
  obtain img where img: "pack_files 0 1536 files img1 = Some img" using pack_files_total [OF pre] by blast
  note sp = pack_files_spec [OF img pre(1,2)]
  have "round_sect (SECT + 32 * 32) = 1536" by (simp add: round_sect_def SECT_def)
  then have mk: "mkuixfs files = Some img"
    unfolding mkuixfs_def by (simp only: nb(1) option.case img0_def [symmetric] i1 img)
  have "slice 0 8 img = slice 0 8 img1" by (rule slice_cong) (use sp l1 in auto)
  also have "\<dots> = bytes_of ''UIXF'' @ nb" by (rule s1(2))
  finally have sl: "take 8 img = bytes_of ''UIXF'' @ nb" by (simp add: slice_def)
  have "slice 0 4 img = take 4 (take 8 img)" "slice 4 4 img = drop 4 (take 8 img)" by (simp_all add: slice_def drop_take)
  then have "slice 0 4 img = bytes_of ''UIXF''" "slice 4 4 img = nb" unfolding sl using nb(2) by (simp_all add: bytes_of_def)
  moreover have "take 23 (fst (files ! j)) = fst (files ! j)" if "j < length files" for j
    using ok that by (auto simp: files_ok_def list_all_length case_prod_beta)
  ultimately show thesis using that [OF mk] sp l1 nb(1) by (simp add: file_at_def)
qed

section \<open>Reading from the device\<close>

text \<open>A driver and a device that serve every read of the first \<open>cap\<close> sectors.\<close>

definition blk_ready :: "nat \<Rightarrow> vblk \<Rightarrow> bool" where
  "blk_ready cap b \<longleftrightarrow> vblk_ok b \<and> blk_device cap (vdev b) \<and> (\<forall>i. 0 < latency (vdev b) i \<and> latency (vdev b) i \<le> Suc SPINS)"

lemma blk_read_ok:
  assumes r: "blk_ready cap b" and sec: "unat sec < cap" and buf: "length buf = 512"
  obtains b' where "virtio_blk_read sec buf (b, con) = (0, sector_bytes (disk (vdev b)) sec, b', con)"
    "blk_ready cap b'" "disk (vdev b') = disk (vdev b)"
proof -
  let ?b = "served (notified 0 sec buf b)"
  have ok: "vblk_ok b" and dev: "blk_device cap (vdev b)" using r by (auto simp: blk_ready_def)
  have s: "vblk_ok ?b" "disk (vdev ?b) = disk (vdev b)" "serve (vdev ?b) = serve (vdev b)" "latency (vdev ?b) = latency (vdev b)"
    using request_served [OF ok dev _ sec buf, of 0] by simp_all
  have "blk_ready cap ?b" using s r dev by (simp add: blk_ready_def blk_device_def)
  then show thesis using that [of ?b] s(2) do_request_ok [OF ok dev _ sec buf, of 0 con] r by (simp add: virtio_blk_read_def blk_ready_def)
qed

text \<open>The bytes of the disk from offset \<open>a\<close> on.\<close>

definition dbytes :: "(nat \<Rightarrow> u8) \<Rightarrow> nat \<Rightarrow> nat \<Rightarrow> u8 list" where
  "dbytes dk a n = map (\<lambda>i. dk (a + i)) [0..<n]"

lemma dbytes_simps [simp]: "length (dbytes dk a n) = n" "i < n \<Longrightarrow> dbytes dk a n ! i = dk (a + i)"
  by (simp_all add: dbytes_def)

lemma sector_dbytes: "sector_bytes dk sec = dbytes dk (512 * unat sec) 512"
  by (simp add: sector_bytes_def dbytes_def)

lemma take_drop_dbytes: "o' + k \<le> n \<Longrightarrow> take k (drop o' (dbytes dk a n)) = dbytes dk (a + o') k"
  by (intro nth_equalityI) (simp_all add: add.assoc)

definition disk_of :: "u8 list \<Rightarrow> nat \<Rightarrow> u8" where
  "disk_of img i = (if i < length img then img ! i else 0)"

lemma dbytes_disk_of: "a + n \<le> length img \<Longrightarrow> dbytes (disk_of img) a n = slice a n img"
  by (intro nth_equalityI) (simp_all add: slice_def disk_of_def)

lemma get_bytes_simps [simp]: "length (get_bytes n m a) = n" "i < n \<Longrightarrow> get_bytes n m a ! i = m (a + of_nat i)"
  by (simp_all add: get_bytes_def)

lemma get_put_entry:
  assumes "i < 32" "j < 32" "length bs = 32"
  shows "get_bytes 32 (put_bytes (of_nat (32 * i)) bs m) (of_nat (32 * j)) = (if i = j then bs else get_bytes 32 m (of_nat (32 * j)))"
proof (rule nth_equalityI)
  fix t assume "t < length (get_bytes 32 (put_bytes (of_nat (32 * i)) bs m) (of_nat (32 * j)))"
  then have t: "t < 32" by simp
  have d: "unat (of_nat (32 * j) + of_nat t - of_nat (32 * i) :: u64) = (if 32 * i \<le> 32 * j + t then 32 * j + t - 32 * i else 2 ^ 64 - (32 * i - (32 * j + t)))"
    using assms t unat_diff_offsets [of "32 * i" "32 * j + t"] by (simp only: of_nat_add) simp
  show "get_bytes 32 (put_bytes (of_nat (32 * i)) bs m) (of_nat (32 * j)) ! t = (if i = j then bs else get_bytes 32 m (of_nat (32 * j))) ! t"
  proof (cases "i = j")
    case False
    then have "\<not> (32 * i \<le> 32 * j + t \<and> 32 * j + t - 32 * i < 32)" using t by linarith
    moreover have "\<not> 2 ^ 64 - (32 * i - (32 * j + t)) < 32" using assms by simp
    ultimately have "\<not> unat (of_nat (32 * j) + of_nat t - of_nat (32 * i) :: u64) < 32" unfolding d by auto
    then show ?thesis using t False assms(3) by (simp add: put_bytes_apply)
  qed (use t d assms(3) in \<open>simp add: put_bytes_apply unat_of_nat\<close>)
qed (use assms in auto)

section \<open>Mounting\<close>

lemma mount_entry_ok:
  assumes r: "blk_ready cap b" "disk (vdev b) = dk" and i: "i < 32" "3 \<le> cap" and sec: "length (sector f) = 512"
    and cur: "i mod 16 \<noteq> 0 \<Longrightarrow> sector f = dbytes dk (512 * (1 + i div 16)) 512"
  obtains b' where "mount_entry (of_nat i) (f, b, con) = (True, f\<lparr>sector := dbytes dk (512 * (1 + i div 16)) 512,
      entries := put_bytes (of_nat (32 * i)) (dbytes dk (512 + 32 * i) 32) (entries f)\<rparr>, b', con)"
    "blk_ready cap b'" "disk (vdev b') = dk"
proof -
  let ?lba = "1 + of_nat i * 32 div 512 :: u32" and ?off = "of_nat i * 32 mod 512 :: u32"
  have i32: "unat (of_nat i * 32 :: u32) = 32 * i" using i by (simp add: unat_word_ariths unat_of_nat)
  have off: "unat ?off = 32 * (i mod 16)" using mult_mod_right [of 32 i 16] by (simp only: unat_mod i32) simp
  have d: "unat (of_nat i * 32 div 512 :: u32) = i div 16" by (simp only: unat_div i32) simp
  have lba: "unat (ucast ?lba :: u64) = 1 + i div 16" using d i by (simp add: unat_ucast_up unat_word_ariths)
  have o0: "?off = 0 \<longleftrightarrow> i mod 16 = 0" using off by (auto simp: word_unat_eq_iff)
  have nm: "entry_name (of_nat i) = of_nat (32 * i)" using i by (simp add: entry_name_def ucast_of_nat_32)
  have sl: "take 32 (drop (unat ?off) (dbytes dk (512 * (1 + i div 16)) 512)) = dbytes dk (512 + 32 * i) 32"
  proof -
    have "32 * (i mod 16) + 32 \<le> 512" by (simp add: Suc_leI flip: mult_Suc_right)
    moreover have "512 * (1 + q) + 32 * r = 512 + 32 * (16 * q + r)" for q r :: nat by simp
    from this [of "i div 16" "i mod 16"] have "512 * (1 + i div 16) + 32 * (i mod 16) = 512 + 32 * i" by (simp only: mult_div_mod_eq)
    ultimately show ?thesis unfolding off by (simp only: take_drop_dbytes)
  qed
  obtain b' where b': "(if ?off = 0 then virtio_blk_read (ucast ?lba) (sector f) (b, con) else (0, sector f, b, con))
      = (0, dbytes dk (512 * (1 + i div 16)) 512, b', con)" "blk_ready cap b'" "disk (vdev b') = dk"
  proof (cases "i mod 16 = 0")
    case True
    have "unat (ucast ?lba :: u64) < cap" unfolding lba using i by linarith
    from blk_read_ok [OF r(1) this sec, of con] obtain b' where
      "virtio_blk_read (ucast ?lba) (sector f) (b, con) = (0, sector_bytes (disk (vdev b)) (ucast ?lba), b', con)"
      "blk_ready cap b'" "disk (vdev b') = disk (vdev b)" by blast
    then show ?thesis using that [of b'] True unfolding sector_dbytes lba by (simp add: o0 r(2))
  next
    case False
    then show ?thesis using that [of b] r cur o0 by simp
  qed
  then show thesis using that [of b'] sl by (simp add: mount_entry_def Let_def b'(1) nm)
qed

lemma mount_entries_ok:
  assumes "blk_ready cap b" "disk (vdev b) = dk" "i + n \<le> 32" "3 \<le> cap" "length (sector f) = 512"
    and "i mod 16 \<noteq> 0 \<Longrightarrow> sector f = dbytes dk (512 * (1 + i div 16)) 512"
  shows "\<exists>sec m b'. mount_entries n (of_nat i) (f, b, con) = (True, f\<lparr>sector := sec, entries := m\<rparr>, b', con) \<and>
    blk_ready cap b' \<and> disk (vdev b') = dk \<and> length sec = 512 \<and>
    (\<forall>j < 32. get_bytes 32 m (of_nat (32 * j)) =
      (if i \<le> j \<and> j < i + n then dbytes dk (512 + 32 * j) 32 else get_bytes 32 (entries f) (of_nat (32 * j))))"
  using assms
proof (induction n arbitrary: i f b)
  case 0
  then show ?case by (intro exI [of _ "sector f"] exI [of _ "entries f"] exI [of _ b]) auto
next
  case (Suc n)
  let ?s = "dbytes dk (512 * (1 + i div 16)) 512" and ?m = "put_bytes (of_nat (32 * i)) (dbytes dk (512 + 32 * i) 32) (entries f)"
  have i: "i < 32" using Suc.prems(3) by simp
  obtain b1 where b1: "mount_entry (of_nat i) (f, b, con) = (True, f\<lparr>sector := ?s, entries := ?m\<rparr>, b1, con)"
      "blk_ready cap b1" "disk (vdev b1) = dk"
    using mount_entry_ok [OF Suc.prems(1,2) i Suc.prems(4,5,6)] by blast
  have "\<exists>sec m b'. mount_entries n (of_nat (Suc i)) (f\<lparr>sector := ?s, entries := ?m\<rparr>, b1, con) = (True, f\<lparr>sector := ?s, entries := ?m\<rparr>\<lparr>sector := sec, entries := m\<rparr>, b', con) \<and>
    blk_ready cap b' \<and> disk (vdev b') = dk \<and> length sec = 512 \<and>
    (\<forall>j < 32. get_bytes 32 m (of_nat (32 * j)) =
      (if Suc i \<le> j \<and> j < Suc i + n then dbytes dk (512 + 32 * j) 32 else get_bytes 32 (entries (f\<lparr>sector := ?s, entries := ?m\<rparr>)) (of_nat (32 * j))))"
  proof (rule Suc.IH [OF b1(2,3)])
    assume "Suc i mod 16 \<noteq> 0"
    then have "Suc i div 16 = i div 16" by (simp add: div_Suc)
    then show "sector (f\<lparr>sector := ?s, entries := ?m\<rparr>) = dbytes dk (512 * (1 + Suc i div 16)) 512" by simp
  qed (use Suc.prems in simp_all)
  then obtain sec m b' where r: "mount_entries n (of_nat (Suc i)) (f\<lparr>sector := ?s, entries := ?m\<rparr>, b1, con) = (True, f\<lparr>sector := sec, entries := m\<rparr>, b', con)"
    "blk_ready cap b'" "disk (vdev b') = dk" "length sec = 512"
    "\<And>j. j < 32 \<Longrightarrow> get_bytes 32 m (of_nat (32 * j)) =
      (if Suc i \<le> j \<and> j < Suc i + n then dbytes dk (512 + 32 * j) 32 else get_bytes 32 ?m (of_nat (32 * j)))"
    by auto
  have "get_bytes 32 m (of_nat (32 * j)) =
      (if i \<le> j \<and> j < i + Suc n then dbytes dk (512 + 32 * j) 32 else get_bytes 32 (entries f) (of_nat (32 * j)))" if "j < 32" for j
    unfolding r(5) [OF that] get_put_entry [OF i that dbytes_simps(1)] by auto
  moreover have "mount_entries (Suc n) (of_nat i) (f, b, con) = (True, f\<lparr>sector := sec, entries := m\<rparr>, b', con)"
    using r(1) b1(1) by (simp add: add.commute)
  ultimately show ?case using r(2-4) by blast
qed

text \<open>A mounted image: entry \<open>j\<close> of the table is entry \<open>j\<close> of the disk.\<close>

definition fs_holds :: "(u8 list \<times> u8 list) list \<Rightarrow> uixfs \<Rightarrow> bool" where
  "fs_holds files f \<longleftrightarrow> mounted f \<and> unat (nfiles f) = length files \<and> length (sector f) = 512 \<and>
     (\<forall>j < length files. pack_entry (fst (files ! j)) (length (snd (files ! j))) (file_at files j div 512)
        = Some (get_bytes 32 (entries f) (of_nat (32 * j))))"

lemma get32_bytes:
  assumes n: "n < 2 ^ 32" and b: "\<And>t. t < 4 \<Longrightarrow> m (a + of_nat t) = of_nat (n div 256 ^ t)"
  shows "get32 m a = of_nat n"
proof -
  have "m x = put32 a (of_nat n) m x" if x: "unat (x - a) < 4" for x
  proof -
    let ?t = "unat (x - a)"
    have "m x = of_nat (n div 256 ^ ?t)" using b [OF x] by simp
    also have "\<dots> = ucast (drop_bit (8 * ?t) (of_nat n :: u32))"
    proof -
      have "unat (drop_bit (8 * ?t) (of_nat n :: u32)) = n div 2 ^ (8 * ?t)"
        using n by (subst unsigned_drop_bit_eq) (simp add: drop_bit_eq_div unat_of_nat take_bit_nat_eq_self)
      then have "ucast (drop_bit (8 * ?t) (of_nat n :: u32)) = (of_nat (n div 2 ^ (8 * ?t)) :: u8)" by (metis of_nat_unat)
      then show ?thesis by (simp add: power_mult)
    qed
    also have "\<dots> = put32 a (of_nat n) m x" using x by (simp add: put32_def put_le_apply)
    finally show ?thesis .
  qed
  then have "get32 m a = get32 (put32 a (of_nat n) m) a" unfolding get32_def by (intro get_le_cong) simp_all
  then show ?thesis by simp
qed

lemma cstr_bytes:
  "0 \<notin> set nm \<Longrightarrow> (\<And>t. t < length nm \<Longrightarrow> m (p + of_nat t) = nm ! t) \<Longrightarrow> m (p + of_nat (length nm)) = 0 \<Longrightarrow> cstr m p nm"
proof (induction nm arbitrary: p)
  case (Cons c nm)
  have "m (p + 1 + of_nat t) = nm ! t" if "t < length nm" for t using Cons.prems(2) [of "Suc t"] that by (simp add: add.assoc)
  then show ?case using Cons.IH [of "p + 1"] Cons.prems(1,3) Cons.prems(2) [of 0] by (simp add: add.assoc)
qed simp

lemma uixfs_mount_ok:
  assumes files: "files_ok files" "mkuixfs files = Some img" and r: "blk_ready cap b" "disk (vdev b) = disk_of img" "16384 \<le> cap"
    and sec: "length (sector f) = 512"
  obtains f' b' con' where "uixfs_mount (f, b, con) = (0, f', b', con')" "fs_holds files f'" "blk_ready cap b'" "disk (vdev b') = disk (vdev b)"
    "file_buf f' = file_buf f" "file_buf_pages f' = file_buf_pages f"
proof -
  obtain img' where i': "mkuixfs files = Some img'" "length img' = 8 * 1024 * 1024" "slice 0 4 img' = bytes_of ''UIXF''" "Some (slice 4 4 img') = pack_I (length files)"
    "\<And>j. j < length files \<Longrightarrow> pack_entry (fst (files ! j)) (length (snd (files ! j))) (file_at files j div 512) = Some (slice (512 + 32 * j) 32 img')"
    using mkuixfs_image [OF files(1)] by metis
  have img: "length img = 8 * 1024 * 1024" "slice 0 4 img = bytes_of ''UIXF''" "Some (slice 4 4 img) = pack_I (length files)"
    "\<And>j. j < length files \<Longrightarrow> pack_entry (fst (files ! j)) (length (snd (files ! j))) (file_at files j div 512) = Some (slice (512 + 32 * j) 32 img)"
    using i' files(2) by simp_all
  have n: "length files \<le> 32" using files(1) by (simp add: files_ok_def)
  obtain b1 where b1: "virtio_blk_read 0 (sector f) (b, con) = (0, dbytes (disk_of img) 0 512, b1, con)" "blk_ready cap b1" "disk (vdev b1) = disk_of img"
    using blk_read_ok [OF r(1) _ sec, of 0 con] r(2,3) by (auto simp: sector_dbytes)
  have lm: "lmem (dbytes (disk_of img) 0 512) (of_nat t) = img ! t" if "t < 512" for t
    using that img(1) by (simp add: lmem_def disk_of_def unat_of_nat)
  have "img ! t = bytes_of ''UIXF'' ! t" if "t < 4" for t
    using that img(2) by (metis add_0 nth_take slice_def drop0)
  then have magic: "memcmp (lmem (dbytes (disk_of img) 0 512)) 0 (lmem (bytes_of ''UIXF'')) 0 4 = 0"
    using lm unfolding memcmp_def by (simp add: memcmp_loop_zero_iff lmem_def bytes_of_def unat_of_nat)
  have "slice 4 4 img ! t = img ! (4 + t)" if "t < 4" for t using that img(1) by (simp add: slice_def)
  then have "lmem (dbytes (disk_of img) 0 512) (4 + of_nat t) = of_nat (length files div 256 ^ t)" if "t < 4" for t
    using that img(3) lm [of "4 + t"] n by (simp add: pack_I_def)
  then have nf: "get32 (lmem (dbytes (disk_of img) 0 512)) 4 = of_nat (length files)" using n by (intro get32_bytes) simp_all
  have un: "unat (of_nat (length files) :: u32) = length files" using n by (simp add: unat_of_nat)
  then have nle: "\<not> of_nat (length files) > NFILES_MAX" using n by (simp add: NFILES_MAX_def word_less_nat_alt)
  let ?f = "f\<lparr>sector := dbytes (disk_of img) 0 512, nfiles := of_nat (length files)\<rparr>"
  obtain sc m b2 where me: "mount_entries (length files) 0 (?f, b1, con) = (True, ?f\<lparr>sector := sc, entries := m\<rparr>, b2, con)"
    "blk_ready cap b2" "disk (vdev b2) = disk_of img" "length sc = 512"
    "\<And>j. j < length files \<Longrightarrow> get_bytes 32 m (of_nat (32 * j)) = dbytes (disk_of img) (512 + 32 * j) 32"
  proof -
    have ex: "\<exists>sec m b'. mount_entries (length files) (of_nat 0) (?f, b1, con) = (True, ?f\<lparr>sector := sec, entries := m\<rparr>, b', con) \<and>
      blk_ready cap b' \<and> disk (vdev b') = disk_of img \<and> length sec = 512 \<and>
      (\<forall>j < 32. get_bytes 32 m (of_nat (32 * j)) =
        (if 0 \<le> j \<and> j < 0 + length files then dbytes (disk_of img) (512 + 32 * j) 32 else get_bytes 32 (entries ?f) (of_nat (32 * j))))"
      by (rule mount_entries_ok [OF b1(2,3)]) (use n r(3) in simp_all)
    from ex [unfolded semiring_1_class.of_nat_0] obtain sc m b2 where me: "mount_entries (length files) 0 (?f, b1, con) = (True, ?f\<lparr>sector := sc, entries := m\<rparr>, b2, con)"
      "blk_ready cap b2" "disk (vdev b2) = disk_of img" "length sc = 512" and
      e: "\<forall>j < 32. get_bytes 32 m (of_nat (32 * j)) =
        (if 0 \<le> j \<and> j < 0 + length files then dbytes (disk_of img) (512 + 32 * j) 32 else get_bytes 32 (entries ?f) (of_nat (32 * j)))"
      by blast
    have "get_bytes 32 m (of_nat (32 * j)) = dbytes (disk_of img) (512 + 32 * j) 32" if "j < length files" for j
      using e [rule_format, of j] that n by simp
    then show ?thesis using that me by blast
  qed
  let ?f' = "?f\<lparr>sector := sc, entries := m, mounted := True\<rparr>"
  have "fs_holds files ?f'"
    unfolding fs_holds_def using un me(4,5) img(4) n img(1) by (simp add: dbytes_disk_of)
  moreover have "\<exists>con'. uixfs_mount (f, b, con) = (0, ?f', b2, con')"
    unfolding uixfs_mount_def Let_def by (simp add: b1 magic nf nle un me(1))
  ultimately show thesis using that me(2,3) r(2) by fastforce
qed

lemma fs_entry:
  assumes files: "files_ok files" and fs: "fs_holds files f" and j: "j < length files"
  shows "cstr (entries f) (entry_name (of_nat j)) (fst (files ! j))"
    "entry_size f (of_nat j) = of_nat (length (snd (files ! j)))" "entry_lba f (of_nat j) = of_nat (file_at files j div 512)"
proof -
  let ?nm = "fst (files ! j)" and ?bs = "get_bytes 32 (entries f) (of_nat (32 * j))"
  have nm: "0 \<notin> set ?nm" "length ?nm \<le> 23" and n: "length files \<le> 32" using files j by (auto simp: files_ok_def list_all_length case_prod_beta)
  have a: "entry_name (of_nat j) = of_nat (32 * j)" "(32 * ucast (of_nat j :: u32) :: u64) = of_nat (32 * j)" using j n by (simp_all add: entry_name_def ucast_of_nat_32)
  obtain l la where pe: "pack_I (length (snd (files ! j))) = Some l" "pack_I (file_at files j div 512) = Some la" "?bs = pack_24s ?nm @ l @ la"
  proof -
    have "pack_entry ?nm (length (snd (files ! j))) (file_at files j div 512) = Some ?bs" using fs j unfolding fs_holds_def by blast
    then show ?thesis using that by (auto simp: pack_entry_def split: option.splits)
  qed
  have l4: "length l = 4" "length la = 4" "length (pack_24s ?nm) = 24" using pe(1,2) by (auto simp: pack_I_length pack_24s_def)
  have b: "entries f (of_nat (32 * j) + of_nat t) = (pack_24s ?nm @ l @ la) ! t" if "t < 32" for t
    using get_bytes_simps(2) [OF that, of "entries f" "of_nat (32 * j)"] unfolding pe(3) by simp
  have p24: "pack_24s ?nm ! t = (if t < length ?nm then ?nm ! t else 0)" if "t < 24" for t
    using that by (simp add: pack_24s_def nth_append)
  show "cstr (entries f) (entry_name (of_nat j)) ?nm" unfolding a(1)
  proof (rule cstr_bytes [OF nm(1)])
    show "entries f (of_nat (32 * j) + of_nat t) = ?nm ! t" if "t < length ?nm" for t
      using b [of t] p24 [of t] that nm(2) l4(3) by (simp add: nth_append)
    show "entries f (of_nat (32 * j) + of_nat (length ?nm)) = 0"
      using b [of "length ?nm"] p24 [of "length ?nm"] nm(2) l4(3) by (simp add: nth_append)
  qed
  have ln: "n < 2 ^ 32" "\<And>t. t < 4 \<Longrightarrow> bs ! t = of_nat (n div 256 ^ t)" if "pack_I n = Some bs" for n bs
    using that by (auto simp: pack_I_def split: if_splits)
  show "entry_size f (of_nat j) = of_nat (length (snd (files ! j)))" unfolding entry_size_def a(2)
  proof (rule get32_bytes [OF ln(1) [OF pe(1)]])
    fix t :: nat assume "t < 4"
    then show "entries f (of_nat (32 * j) + 24 + of_nat t) = of_nat (length (snd (files ! j)) div 256 ^ t)"
      using b [of "24 + t"] ln(2) [OF pe(1)] l4 by (simp add: nth_append add.assoc)
  qed
  show "entry_lba f (of_nat j) = of_nat (file_at files j div 512)" unfolding entry_lba_def a(2)
  proof (rule get32_bytes [OF ln(1) [OF pe(2)]])
    fix t :: nat assume "t < 4"
    then show "entries f (of_nat (32 * j) + 28 + of_nat t) = of_nat (file_at files j div 512 div 256 ^ t)"
      using b [of "28 + t"] ln(2) [OF pe(2)] l4 by (simp add: nth_append add.assoc)
  qed
qed

section \<open>Reading\<close>

text \<open>Looking a name up in the list of files.\<close>

fun file_index :: "nat \<Rightarrow> u8 list \<Rightarrow> (u8 list \<times> u8 list) list \<Rightarrow> nat option" where
  "file_index i nm [] = None"
| "file_index i nm (fl # files) = (if fst fl = nm then Some i else file_index (Suc i) nm files)"

lemma file_index_nth: "distinct (map fst files) \<Longrightarrow> j < length files \<Longrightarrow> file_index i (fst (files ! j)) files = Some (i + j)"
proof (induction files arbitrary: i j)
  case (Cons fl files)
  have "fst (files ! k) \<in> fst ` set files" if "k < length files" for k using that by simp
  then show ?case using Cons by (cases j) fastforce+
qed simp

lemma file_index_None: "nm \<notin> fst ` set files \<Longrightarrow> file_index i nm files = None"
  by (induction files arbitrary: i) auto

lemma find_entry_index:
  assumes files: "files_ok files" "fs_holds files f" and nm: "cstr m na nm" and i: "i + n = length files"
  shows "find_entry n (of_nat i) m na f = Some (map_option of_nat (file_index i nm (drop i files)))"
  using i
proof (induction n arbitrary: i)
  case (Suc n)
  then have j: "i < length files" by simp
  obtain c where c: "strcmp (entries f) (entry_name (of_nat i)) m na = Some c" "c = 0 \<longleftrightarrow> fst (files ! i) = nm"
    using strcmp_cstr [OF fs_entry(1) [OF files j] nm] by blast
  have "(of_nat i + 1 :: u32) = of_nat (Suc i)" by simp
  then show ?case using Suc.IH [of "Suc i"] Suc.prems c Cons_nth_drop_Suc [OF j, symmetric] by (simp del: of_nat_Suc)
qed simp

lemma file_data_step:
  assumes "d < 2 ^ 32" "x < 2 ^ 32" "length bs < 2 ^ 32"
  shows "put_bytes (of_nat d) bs m (of_nat x) = (if d \<le> x \<and> x < d + length bs then bs ! (x - d) else m (of_nat x))"
  using unat_diff_offsets [of d x] assms by (auto simp: put_bytes_apply)

lemma read_chunks_ok:
  assumes "blk_ready cap b" "disk (vdev b) = dk" "length (sector f) = 512"
    and "unat done \<le> unat sz" "512 dvd unat done \<or> done = sz" "512 * lba0 + unat sz \<le> 512 * cap" "512 * cap < 2 ^ 32"
    and "done = sz \<or> lba = of_nat (lba0 + unat done div 512)" "\<forall>x < unat done. file_data f (of_nat x) = dk (512 * lba0 + x)"
  shows "\<exists>f' b'. read_chunks sz lba done (f, b, con) = (0, f', b', con) \<and> blk_ready cap b' \<and> disk (vdev b') = dk \<and>
    (\<forall>x < unat sz. file_data f' (of_nat x) = dk (512 * lba0 + x)) \<and>
    f'\<lparr>sector := sector f, file_data := file_data f\<rparr> = f \<and> length (sector f') = 512"
  using assms
proof (induction "unat sz - unat done" arbitrary: lba "done" f b rule: less_induct)
  case less
  note P = less.prems
  show ?case
  proof (cases "done < sz")
    case False
    then have "done = sz" using P(4) by (simp add: word_less_nat_alt word_unat_eq_iff)
    then show ?thesis using P by (intro exI [of _ f] exI [of _ b]) (simp add: read_chunks.simps)
  next
    case True
    then have lt: "unat done < unat sz" and al: "512 dvd unat done" using P(5) by (auto simp: word_less_nat_alt)
    then obtain k where k: "unat done = 512 * k" by (elim dvdE)
    have L: "lba0 + k < cap" using P(6) lt k by linarith
    have cap: "cap < 2 ^ 32" using P(7) by linarith
    have lk: "lba = of_nat (lba0 + k)" using P(8) True k by auto
    have lba: "unat (ucast lba :: u64) = lba0 + k" using L cap unfolding lk by (simp add: unat_ucast_up unat_of_nat del: of_nat_add)
    obtain b1 where b1: "virtio_blk_read (ucast lba) (sector f) (b, con) = (0, dbytes dk (512 * (lba0 + k)) 512, b1, con)"
        "blk_ready cap b1" "disk (vdev b1) = dk"
      using blk_read_ok [OF P(1) _ P(3), of "ucast lba" con] L P(2) unfolding lba sector_dbytes by auto
    let ?c = "if sz - done > 512 then 512 else sz - done"
    have us: "unat (sz - done) = unat sz - unat done" using True by (simp add: unat_sub less_imp_le)
    have uc: "unat ?c = (if unat sz - unat done > 512 then 512 else unat sz - unat done)" by (simp add: word_less_nat_alt us)
    have ud: "unat (done + ?c) = unat done + unat ?c"
      using lt uc unsigned_less [where ?'a = nat, of sz] by (subst unat_add_lem [THEN iffD1]) (auto split: if_splits)
    let ?sec = "dbytes dk (512 * (lba0 + k)) 512"
    let ?f = "f\<lparr>sector := ?sec, file_data := put_bytes (ucast done) (take (unat ?c) ?sec) (file_data f)\<rparr>"
    have c512: "unat ?c \<le> 512" using uc by (simp split: if_splits)
    have ucd: "(ucast done :: u64) = of_nat (512 * k)" using k by (metis of_nat_unat)
    have s32: "unat sz < 2 ^ 32" using unsigned_less [where ?'a = nat, of sz] by simp
    have chunk: "put_bytes (of_nat (512 * k)) (take c ?sec) m (of_nat x) = (if 512 * k \<le> x then ?sec ! (x - 512 * k) else m (of_nat x))"
      if "x < 512 * k + c" "c \<le> 512" "x < 2 ^ 32" for x c m
      using file_data_step [of "512 * k" x "take c ?sec" m] that lt s32 k by auto
    have "\<exists>f' b'. read_chunks sz (lba + 1) (done + ?c) (?f, b1, con) = (0, f', b', con) \<and> blk_ready cap b' \<and> disk (vdev b') = dk \<and>
      (\<forall>x < unat sz. file_data f' (of_nat x) = dk (512 * lba0 + x)) \<and>
      f'\<lparr>sector := sector ?f, file_data := file_data ?f\<rparr> = ?f \<and> length (sector f') = 512"
    proof (rule less.hyps [OF _ b1(2,3) _ _ _ P(6,7)])
      show "unat sz - unat (done + ?c) < unat sz - unat done" unfolding ud using lt uc by (simp split: if_splits)
      show "unat (done + ?c) \<le> unat sz" unfolding ud using lt uc by (simp split: if_splits)
      show "512 dvd unat (done + ?c) \<or> done + ?c = sz" unfolding ud using al uc by auto
      have "?c = 512 \<or> done + ?c = sz" by simp
      moreover have "unat (done + 512) div 512 = Suc k" if "?c = 512" using ud k unfolding that by simp
      ultimately show "done + ?c = sz \<or> lba + 1 = of_nat (lba0 + unat (done + ?c) div 512)" unfolding lk by auto
      show "\<forall>x < unat (done + ?c). file_data ?f (of_nat x) = dk (512 * lba0 + x)"
      proof (intro allI impI)
        fix x assume "x < unat (done + ?c)"
        then have x: "x < 512 * k + unat ?c" unfolding ud k .
        moreover have "512 * k + unat ?c \<le> unat sz" using lt uc k by (simp split: if_splits)
        ultimately have "file_data ?f (of_nat x) = (if 512 * k \<le> x then ?sec ! (x - 512 * k) else file_data f (of_nat x))"
          unfolding ucd using chunk [OF x c512] s32 by simp
        also have "\<dots> = dk (512 * lba0 + x)" using P(9) k x c512 by (simp add: distrib_left)
        finally show "file_data ?f (of_nat x) = dk (512 * lba0 + x)" .
      qed
    qed simp
    then obtain f' b' where r: "read_chunks sz (lba + 1) (done + ?c) (?f, b1, con) = (0, f', b', con)" "blk_ready cap b'" "disk (vdev b') = dk"
      "\<forall>x < unat sz. file_data f' (of_nat x) = dk (512 * lba0 + x)" "f'\<lparr>sector := sector ?f, file_data := file_data ?f\<rparr> = ?f" "length (sector f') = 512"
      by blast
    have "read_chunks sz lba done (f, b, con) = (0, f', b', con)"
      using r(1) by (subst read_chunks.simps) (simp add: True b1(1) Let_def)
    moreover have "f'\<lparr>sector := sector f, file_data := file_data f\<rparr> = f"
      using arg_cong [OF r(5), of "\<lambda>g. g\<lparr>sector := sector f, file_data := file_data f\<rparr>"] by simp
    ultimately show ?thesis using r(2-4,6) by blast
  qed
qed

section \<open>The buffer's pages\<close>

lemma free_run:
  assumes "pmm_inv p" "a \<noteq> 0" "unat a + n \<le> unat (bitmap_len p)" "k \<le> n" "\<And>i. k \<le> i \<Longrightarrow> i < n \<Longrightarrow> a + of_nat i \<notin> free_set p"
  shows "\<exists>p'. for_res (\<lambda>i. pmm_free (push_bit 12 a + of_nat i * UIX_PAGE_SIZE)) [k..<n] p = Inr p' \<and> pmm_inv p' \<and>
    free_set p' = free_set p \<union> {a + of_nat i | i. k \<le> i \<and> i < n} \<and> bitmap_len p' = bitmap_len p"
  using assms
proof (induction "n - k" arbitrary: k p)
  case 0
  then show ?case by auto
next
  case (Suc d)
  let ?i = "a + of_nat k"
  have k: "k < n" and d: "d = n - Suc k" using Suc.hyps(2) by simp_all
  have b64: "unat a + n < 2 ^ 64" by (rule le_less_trans [OF Suc.prems(3) unat_lt_64])
  have un: "unat (a + of_nat i) = unat a + i" if "i < n" for i
    using that b64 by (simp add: unat_word_ariths unat_of_nat)
  have i: "?i < bitmap_len p" "?i \<noteq> 0" using un [OF k] Suc.prems(2,3) k by (auto simp: word_less_nat_alt word_unat_eq_iff)
  then have nf: "\<not> is_free ?i p" using Suc.prems(5) [of k] k by (simp add: free_set_def)
  have pa: "push_bit 12 a + of_nat k * UIX_PAGE_SIZE = push_bit 12 ?i" by (simp add: UIX_PAGE_SIZE_def push_bit_eq_mult distrib_right)
  obtain p1 where p1: "pmm_free (push_bit 12 ?i) p = Inr p1" "free_set p1 = insert ?i (free_set p)" "pmm_inv p1" "bitmap_len p1 = bitmap_len p"
    using pmm_free_ok [OF Suc.prems(1) i(1) nf i(2)] by blast
  have "a + of_nat j \<notin> free_set p1" if "Suc k \<le> j" "j < n" for j
  proof -
    have "a + of_nat j \<noteq> ?i" using un [of j] un [of k] that k by (auto simp: word_unat_eq_iff)
    then show ?thesis using p1(2) Suc.prems(5) [of j] that by auto
  qed
  then obtain p' where "for_res (\<lambda>i. pmm_free (push_bit 12 a + of_nat i * UIX_PAGE_SIZE)) [Suc k..<n] p1 = Inr p'" "pmm_inv p'"
      "free_set p' = free_set p1 \<union> {a + of_nat i | i. Suc k \<le> i \<and> i < n}" "bitmap_len p' = bitmap_len p1"
    using Suc.hyps(1) [OF d p1(3) Suc.prems(2)] Suc.prems(3) p1(4) k by auto
  moreover have "{a + of_nat i | i. k \<le> i \<and> i < n} = insert ?i {a + of_nat i | i. Suc k \<le> i \<and> i < n}"
    using k by (auto simp: Suc_le_eq nat_less_le)
  ultimately show ?case using p1 k by (simp add: upt_conv_Cons pa)
qed

lemma run_pages_offsets:
  assumes "unat a + unat n < 2 ^ 64"
  shows "run_pages a n = {a + of_nat i | i. i < unat n}"
proof (intro set_eqI iffI)
  fix x assume "x \<in> run_pages a n"
  then have "x = a + of_nat (unat (x - a))" "unat (x - a) < unat n" by (simp_all add: run_pages_def)
  then show "x \<in> {a + of_nat i | i. i < unat n}" by blast
next
  fix x assume "x \<in> {a + of_nat i | i. i < unat n}"
  then obtain i where "x = a + of_nat i" "i < unat n" by blast
  then show "x \<in> run_pages a n" using assms by (simp add: run_pages_def unat_of_nat)
qed

text \<open>A buffer is allocated and given back without losing a page.\<close>

lemma file_buf_alloc_free:
  assumes f: "file_buf f = None" and p: "pmm_inv p" and n: "0 < sz"
    and room: "w + (unat sz + 4095) div 4096 \<le> unat (bitmap_len p)" "free_window p w ((unat sz + 4095) div 4096)"
  obtains pa n p' where "file_buf_alloc sz (f, p) = Inr (0, f\<lparr>file_buf_pages := n, file_buf := Some pa\<rparr>, p')" "pa \<noteq> 0"
    "\<And>g. file_buf g = Some pa \<Longrightarrow> file_buf_pages g = n \<Longrightarrow>
       \<exists>g' p''. file_buf_free (g, p') = Inr (g', p'') \<and> file_buf g' = None \<and> free_set p'' = free_set p \<and> pmm_inv p''"
proof -
  define n where "n = (ucast sz + UIX_PAGE_SIZE - 1) div UIX_PAGE_SIZE"
  have s: "unat sz < 2 ^ 32" using unsigned_less [where ?'a = nat, of sz] by simp
  have e: "ucast sz + 4096 - 1 = (of_nat (unat sz + 4095) :: u64)" by simp
  have u: "unat (of_nat (unat sz + 4095) :: u64) = unat sz + 4095" unfolding unat_of_nat using s by simp
  have un: "unat n = (unat sz + 4095) div 4096" unfolding n_def UIX_PAGE_SIZE_def unat_div e u by simp
  have "0 < unat sz" using n by (simp add: word_less_nat_alt)
  then have "0 < unat n" unfolding un by simp
  then have n0: "0 < n" by (simp add: word_less_nat_alt)
  show thesis using p n0
  proof (cases rule: pmm_alloc_pages_cases)
    case none
    then show ?thesis using room un by auto
  next
    case (run a p')
    have b: "unat a + unat n < 2 ^ 64" by (rule le_less_trans [OF run(4) unat_lt_64])
    have pa: "push_bit 12 a \<noteq> 0" using page_addr_0 [of a] run(2,3) by simp
    have "file_buf_alloc sz (f, p) = Inr (0, f\<lparr>file_buf_pages := n, file_buf := Some (push_bit 12 a)\<rparr>, p')"
      using f run(1) pa by (simp add: file_buf_alloc_def file_buf_free_def Let_def n_def [symmetric])
    moreover have "\<exists>g' p''. file_buf_free (g, p') = Inr (g', p'') \<and> file_buf g' = None \<and> free_set p'' = free_set p \<and> pmm_inv p''"
      if "file_buf g = Some (push_bit 12 a)" "file_buf_pages g = n" for g
    proof -
      have "a + of_nat i \<notin> free_set p'" if "i < unat n" for i using run(7) that run_pages_offsets [OF b] by auto
      then obtain p'' where "for_res (\<lambda>i. pmm_free (push_bit 12 a + of_nat i * UIX_PAGE_SIZE)) [0..<unat n] p' = Inr p''" "pmm_inv p''"
          "free_set p'' = free_set p' \<union> {a + of_nat i | i. i < unat n}"
        using free_run [OF run(8,2), of "unat n" 0] run(4,9) by auto
      moreover have "free_set p' \<union> {a + of_nat i | i. i < unat n} = free_set p"
        using run(5,7) run_pages_offsets [OF b] by auto
      ultimately show ?thesis using that by (simp add: file_buf_free_def)
    qed
    ultimately show ?thesis using that pa by blast
  qed
qed

section \<open>Properties\<close>

lemma blk_ready_mono: "blk_ready cap b \<Longrightarrow> cap' \<le> cap \<Longrightarrow> blk_ready cap' b"
  unfolding blk_ready_def blk_device_def by (elim conjE, intro conjI allI impI) simp_all

lemma uixfs_read_ok:
  assumes files: "files_ok files" "mkuixfs files = Some img" "fs_holds files f" and r: "blk_ready 16384 b" "disk (vdev b) = disk_of img"
    and buf: "file_buf f = None" and nm: "j < length files" "cstr m na (fst (files ! j))"
    and p: "pmm_inv p" and blob: "snd (files ! j) \<noteq> []"
    and room: "w + (length (snd (files ! j)) + 4095) div 4096 \<le> unat (bitmap_len p)" "free_window p w ((length (snd (files ! j)) + 4095) div 4096)"
  shows "\<exists>pa f' b' p' g p''. uixfs_read m na (f, b, p, con) = Some (Inr (int (length (snd (files ! j))), Some pa, f', b', p', con)) \<and>
    get_bytes (length (snd (files ! j))) (file_data f') 0 = snd (files ! j) \<and>
    uixfs_release_buf (f', p') = Inr (g, p'') \<and> free_set p'' = free_set p \<and> pmm_inv p''"
proof -
  let ?blob = "snd (files ! j)" and ?sz = "of_nat (length (snd (files ! j))) :: u32"
  obtain img' where i': "mkuixfs files = Some img'" "length img' = 8 * 1024 * 1024"
    "\<And>j. j < length files \<Longrightarrow> slice (file_at files j) (length (snd (files ! j))) img' = snd (files ! j)"
    using mkuixfs_image [OF files(1)] by metis
  then have img: "length img = 8 * 1024 * 1024" "slice (file_at files j) (length ?blob) img = ?blob" using files(2) nm(1) by simp_all
  have fit: "file_at files j + length ?blob \<le> 8 * 1024 * 1024"
    using file_sectors_take [OF nm(1)] files(1) round_sect(1) [of "length ?blob"] by (simp add: file_at_def files_ok_def)
  have usz: "unat ?sz = length ?blob" using fit by (simp add: unat_of_nat)
  have sz0: "0 < ?sz" using usz blob by (simp add: word_less_nat_alt)
  have "512 dvd file_at files j" using file_sectors_dvd by (simp add: file_at_def)
  then have at: "512 * (file_at files j div 512) = file_at files j" by simp
  have "find_entry (length files) (of_nat 0) m na f = Some (map_option of_nat (file_index 0 (fst (files ! j)) (drop 0 files)))"
    by (rule find_entry_index [OF files(1,3) nm(2)]) simp
  then have fe: "find_entry (unat (nfiles f)) 0 m na f = Some (Some (of_nat j))"
    using files(1,3) file_index_nth [OF _ nm(1), of 0] by (simp add: files_ok_def fs_holds_def)
  obtain pa n p' where al: "file_buf_alloc ?sz (f, p) = Inr (0, f\<lparr>file_buf_pages := n, file_buf := Some pa\<rparr>, p')"
      "\<And>g. file_buf g = Some pa \<Longrightarrow> file_buf_pages g = n \<Longrightarrow>
         \<exists>g' p''. file_buf_free (g, p') = Inr (g', p'') \<and> file_buf g' = None \<and> free_set p'' = free_set p \<and> pmm_inv p''"
    using file_buf_alloc_free [OF buf p sz0, of w] room unfolding usz by metis
  let ?f = "f\<lparr>file_buf_pages := n, file_buf := Some pa\<rparr>"
  have "\<exists>f' b'. read_chunks ?sz (of_nat (file_at files j div 512)) 0 (?f, b, con) = (0, f', b', con) \<and> blk_ready 16384 b' \<and> disk (vdev b') = disk_of img \<and>
    (\<forall>x < unat ?sz. file_data f' (of_nat x) = disk_of img (512 * (file_at files j div 512) + x)) \<and>
    f'\<lparr>sector := sector ?f, file_data := file_data ?f\<rparr> = ?f \<and> length (sector f') = 512"
    by (rule read_chunks_ok [OF r]) (use files(3) fit in \<open>simp_all add: fs_holds_def usz at\<close>)
  then obtain f' b' where rc: "read_chunks ?sz (of_nat (file_at files j div 512)) 0 (?f, b, con) = (0, f', b', con)"
      "\<And>x. x < length ?blob \<Longrightarrow> file_data f' (of_nat x) = disk_of img (file_at files j + x)" "f'\<lparr>sector := sector ?f, file_data := file_data ?f\<rparr> = ?f"
    unfolding usz at by blast
  have fb: "file_buf f' = Some pa" "file_buf_pages f' = n" using arg_cong [OF rc(3), of file_buf] arg_cong [OF rc(3), of file_buf_pages] by simp_all
  have "get_bytes (length ?blob) (file_data f') 0 = dbytes (disk_of img) (file_at files j) (length ?blob)"
    using rc(2) by (intro nth_equalityI) simp_all
  then have "get_bytes (length ?blob) (file_data f') 0 = ?blob" using img fit by (simp add: dbytes_disk_of)
  moreover have "entry_size ?f (of_nat j) = ?sz" "entry_lba ?f (of_nat j) = of_nat (file_at files j div 512)"
    using fs_entry(2,3) [OF files(1,3) nm(1)] by (simp_all add: entry_size_def entry_lba_def)
  moreover have "uint ?sz = int (length ?blob)" using usz by (simp add: uint_nat)
  ultimately show ?thesis
    using al(2) [OF fb] files(3) fe al(1) rc(1) fb(1) fs_entry(2) [OF files(1,3) nm(1)]
    by (auto simp: uixfs_read_def fs_holds_def uixfs_release_buf_def)
qed

text \<open>
  Claim C4. Files are read back: an image packed by \<^verbatim>\<open>mkuixfs.py\<close> is mounted without error, and
  reading a packed name gives the length of the file and its bytes, in a buffer whose pages all go
  back when it is released.
\<close>

theorem uixfs_roundtrip:
  assumes "files_ok files" "mkuixfs files = Some img" and "blk_ready cap b" "disk (vdev b) = disk_of img" "16384 \<le> cap"
    and "length (sector f) = 512" "file_buf f = None" and "j < length files" "files ! j = (nm, blob)" "blob \<noteq> []" "cstr m na nm"
    and "pmm_inv p" "w + (length blob + 4095) div 4096 \<le> unat (bitmap_len p)" "free_window p w ((length blob + 4095) div 4096)"
  shows "\<exists>f1 b1 con1. uixfs_mount (f, b, con) = (0, f1, b1, con1) \<and>
    (\<exists>pa f2 b2 p2 f3 p3. uixfs_read m na (f1, b1, p, con1) = Some (Inr (int (length blob), Some pa, f2, b2, p2, con1)) \<and>
       get_bytes (length blob) (file_data f2) 0 = blob \<and>
       uixfs_release_buf (f2, p2) = Inr (f3, p3) \<and> free_set p3 = free_set p \<and> pmm_inv p3)"
proof -
  obtain f1 b1 con1 where m: "uixfs_mount (f, b, con) = (0, f1, b1, con1)" "fs_holds files f1" "blk_ready cap b1" "disk (vdev b1) = disk_of img" "file_buf f1 = file_buf f"
    using uixfs_mount_ok [OF assms(1-6)] assms(4) by metis
  have "blk_ready 16384 b1" using m(3) assms(5) by (rule blk_ready_mono)
  from uixfs_read_ok [OF assms(1,2) m(2) this m(4) _ assms(8), of m na p w con1] assms m(1,5)
  show ?thesis by simp
qed

text \<open>
  The refusals: before mounting the answer is -1, a name that is not packed gives -2, and
  an empty file gives -12 (no memory) however many pages are free, because a buffer of no pages
  cannot be allocated. Nothing changes, but for the page count of the buffer that is already 0.
\<close>

theorem uixfs_read_refuses:
  assumes files: "files_ok files" "fs_holds files f" and nm: "cstr m na nm" and buf: "file_buf f = None" and p: "pmm_inv p"
  shows "uixfs_read m na (f\<lparr>mounted := False\<rparr>, b, p, con) = Some (Inr (- 1, None, f\<lparr>mounted := False\<rparr>, b, p, con)) \<and>
    (nm \<notin> fst ` set files \<longrightarrow> uixfs_read m na (f, b, p, con) = Some (Inr (- 2, None, f, b, p, con))) \<and>
    ((nm, []) \<in> set files \<longrightarrow> uixfs_read m na (f, b, p, con) = Some (Inr (- 12, None, f\<lparr>file_buf_pages := 0\<rparr>, b, p, con)))"
proof (intro conjI impI)
  show "uixfs_read m na (f\<lparr>mounted := False\<rparr>, b, p, con) = Some (Inr (- 1, None, f\<lparr>mounted := False\<rparr>, b, p, con))"
    by (simp add: uixfs_read_def)
  have "find_entry (length files) (of_nat 0) m na f = Some (map_option of_nat (file_index 0 nm (drop 0 files)))"
    by (rule find_entry_index [OF files nm]) simp
  then have fe: "find_entry (unat (nfiles f)) 0 m na f = Some (map_option of_nat (file_index 0 nm files))" using files(2) by (simp add: fs_holds_def)
  show "uixfs_read m na (f, b, p, con) = Some (Inr (- 2, None, f, b, p, con))" if "nm \<notin> fst ` set files"
    using fe file_index_None [OF that, of 0] files(2) by (simp add: uixfs_read_def fs_holds_def)
  show "uixfs_read m na (f, b, p, con) = Some (Inr (- 12, None, f\<lparr>file_buf_pages := 0\<rparr>, b, p, con))" if "(nm, []) \<in> set files"
  proof -
    obtain j where j: "j < length files" "files ! j = (nm, [])" using \<open>(nm, []) \<in> set files\<close> by (auto simp: in_set_conv_nth)
    have "file_index 0 nm files = Some j" using file_index_nth [OF _ j(1), of 0] files(1) j(2) by (simp add: files_ok_def)
    moreover have "pmm_alloc_pages 0 p = (0, p)"
      using run_scan_0 [of 0 "unat (bitmap_len p)" 0 p] p by (simp add: pmm_alloc_pages_def pmm_inv_def word_le_nat_alt)
    moreover have "entry_size f (of_nat j) = 0" using fs_entry(2) [OF files j(1)] j(2) by simp
    ultimately show ?thesis using fe files(2) buf
      by (simp add: uixfs_read_def fs_holds_def file_buf_alloc_def file_buf_free_def UIX_PAGE_SIZE_def Let_def)
  qed
qed

section \<open>Example\<close>

definition fs_files :: "(u8 list \<times> u8 list) list" where
  "fs_files = [(bytes_of ''hello'', [1, 2, 3]), (bytes_of ''empty'', []), (bytes_of ''sh'', replicate 700 9)]"

definition fs_boot :: uixfs where
  "fs_boot = \<lparr>entries = \<lambda>_. 0, nfiles = 0, mounted = False, sector = replicate 512 0, file_buf = None, file_buf_pages = 0, file_data = \<lambda>_. 0\<rparr>"

definition fs_disk :: "u8 list \<Rightarrow> vblk" where
  "fs_disk img = (vblk_example 3)\<lparr>vdev := (vdev_example 3)\<lparr>disk := disk_of img\<rparr>\<rparr>"

lemma fs_files_ok: "files_ok fs_files"
  by (simp add: files_ok_def fs_files_def file_sectors_def round_sect_def SECT_def bytes_of_def)

lemma fs_disk_ready: "blk_ready 16384 (fs_disk img)" "disk (vdev (fs_disk img)) = disk_of img"
proof -
  have "blk_device 16384 (vdev (fs_disk img))" using blk_device_example [of 16384 3] by (simp add: fs_disk_def blk_device_def)
  moreover have "vblk_ok (fs_disk img)" using vblk_example_ok [of 3] by (simp add: fs_disk_def vblk_ok_def vblk_example_def vdev_example_def)
  ultimately show "blk_ready 16384 (fs_disk img)"
    by (simp add: blk_ready_def) (simp add: fs_disk_def vdev_example_def SPINS_def)
qed (simp add: fs_disk_def)

lemma cstr_lmem_hello: "cstr (lmem (bytes_of ''hello'')) 0 (bytes_of ''hello'')"
  by (simp add: bytes_of_def lmem_def)

theorem uixfs_roundtrip_witness:
  "\<exists>img f1 b1 con1 pa f2 b2 p2. mkuixfs fs_files = Some img \<and> uixfs_mount (fs_boot, fs_disk img, console_example) = (0, f1, b1, con1) \<and>
    uixfs_read (lmem (bytes_of ''hello'')) 0 (f1, b1, pmm_example, con1) = Some (Inr (3, Some pa, f2, b2, p2, con1)) \<and>
    get_bytes 3 (file_data f2) 0 = [1, 2, 3]"
proof -
  obtain img where img: "mkuixfs fs_files = Some img" using mkuixfs_image [OF fs_files_ok] by metis
  have w: "1 + (length [1, 2, 3 :: u8] + 4095) div 4096 \<le> unat (bitmap_len pmm_example)"
    "free_window pmm_example 1 ((length [1, 2, 3 :: u8] + 4095) div 4096)"
    by (code_simp, simp add: free_window_def, code_simp)
  have "length (sector fs_boot) = 512" "file_buf fs_boot = None" "0 < length fs_files" "fs_files ! 0 = (bytes_of ''hello'', [1, 2, 3])"
    by (simp_all add: fs_boot_def fs_files_def)
  from uixfs_roundtrip [OF fs_files_ok img fs_disk_ready _ this _ cstr_lmem_hello pmm_inv_example w, of console_example]
  obtain f1 b1 con1 pa f2 b2 p2 where "uixfs_mount (fs_boot, fs_disk img, console_example) = (0, f1, b1, con1)"
    "uixfs_read (lmem (bytes_of ''hello'')) 0 (f1, b1, pmm_example, con1) = Some (Inr (int (length [1, 2, 3 :: u8]), Some pa, f2, b2, p2, con1))"
    "get_bytes (length [1, 2, 3 :: u8]) (file_data f2) 0 = [1, 2, 3]" by auto
  moreover have "int (length [1, 2, 3 :: u8]) = 3" "length [1, 2, 3 :: u8] = 3" by simp_all
  ultimately show ?thesis using img by metis
qed

theorem uixfs_read_refuses_witness:
  "\<exists>f b con. uixfs_read (lmem (bytes_of ''hullo'')) 0 (f, b, pmm_example, con) = Some (Inr (- 2, None, f, b, pmm_example, con)) \<and>
    uixfs_read (lmem (bytes_of ''empty'')) 0 (f, b, pmm_example, con) = Some (Inr (- 12, None, f\<lparr>file_buf_pages := 0\<rparr>, b, pmm_example, con))"
proof -
  obtain img where img: "mkuixfs fs_files = Some img" using mkuixfs_image [OF fs_files_ok] by metis
  have "length (sector fs_boot) = 512" by (simp add: fs_boot_def)
  then obtain f b con where f: "fs_holds fs_files f" "file_buf f = file_buf fs_boot"
    using uixfs_mount_ok [OF fs_files_ok img fs_disk_ready, of fs_boot console_example] by auto
  then have buf: "file_buf f = None" by (simp add: fs_boot_def)
  have "cstr (lmem (bytes_of ''hullo'')) 0 (bytes_of ''hullo'')" "cstr (lmem (bytes_of ''empty'')) 0 (bytes_of ''empty'')"
    "bytes_of ''hullo'' \<notin> fst ` set fs_files" "(bytes_of ''empty'', []) \<in> set fs_files"
    by (simp_all add: bytes_of_def lmem_def fs_files_def)
  then show ?thesis
    using uixfs_read_refuses [OF fs_files_ok f(1) _ buf pmm_inv_example] by meson
qed

end
