(* ===== verification/Cpu.thy ===== *)
theory Cpu
  imports Sched
begin

text \<open>
  The assembly of the kernel (\<^verbatim>\<open>arch/x86_64/switch.S\<close>, \<^verbatim>\<open>arch/x86_64/cpu.S\<close>): the stack switch,
  the trampolines new tasks start in, the entry stubs of the interrupt vectors and the way back out
  of an interrupt. Instructions are functions on a register file and the byte memory of the kernel
  stacks; a stack is read as the list of the words from its pointer on.
\<close>

section \<open>Registers and stack\<close>

datatype reg = RAX | RCX | RDX | RBX | RBP | RSI | RDI | R8 | R9 | R10 | R11 | R12 | R13 | R14 | R15

record cpu =
  regs :: "reg \<Rightarrow> u64"
  rsp :: u64
  rip :: u64
  rflags :: u64
  cs :: u64
  ss :: u64
  dsegs :: u64
  cmem :: bytes

definition pushq :: "u64 \<Rightarrow> cpu \<Rightarrow> cpu" where
  "pushq v c = c\<lparr>rsp := rsp c - 8, cmem := put64 (rsp c - 8) v (cmem c)\<rparr>"

definition push_reg :: "reg \<Rightarrow> cpu \<Rightarrow> cpu" where
  "push_reg r c = pushq (regs c r) c"

definition popq :: "reg \<Rightarrow> cpu \<Rightarrow> cpu" where
  "popq r c = c\<lparr>regs := (regs c)(r := get64 (cmem c) (rsp c)), rsp := rsp c + 8\<rparr>"

definition movq :: "reg \<Rightarrow> reg \<Rightarrow> cpu \<Rightarrow> cpu" where
  "movq src dst c = c\<lparr>regs := (regs c)(dst := regs c src)\<rparr>"

definition ret :: "cpu \<Rightarrow> cpu" where
  "ret c = c\<lparr>rip := get64 (cmem c) (rsp c), rsp := rsp c + 8\<rparr>"

text \<open>Bit 9 of the flags register is the interrupt flag.\<close>

definition cli :: "cpu \<Rightarrow> cpu" where
  "cli c = c\<lparr>rflags := rflags c AND NOT (push_bit 9 1)\<rparr>"

text \<open>A return to another ring, or to the same one, in 64-bit mode.\<close>

definition iretq :: "cpu \<Rightarrow> cpu" where
  "iretq c = (let m = cmem c; sp = rsp c in
     c\<lparr>rip := get64 m sp, cs := get64 m (sp + 8), rflags := get64 m (sp + 16), rsp := get64 m (sp + 24), ss := get64 m (sp + 32)\<rparr>)"

section \<open>switch.S\<close>

text \<open>
  \<^verbatim>\<open>switch_to\<close>: the first result is what it stores through its first argument. The return address
  is on the stack already.
\<close>

definition switch_to :: "u64 \<Rightarrow> cpu \<Rightarrow> u64 \<times> cpu" where
  "switch_to next_rsp c =
     (let c = fold push_reg [RBP, RBX, R12, R13, R14, R15] c; saved = rsp c; c = c\<lparr>rsp := next_rsp\<rparr>
      in (saved, ret (fold popq [R15, R14, R13, R12, RBX, RBP] c)))"

text \<open>The part of \<^verbatim>\<open>task_entry_trampoline\<close> up to the call of the task's function.\<close>

definition task_entry_trampoline :: "u64 \<Rightarrow> cpu \<Rightarrow> cpu" where
  "task_entry_trampoline ret_here c =
     (let c = movq R13 RDI c in (pushq ret_here c)\<lparr>rip := regs c R12\<rparr>)"

definition user_enter :: "cpu \<Rightarrow> cpu" where
  "user_enter c =
     (let c = cli c; c = pushq 0x23 c; c = push_reg RSI c; c = push_reg RDX c; c = pushq 0x1B c; c = push_reg RDI c;
          c = c\<lparr>regs := (regs c)(RAX := (regs c RAX AND NOT 0xFFFF) OR 0x23), dsegs := 0x23\<rparr>
      in iretq c)"

definition user_launch_trampoline :: "u64 \<Rightarrow> cpu \<Rightarrow> cpu" where
  "user_launch_trampoline ret_here c =
     user_enter (pushq ret_here (movq R14 RDX (movq R13 RSI (movq R12 RDI c))))"

definition frame_regs :: "reg list" where
  "frame_regs = [RAX, RCX, RDX, RBX, RBP, RSI, RDI, R8, R9, R10, R11, R12, R13, R14, R15]"

text \<open>The epilogue of \<^verbatim>\<open>isr_common\<close> and, instruction for instruction, \<^verbatim>\<open>fork_child_stub\<close>.\<close>

definition isr_return :: "cpu \<Rightarrow> cpu" where
  "isr_return c = (let c = fold popq frame_regs c in iretq (c\<lparr>rsp := rsp c + 16\<rparr>))"

definition fork_child_stub :: "cpu \<Rightarrow> cpu" where
  "fork_child_stub c =
     (let c = fold popq [RAX, RCX, RDX, RBX, RBP, RSI, RDI, R8, R9, R10, R11, R12, R13, R14, R15] c
      in iretq (c\<lparr>rsp := rsp c + 16\<rparr>))"

section \<open>cpu.S: interrupt entry\<close>

text \<open>The vectors whose stub is declared with \<^verbatim>\<open>has_err\<close>.\<close>

definition stub_has_err :: "nat \<Rightarrow> bool" where
  "stub_has_err v \<longleftrightarrow> v \<in> {8, 10, 11, 12, 13, 14, 17}"

definition isr_stub :: "nat \<Rightarrow> cpu \<Rightarrow> cpu" where
  "isr_stub v c =
     (if v < 48 \<or> v = 128
      then let c = (if stub_has_err v then c else pushq 0 c) in pushq (of_nat v) c
      else pushq 0xFF (pushq 0 c))"

text \<open>\<^verbatim>\<open>isr_common\<close> up to the call; the frame handed to \<^verbatim>\<open>isr_dispatch\<close> is at the stack pointer.\<close>

definition isr_save :: "cpu \<Rightarrow> cpu" where
  "isr_save c = fold push_reg (rev frame_regs) c"

text \<open>
  What the processor does on an interrupt (not code of the kernel): from ring 3 it takes the stack
  pointer of the task state segment, aligns the stack to 16 bytes and stores where it came from;
  the exceptions 8, 10--14, 17, 21, 29 and 30 store an error code in addition.
\<close>

definition cpu_has_err :: "nat \<Rightarrow> bool" where
  "cpu_has_err v \<longleftrightarrow> v \<in> {8, 10, 11, 12, 13, 14, 17, 21, 29, 30}"

definition cpu_interrupt :: "nat \<Rightarrow> u64 \<Rightarrow> u64 \<Rightarrow> cpu \<Rightarrow> cpu" where
  "cpu_interrupt v err rsp0 c =
     (let sp = (if cs c AND 3 = 3 then rsp0 else rsp c) AND NOT 0xF;
          c' = fold pushq [ss c, rsp c, rflags c, cs c, rip c] (c\<lparr>rsp := sp\<rparr>);
          c' = (if cpu_has_err v then pushq err c' else c')
      in c'\<lparr>cs := 0x08, ss := 0, rflags := rflags c AND NOT (push_bit 9 1)\<rparr>)"

text \<open>\<^verbatim>\<open>struct iframe\<close> and its 22 words in memory.\<close>

record iframe =
  f_regs :: "reg \<Rightarrow> u64"
  int_no :: u64
  err :: u64
  f_rip :: u64
  f_cs :: u64
  f_rflags :: u64
  f_rsp :: u64
  f_ss :: u64

fun words :: "nat \<Rightarrow> bytes \<Rightarrow> u64 \<Rightarrow> u64 list" where
  "words 0 m a = []"
| "words (Suc n) m a = get64 m a # words n m (a + 8)"

definition frame_words :: "iframe \<Rightarrow> u64 list" where
  "frame_words f = map (f_regs f) frame_regs @ [int_no f, err f, f_rip f, f_cs f, f_rflags f, f_rsp f, f_ss f]"

fun put_words :: "u64 \<Rightarrow> u64 list \<Rightarrow> bytes \<Rightarrow> bytes" where
  "put_words a [] m = m"
| "put_words a (v # vs) m = put_words (a + 8) vs (put64 a v m)"

section \<open>Words of a stack\<close>

lemma pushq_simps [simp]:
  "rsp (pushq v c) = rsp c - 8" "regs (pushq v c) = regs c" "rip (pushq v c) = rip c" "rflags (pushq v c) = rflags c"
  "cs (pushq v c) = cs c" "ss (pushq v c) = ss c" "dsegs (pushq v c) = dsegs c"
  by (simp_all add: pushq_def)

lemma words_length [simp]: "length (words n m a) = n"
  by (induction n arbitrary: a) simp_all

lemma words_numeral: "words (numeral k) m a = get64 m a # words (pred_numeral k) m (a + 8)"
  by (simp add: numeral_eq_Suc)

lemma apart_word:
  assumes "8 \<le> unat (b - a)" "unat (b - a) \<le> 2 ^ 64 - 8"
  shows "apart 8 a 8 (b :: u64)"
proof -
  have "b \<noteq> a" using assms(1) by auto
  then have "unat (a - b) = 2 ^ 64 - unat (b - a)"
    by (auto simp: unat_sub_if' word_unat_eq_iff) (use unat_lt_64_num [of a] unat_lt_64_num [of b] in linarith)+
  then show ?thesis using assms by (simp add: apart_def)
qed

lemma words_put_before:
  assumes "8 \<le> unat (a - x)" "unat (a - x) + 8 * n \<le> 2 ^ 64"
  shows "words n (put64 x v m) a = words n m a"
  using assms
proof (induction n arbitrary: a)
  case (Suc n)
  have "unat (a + 8 - x) = unat (a - x) + 8" if "0 < n" using unat_offset [of a x 8] Suc.prems that by simp
  moreover have "words n (put64 x v m) (a + 8) = words n m (a + 8)" if "0 < n"
    using Suc.IH [of "a + 8"] Suc.prems calculation [OF that] by simp
  ultimately have "words n (put64 x v m) (a + 8) = words n m (a + 8)" by (cases n) simp_all
  moreover have "apart 8 x 8 a" using Suc.prems by (intro apart_word) simp_all
  ultimately show ?case by (simp add: get_put_other)
qed simp

lemma words_push:
  assumes "8 * (Suc n) \<le> 2 ^ 64"
  shows "words (Suc n) (put64 (sp - 8) v m) (sp - 8) = v # words n m sp"
proof -
  have "unat (sp - (sp - 8)) = 8" by simp
  then show ?thesis using words_put_before [of sp "sp - 8" n v m] assms by simp
qed

lemma words_pushq:
  assumes "8 * Suc n \<le> 2 ^ 64"
  shows "words (Suc n) (cmem (pushq v c)) (rsp (pushq v c)) = v # words n (cmem c) (rsp c)"
  using words_push [OF assms, of "rsp c" v "cmem c"] by (simp add: pushq_def)

lemma words_append: "words (n + k) m a = words n m a @ words k m (a + of_nat (8 * n))"
  by (induction n arbitrary: a) (simp_all add: algebra_simps)

lemma words_nth: "i < n \<Longrightarrow> words n m a ! i = get64 m (a + of_nat (8 * i))"
proof (induction n arbitrary: a i)
  case (Suc n)
  then show ?case by (cases i) (simp_all add: algebra_simps)
qed simp

lemma put_words_before:
  assumes "8 \<le> unat (a - x)" "unat (a - x) + 8 * length vs \<le> 2 ^ 64"
  shows "get64 (put_words a vs m) x = get64 m x"
  using assms
proof (induction vs arbitrary: a m)
  case (Cons v vs)
  have ap: "apart 8 a 8 x"
    using apart_word [of a x] Cons.prems by (simp add: apart_def)
  show ?case
  proof (cases vs)
    case Nil
    then show ?thesis using ap by (simp add: get_put_other)
  next
    case (Cons u us)
    have "unat (a + 8 - x) = unat (a - x) + 8" using unat_offset [of a x 8] Cons.prems Cons by simp
    then have "get64 (put_words (a + 8) vs (put64 a v m)) x = get64 (put64 a v m) x"
      using Cons.IH [of "a + 8"] Cons.prems by simp
    then show ?thesis using ap by (simp add: get_put_other)
  qed
qed simp

lemma words_put_words:
  assumes "8 * length vs \<le> 2 ^ 64"
  shows "words (length vs) (put_words a vs m) a = vs"
  using assms
proof (induction vs arbitrary: a m)
  case (Cons v vs)
  have "get64 (put_words (a + 8) vs (put64 a v m)) a = v"
    using put_words_before [of "a + 8" a vs "put64 a v m"] Cons.prems by simp
  then show ?case using Cons by simp
qed simp

lemma words_put_apart:
  assumes "apart 8 x (8 * n) a"
  shows "words n (put64 x v m) a = words n m a"
proof (rule nth_equalityI)
  fix i assume "i < length (words n (put64 x v m) a)"
  then have i: "i < n" by simp
  have "apart 8 (x + of_nat 0) 8 (a + of_nat (8 * i))" by (rule apart_fields [OF assms]) (use i in simp_all)
  then show "words n (put64 x v m) a ! i = words n m a ! i" using i by (simp add: words_nth get_put_other)
qed simp

lemma words_cong:
  assumes "\<And>z. unat (z - a) < 8 * n \<Longrightarrow> m z = m' z" and "8 * n \<le> 2 ^ 64"
  shows "words n m a = words n m' a"
  using assms
proof (induction n arbitrary: a)
  case (Suc n)
  have "get64 m a = get64 m' a" by (rule get_cong) (use Suc.prems in simp)
  moreover have "m z = m' z" if z: "unat (z - (a + 8)) < 8 * n" for z
  proof (rule Suc.prems(1))
    have "unat (z - (a + 8)) + 8 < 2 ^ 64" using z Suc.prems(2) by simp
    then have "unat (z + of_nat 8 - (a + 8)) = unat (z - (a + 8)) + 8" by (rule unat_offset)
    then show "unat (z - a) < 8 * Suc n" using z by (simp add: algebra_simps)
  qed
  ultimately show ?case using Suc by simp
qed simp

section \<open>Pushing and popping register lists\<close>

fun load_regs :: "reg list \<Rightarrow> u64 list \<Rightarrow> (reg \<Rightarrow> u64) \<Rightarrow> reg \<Rightarrow> u64" where
  "load_regs (r # rs) (v # vs) f = load_regs rs vs (f(r := v))"
| "load_regs _ _ f = f"

lemma pops_words:
  "fold popq rs c = c\<lparr>regs := load_regs rs (words (length rs) (cmem c) (rsp c)) (regs c), rsp := rsp c + of_nat (8 * length rs)\<rparr>"
  by (induction rs arbitrary: c) (simp_all add: popq_def algebra_simps)

lemma pushes_simps [simp]:
  "rsp (fold pushq vs c) = rsp c - of_nat (8 * length vs)" "regs (fold pushq vs c) = regs c" "rip (fold pushq vs c) = rip c"
  "rflags (fold pushq vs c) = rflags c" "cs (fold pushq vs c) = cs c" "ss (fold pushq vs c) = ss c"
  "dsegs (fold pushq vs c) = dsegs c"
  by (induction vs arbitrary: c) (simp_all add: pushq_def)

lemma pushes_words:
  "8 * (length vs + n) \<le> 2 ^ 64 \<Longrightarrow>
   words (length vs + n) (cmem (fold pushq vs c)) (rsp (fold pushq vs c)) = rev vs @ words n (cmem c) (rsp c)"
proof (induction vs arbitrary: c n)
  case (Cons v vs)
  have "words (length vs + Suc n) (cmem (fold pushq vs (pushq v c))) (rsp (fold pushq vs (pushq v c))) =
      rev vs @ words (Suc n) (cmem (pushq v c)) (rsp (pushq v c))"
    by (rule Cons.IH) (use Cons.prems in simp)
  moreover have "words (Suc n) (cmem (pushq v c)) (rsp (pushq v c)) = v # words n (cmem c) (rsp c)"
    by (rule words_pushq) (use Cons.prems in simp)
  ultimately show ?case by simp
qed simp

lemma push_regs_eq: "fold push_reg rs c = fold pushq (map (regs c) rs) c"
proof (induction rs arbitrary: c)
  case (Cons r rs)
  have "regs (pushq (regs c r) c) = regs c" by (simp add: pushq_def)
  then show ?case using Cons by (simp add: push_reg_def)
qed simp

lemma pushes_apart:
  assumes "apart (8 * length vs) (rsp c - of_nat (8 * length vs)) (8 * n) a" "8 * length vs < 2 ^ 64" "0 < n"
  shows "words n (cmem (fold pushq vs c)) a = words n (cmem c) a"
  using assms
proof (induction vs arbitrary: c)
  case (Cons v vs)
  let ?k = "length vs"
  have sp: "rsp (pushq v c) - of_nat (8 * ?k) = rsp c - of_nat (8 * length (v # vs)) + of_nat 0"
    by (simp add: pushq_def algebra_simps)
  have "words n (cmem (fold pushq vs (pushq v c))) a = words n (cmem (pushq v c)) a"
  proof (cases "vs = []")
    case False
    have "apart (8 * ?k) (rsp c - of_nat (8 * length (v # vs)) + of_nat 0) (8 * n) (a + of_nat 0)"
      by (rule apart_fields [OF Cons.prems(1)]) (use Cons.prems False in simp_all)
    then have "apart (8 * ?k) (rsp (pushq v c) - of_nat (8 * ?k)) (8 * n) a" unfolding sp by simp
    then show ?thesis by (rule Cons.IH) (use Cons.prems in simp_all)
  qed simp
  note tail = this
  have "apart 8 (rsp c - of_nat (8 * length (v # vs)) + of_nat (8 * ?k)) (8 * n) (a + of_nat 0)"
    by (rule apart_fields [OF Cons.prems(1)]) (use Cons.prems in simp_all)
  moreover have "rsp c - of_nat (8 * length (v # vs)) + of_nat (8 * ?k) = rsp c - 8" by (simp add: algebra_simps)
  ultimately have "words n (cmem (pushq v c)) a = words n (cmem c) a"
    using words_put_apart [of "rsp c - 8" n a v "cmem c"] by (simp add: pushq_def)
  then show ?case using tail by simp
qed simp

section \<open>The stack switch\<close>

definition callee_saved :: "reg list" where
  "callee_saved = [RBP, RBX, R12, R13, R14, R15]"

lemma switch_to_eq:
  "switch_to nxt c = (let c' = fold pushq (map (regs c) callee_saved) c; vs = words 7 (cmem c') nxt in
     (rsp c - 48, c'\<lparr>regs := load_regs (rev callee_saved) vs (regs c), rip := vs ! 6, rsp := nxt + 56\<rparr>))"
proof -
  let ?c = "fold pushq (map (regs c) callee_saved) c"
  have c6: "length callee_saved = 6" by (simp add: callee_saved_def)
  have rv: "rev callee_saved = [R15, R14, R13, R12, RBX, RBP]" by (simp add: callee_saved_def)
  from c6 have r: "rsp ?c = rsp c - 48" by simp
  have w: "words 7 m a = words 6 m a @ [get64 m (a + 48)]" for m a
    using words_append [of 6 1 m a] by simp
  have l: "load_regs (rev callee_saved) (words 7 m a) g = load_regs (rev callee_saved) (words 6 m a) g" for m a g
    by (simp add: callee_saved_def eval_nat_numeral)
  show ?thesis
    unfolding switch_to_def push_regs_eq Let_def callee_saved_def [symmetric] pops_words l
    by (simp add: ret_def r w nth_append) (simp add: rv c6 words_numeral algebra_simps)
qed

lemma load_callee_saved:
  "load_regs (rev callee_saved) (rev (map g callee_saved) @ vs) f r = (if r \<in> set callee_saved then g r else f r)"
  by (simp add: callee_saved_def)

text \<open>
  Claim C13. Switching away and back is invisible to a task: if \<^verbatim>\<open>switch_to\<close> leaves a task, and later
  (the seven words it left on its stack untouched, the stack then in use elsewhere) another
  \<^verbatim>\<open>switch_to\<close> goes to the stack pointer stored for the task, the task continues behind its call with
  its own stack pointer and with all the registers the calling convention preserves.
\<close>

theorem switch_to_roundtrip:
  assumes "switch_to nxt c = (saved, c1)"
    and same: "\<And>z. unat (z - saved) < 56 \<Longrightarrow> cmem d z = cmem c1 z"
    and "apart 48 (rsp d - 48) 56 saved"
  shows "\<exists>saved' e. switch_to saved d = (saved', e) \<and> rsp e = rsp c + 8 \<and> rip e = get64 (cmem c) (rsp c) \<and>
    (\<forall>r\<in>set callee_saved. regs e r = regs c r)"
proof -
  let ?c = "fold pushq (map (regs c) callee_saved) c" and ?d = "fold pushq (map (regs d) callee_saved) d"
  have len: "length (map (regs x) callee_saved) = 6" for x :: cpu by (simp add: callee_saved_def)
  have c1: "saved = rsp c - 48" "cmem c1 = cmem ?c" using assms(1) by (auto simp: switch_to_eq Let_def)
  have rc: "rsp ?c = saved" using c1(1) len [of c] by simp
  have "words 7 (cmem ?d) saved = words 7 (cmem d) saved"
    using pushes_apart [of "map (regs d) callee_saved" d 7 saved] assms(3) len [of d] by simp
  also have "\<dots> = words 7 (cmem ?c) (rsp ?c)" unfolding rc using same c1(2) by (intro words_cong) simp_all
  also have "\<dots> = rev (map (regs c) callee_saved) @ [get64 (cmem c) (rsp c)]"
    using pushes_words [of "map (regs c) callee_saved" 1 c] len [of c] by (simp add: words_numeral)
  finally have w: "words 7 (cmem ?d) saved = rev (map (regs c) callee_saved) @ [get64 (cmem c) (rsp c)]" .
  have n: "(rev (map (regs c) callee_saved) @ [x]) ! 6 = x" for x using len [of c] by (metis length_rev nth_append_length)
  show ?thesis
    unfolding switch_to_eq Let_def w n using c1(1) load_callee_saved [of "regs c" "[get64 (cmem c) (rsp c)]"] by simp
qed

section \<open>First run of a task\<close>

text \<open>The words a fresh kernel stack starts with.\<close>

lemma switch_frame_words:
  assumes "switch_frame r r12 r13 r14 sp m = (sp', m')" "8 * (7 + n) \<le> 2 ^ 64"
  shows "sp' = sp - 56" "words (7 + n) m' sp' = [0, r14, r13, r12, 0, 0, r] @ words n m sp"
proof -
  have f: "fold push64 vs (a, b) = (let c = fold pushq vs \<lparr>regs = g, rsp = a, rip = 0, rflags = 0, cs = 0, ss = 0, dsegs = 0, cmem = b\<rparr>
      in (rsp c, cmem c))" for vs a b g
    by (induction vs arbitrary: a b) (simp_all add: pushq_def Let_def)
  define vs where "vs = [r, 0, 0, r12, r13, r14, 0]"
  let ?c = "\<lparr>regs = \<lambda>_. 0, rsp = sp, rip = 0, rflags = 0, cs = 0, ss = 0, dsegs = 0, cmem = m\<rparr>"
  have vs: "length vs = 7" "rev vs = [0, r14, r13, r12, 0, 0, r]" by (simp_all add: vs_def)
  have e: "sp' = rsp (fold pushq vs ?c)" "m' = cmem (fold pushq vs ?c)"
    using assms(1) unfolding switch_frame_def vs_def [symmetric] f [of _ _ _ "\<lambda>_. 0"] Let_def by simp_all
  show "sp' = sp - 56" unfolding e by (simp add: vs)
  show "words (7 + n) m' sp' = [0, r14, r13, r12, 0, 0, r] @ words n m sp"
    using pushes_words [of vs n ?c] assms(2) unfolding e vs by simp
qed

text \<open>Going to a stack whose words are known.\<close>

lemma switch_to_words:
  assumes "words 7 (cmem c) nxt = [v15, v14, v13, v12, vbx, vbp, r]" "apart 48 (rsp c - 48) 56 nxt"
  shows "\<exists>c'. switch_to nxt c = (rsp c - 48, c') \<and> rip c' = r \<and> rsp c' = nxt + 56 \<and>
    regs c' = (regs c)(R15 := v15, R14 := v14, R13 := v13, R12 := v12, RBX := vbx, RBP := vbp) \<and>
    (\<forall>n a. 0 < n \<longrightarrow> apart 48 (rsp c - 48) (8 * n) a \<longrightarrow> words n (cmem c') a = words n (cmem c) a)"
proof -
  let ?c = "fold pushq (map (regs c) callee_saved) c"
  have len: "length (map (regs c) callee_saved) = 6" and rv: "rev callee_saved = [R15, R14, R13, R12, RBX, RBP]"
    by (simp_all add: callee_saved_def)
  have k: "words n (cmem ?c) a = words n (cmem c) a" if "0 < n" "apart 48 (rsp c - 48) (8 * n) a" for n a
    using pushes_apart [of "map (regs c) callee_saved" c n a] that len by simp
  have "words 7 (cmem ?c) nxt = [v15, v14, v13, v12, vbx, vbp, r]" using k [of 7 nxt] assms by simp
  then show ?thesis unfolding switch_to_eq Let_def using k by (simp add: rv)
qed

lemma user_enter_state:
  "rip (user_enter c) = regs c RDI" "cs (user_enter c) = 0x1B" "rflags (user_enter c) = regs c RDX"
  "rsp (user_enter c) = regs c RSI" "ss (user_enter c) = 0x23" "dsegs (user_enter c) = 0x23"
proof -
  let ?vs = "[0x23, regs c RSI, regs c RDX, 0x1B, regs c RDI]"
  let ?c = "fold pushq ?vs (cli c)"
  have w: "words 5 (cmem ?c) (rsp ?c) = rev ?vs" using pushes_words [of ?vs 0 "cli c"] by (simp add: words_numeral)
  have e: "user_enter c = iretq (?c\<lparr>regs := (regs c)(RAX := (regs c RAX AND NOT 0xFFFF) OR 0x23), dsegs := 0x23\<rparr>)"
    by (simp add: user_enter_def Let_def push_reg_def pushq_def cli_def)
  have "get64 (cmem ?c) (rsp ?c) = regs c RDI" "get64 (cmem ?c) (rsp ?c + 8) = 0x1B" "get64 (cmem ?c) (rsp ?c + 16) = regs c RDX"
    "get64 (cmem ?c) (rsp ?c + 24) = regs c RSI" "get64 (cmem ?c) (rsp ?c + 32) = 0x23"
    using w by (simp_all add: words_numeral algebra_simps)
  then show "rip (user_enter c) = regs c RDI" "cs (user_enter c) = 0x1B" "rflags (user_enter c) = regs c RDX"
    "rsp (user_enter c) = regs c RSI" "ss (user_enter c) = 0x23" "dsegs (user_enter c) = 0x23"
    unfolding e by (simp_all add: iretq_def Let_def)
qed

lemma user_launch_state:
  "rip (user_launch_trampoline x c) = regs c R12" "rsp (user_launch_trampoline x c) = regs c R13"
  "rflags (user_launch_trampoline x c) = regs c R14" "cs (user_launch_trampoline x c) = 0x1B"
  "ss (user_launch_trampoline x c) = 0x23"
  by (simp_all add: user_launch_trampoline_def user_enter_state pushq_def movq_def)

section \<open>Interrupts\<close>

lemma load_frame_regs: "load_regs frame_regs (map f frame_regs @ vs) g = f"
  by (rule ext) (case_tac x; simp add: frame_regs_def)

lemma isr_return_frame:
  assumes "words 22 (cmem c) (rsp c) = frame_words f"
  shows "isr_return c = c\<lparr>regs := f_regs f, rip := f_rip f, cs := f_cs f, rflags := f_rflags f, rsp := f_rsp f, ss := f_ss f\<rparr>"
proof -
  have l: "length frame_regs = 15" by (simp add: frame_regs_def)
  have w: "words (15 + 7) (cmem c) (rsp c) = words 15 (cmem c) (rsp c) @ words 7 (cmem c) (rsp c + 120)"
    unfolding words_append by simp
  then have a: "words 15 (cmem c) (rsp c) = map (f_regs f) frame_regs"
    and b: "words 7 (cmem c) (rsp c + 120) = [int_no f, err f, f_rip f, f_cs f, f_rflags f, f_rsp f, f_ss f]"
    using assms l unfolding frame_words_def by (simp_all add: append_eq_append_conv)
  have "load_regs frame_regs (words 15 (cmem c) (rsp c)) (regs c) = f_regs f"
    using load_frame_regs [of "f_regs f" "[]" "regs c"] unfolding a by simp
  moreover have "get64 (cmem c) (rsp c + 136) = f_rip f" "get64 (cmem c) (rsp c + 144) = f_cs f"
    "get64 (cmem c) (rsp c + 152) = f_rflags f" "get64 (cmem c) (rsp c + 160) = f_rsp f" "get64 (cmem c) (rsp c + 168) = f_ss f"
    using b by (simp_all add: words_numeral algebra_simps)
  ultimately show ?thesis by (simp add: isr_return_def pops_words l iretq_def Let_def algebra_simps)
qed

lemma fork_child_stub_is_isr_return: "fork_child_stub = isr_return"
  by (rule ext) (simp add: fork_child_stub_def isr_return_def frame_regs_def)

text \<open>The frame \<^verbatim>\<open>isr_dispatch\<close> sees.\<close>

definition interrupt_frame :: "nat \<Rightarrow> u64 \<Rightarrow> cpu \<Rightarrow> iframe" where
  "interrupt_frame v e c = \<lparr>f_regs = regs c, int_no = of_nat v, err = (if cpu_has_err v then e else 0),
     f_rip = rip c, f_cs = cs c, f_rflags = rflags c, f_rsp = rsp c, f_ss = ss c\<rparr>"

lemma pushes_upd: "fold pushq vs (c\<lparr>cs := x, ss := y, rflags := z\<rparr>) = (fold pushq vs c)\<lparr>cs := x, ss := y, rflags := z\<rparr>"
proof (induction vs arbitrary: c)
  case (Cons v vs)
  have "pushq v (c\<lparr>cs := x, ss := y, rflags := z\<rparr>) = (pushq v c)\<lparr>cs := x, ss := y, rflags := z\<rparr>"
    by (cases c) (simp add: pushq_def)
  then show ?case using Cons by simp
qed simp

definition entry_pushes :: "nat \<Rightarrow> u64 \<Rightarrow> cpu \<Rightarrow> u64 list" where
  "entry_pushes v e c = [ss c, rsp c, rflags c, cs c, rip c] @ (if cpu_has_err v then [e] else []) @
     (if stub_has_err v then [] else [0]) @ [of_nat v] @ map (regs c) (rev frame_regs)"

lemma isr_entry_eq:
  assumes "v < 48 \<or> v = 128"
  shows "\<exists>sp fl. isr_save (isr_stub v (cpu_interrupt v e rsp0 c)) =
    (fold pushq (entry_pushes v e c) (c\<lparr>rsp := sp\<rparr>))\<lparr>cs := 0x08, ss := 0, rflags := fl\<rparr>"
proof -
  define sp where "sp = (if cs c AND 3 = 3 then rsp0 else rsp c) AND NOT 0xF"
  define fl where "fl = rflags c AND NOT (push_bit 9 1)"
  let ?L = "[ss c, rsp c, rflags c, cs c, rip c] @ (if cpu_has_err v then [e] else [])"
  have a: "cpu_interrupt v e rsp0 c = (fold pushq ?L (c\<lparr>rsp := sp\<rparr>))\<lparr>cs := 0x08, ss := 0, rflags := fl\<rparr>"
    by (simp add: cpu_interrupt_def Let_def sp_def fl_def)
  let ?M = "(if stub_has_err v then [] else [0]) @ [of_nat v]"
  have b: "isr_stub v d = fold pushq ?M d" for d using assms by (simp add: isr_stub_def Let_def)
  have r: "regs (fold pushq ?M ((fold pushq ?L (c\<lparr>rsp := sp\<rparr>))\<lparr>cs := 0x08, ss := 0, rflags := fl\<rparr>)) = regs c"
    unfolding pushes_simps by simp
  have "isr_save (isr_stub v (cpu_interrupt v e rsp0 c)) =
      (fold pushq (?L @ ?M @ map (regs c) (rev frame_regs)) (c\<lparr>rsp := sp\<rparr>))\<lparr>cs := 0x08, ss := 0, rflags := fl\<rparr>"
    unfolding isr_save_def push_regs_eq b a r unfolding pushes_upd fold_append comp_apply ..
  moreover have "?L @ ?M @ map (regs c) (rev frame_regs) = entry_pushes v e c" by (simp add: entry_pushes_def)
  ultimately show ?thesis by metis
qed

lemma isr_entry_words:
  assumes v: "v < 48 \<or> v = 128" and c1: "c1 = isr_save (isr_stub v (cpu_interrupt v e rsp0 c))"
  shows "words 22 (cmem c1) (rsp c1) = take 22 (rev (entry_pushes v e c))" "regs c1 = regs c" "rip c1 = rip c"
proof -
  obtain sp fl where eq: "c1 = (fold pushq (entry_pushes v e c) (c\<lparr>rsp := sp\<rparr>))\<lparr>cs := 0x08, ss := 0, rflags := fl\<rparr>"
    using isr_entry_eq [OF v, of e rsp0 c] c1 by blast
  let ?n = "length (entry_pushes v e c)"
  have se: "stub_has_err v \<Longrightarrow> cpu_has_err v" by (auto simp: stub_has_err_def cpu_has_err_def)
  have n: "22 \<le> ?n" "?n \<le> 23" using se by (auto simp: entry_pushes_def frame_regs_def)
  have "words ?n (cmem c1) (rsp c1) = rev (entry_pushes v e c)"
    using pushes_words [of "entry_pushes v e c" 0 "c\<lparr>rsp := sp\<rparr>"] n unfolding eq by simp
  moreover have "words ?n (cmem c1) (rsp c1) = words 22 (cmem c1) (rsp c1) @ words (?n - 22) (cmem c1) (rsp c1 + of_nat (8 * 22))"
    using words_append [of 22 "?n - 22" "cmem c1" "rsp c1"] n by simp
  ultimately show "words 22 (cmem c1) (rsp c1) = take 22 (rev (entry_pushes v e c))"
    by (metis append_eq_conv_conj words_length)
  show "regs c1 = regs c" "rip c1 = rip c" by (simp_all add: eq)
qed

lemma frame_words_length [simp]: "length (frame_words f) = 22"
  by (simp add: frame_words_def frame_regs_def)

lemma frame_words_rax: "frame_words (f\<lparr>f_regs := (f_regs f)(RAX := r)\<rparr>) = (frame_words f)[0 := r]"
  by (simp add: frame_words_def frame_regs_def)

lemma entry_frame:
  assumes "v \<notin> {21, 29, 30}"
  shows "rev (entry_pushes v e c) = frame_words (interrupt_frame v e c)"
proof -
  have "stub_has_err v \<longleftrightarrow> cpu_has_err v" using assms by (auto simp: stub_has_err_def cpu_has_err_def)
  then show ?thesis by (simp add: entry_pushes_def frame_words_def interrupt_frame_def rev_map)
qed

lemma words_set_first:
  assumes "words (Suc n) m a = vs" "8 * Suc n \<le> 2 ^ 64"
  shows "words (Suc n) (put64 a r m) a = vs[0 := r]"
proof -
  have "words n (put64 a r m) (a + 8) = words n m (a + 8)" by (rule words_put_before) (use assms(2) in simp_all)
  then show ?thesis using assms(1) by auto
qed

text \<open>
  Claim C12. An interrupt or system call is transparent: for every vector the kernel has a stub of
  its own for, except 21, 29 and 30, the frame \<^verbatim>\<open>isr_dispatch\<close> sees holds the interrupted state; and
  when the handler stores a result in the frame's \<^verbatim>\<open>rax\<close>, the way back restores every register, the
  flags, the stack and the instruction pointer of the interrupted code, with \<^verbatim>\<open>rax\<close> the result.
\<close>

theorem interrupt_roundtrip:
  assumes v: "v < 48 \<or> v = 128" "v \<notin> {21, 29, 30}" and c1: "c1 = isr_save (isr_stub v (cpu_interrupt v e rsp0 c))"
    and c2: "c2 = isr_return (c1\<lparr>cmem := put64 (rsp c1) r (cmem c1)\<rparr>)"
  shows "words 22 (cmem c1) (rsp c1) = frame_words (interrupt_frame v e c) \<and> regs c2 = (regs c)(RAX := r) \<and>
    rip c2 = rip c \<and> rsp c2 = rsp c \<and> rflags c2 = rflags c \<and> cs c2 = cs c \<and> ss c2 = ss c"
proof -
  let ?f = "interrupt_frame v e c"
  have "take 22 (frame_words ?f) = frame_words ?f" by simp
  then have w: "words 22 (cmem c1) (rsp c1) = frame_words ?f"
    using isr_entry_words(1) [OF v(1) c1] unfolding entry_frame [OF v(2)] by simp
  then have "words (Suc 21) (put64 (rsp c1) r (cmem c1)) (rsp c1) = (frame_words ?f)[0 := r]"
    by (intro words_set_first) simp_all
  then have "words 22 (put64 (rsp c1) r (cmem c1)) (rsp c1) = frame_words (?f\<lparr>f_regs := (f_regs ?f)(RAX := r)\<rparr>)"
    unfolding frame_words_rax by simp
  then have "c2 = (let f = ?f\<lparr>f_regs := (f_regs ?f)(RAX := r)\<rparr>; d = c1\<lparr>cmem := put64 (rsp c1) r (cmem c1)\<rparr> in
      d\<lparr>regs := f_regs f, rip := f_rip f, cs := f_cs f, rflags := f_rflags f, rsp := f_rsp f, ss := f_ss f\<rparr>)"
    unfolding c2 Let_def by (intro isr_return_frame) simp
  then show ?thesis using w by (simp add: interrupt_frame_def)
qed

text \<open>
  Claim C34. For the exceptions 21, 29 and 30 the processor stores an error code, but the stub stores
  a second one: everything above it in the frame is off by one, and the return jumps to the address
  given by the error code.
\<close>

theorem isr_missing_error_codes:
  assumes v: "v \<in> {21, 29, 30}" and c1: "c1 = isr_save (isr_stub v (cpu_interrupt v e rsp0 c))"
  shows "rip (isr_return c1) = e \<and> cs (isr_return c1) = rip c"
proof -
  have lt: "v < 48 \<or> v = 128" using v by auto
  define f where "f = \<lparr>f_regs = regs c, int_no = of_nat v, err = 0, f_rip = e, f_cs = rip c, f_rflags = cs c, f_rsp = rflags c, f_ss = rsp c\<rparr>"
  have "cpu_has_err v" "\<not> stub_has_err v" using v by (auto simp: stub_has_err_def cpu_has_err_def)
  then have "take 22 (rev (entry_pushes v e c)) = frame_words f"
    by (simp add: entry_pushes_def frame_words_def frame_regs_def f_def)
  then have "words 22 (cmem c1) (rsp c1) = frame_words f" using isr_entry_words(1) [OF lt c1] by simp
  from isr_return_frame [OF this] show ?thesis by (simp add: f_def)
qed

definition cpu_example :: cpu where
  "cpu_example = \<lparr>regs = \<lambda>_. 7, rsp = 0x7FFFF0, rip = 0x400010, rflags = 0x202, cs = 0x1B, ss = 0x23, dsegs = 0x23, cmem = \<lambda>_. 0\<rparr>"

theorem switch_to_roundtrip_witness:
  "\<exists>saved c1 saved' e. switch_to 0x9000 (cpu_example\<lparr>rsp := 0x5000\<rparr>) = (saved, c1) \<and>
    switch_to saved c1 = (saved', e) \<and> rsp e = 0x5008 \<and> regs e R12 = 7"
proof -
  let ?c = "cpu_example\<lparr>rsp := 0x5000\<rparr>"
  obtain saved c1 where s: "switch_to 0x9000 ?c = (saved, c1)" by fastforce
  have r: "saved = 0x5000 - 48" "rsp c1 = 0x9038" using s by (auto simp: switch_to_eq Let_def)
  have "apart 48 (rsp c1 - 48) 56 saved" unfolding r by (simp add: apart_def)
  from switch_to_roundtrip [OF s _ this] show ?thesis using s by (simp add: callee_saved_def cpu_example_def) blast
qed

theorem interrupt_roundtrip_witness:
  "\<exists>c1 c2. c1 = isr_save (isr_stub 128 (cpu_interrupt 128 0 0x5000 cpu_example)) \<and>
    c2 = isr_return (c1\<lparr>cmem := put64 (rsp c1) 3 (cmem c1)\<rparr>) \<and> regs c2 RAX = 3 \<and> regs c2 RBX = 7 \<and> rip c2 = 0x400010"
  using interrupt_roundtrip [of 128 _ 0 "0x5000" cpu_example _ 3] by (simp add: cpu_example_def)

theorem isr_missing_error_codes_witness:
  "rip (isr_return (isr_save (isr_stub 21 (cpu_interrupt 21 1 0x5000 cpu_example)))) = 1"
  using isr_missing_error_codes [of 21 _ 1 "0x5000" cpu_example] by simp

end
