(* ===== verification/Idt.thy ===== *)
theory Idt
  imports Cpu
begin

text \<open>
  The descriptor tables (\<^verbatim>\<open>core/cpu/idt.c\<close>): the GDT with the kernel and user segments, the task
  state segment, and the interrupt gates. What the processor reads from them is stated next to
  what the code stores. The dispatch of interrupts is in \<^theory_text>\<open>Trap\<close>.
\<close>

section \<open>The tables\<close>

definition K_CS :: u16 where "K_CS = 0x08"
definition K_DS :: u16 where "K_DS = 0x10"
definition U_CS :: u16 where "U_CS = 0x18"
definition U_DS :: u16 where "U_DS = 0x20"
definition TSS_SEL :: u16 where "TSS_SEL = 0x28"
definition IST_DF :: nat where "IST_DF = 0"
definition IST_NMI :: nat where "IST_NMI = 1"
definition IST_PF :: nat where "IST_PF = 2"
definition IST_STACK_SIZE :: u64 where "IST_STACK_SIZE = 16384"

record gate =
  off_lo :: u16
  gsel :: u16
  gist :: u8
  gflags :: u8
  off_mid :: u16
  off_hi :: u32
  grsvd :: u32

text \<open>
  The structure \<^verbatim>\<open>tss\<close> is kept as bytes, because the processor does not read it by its fields.
  The last fields are the registers the tables are loaded into.
\<close>

record tables =
  gdt :: "u64 list"
  tss :: bytes
  idt :: "gate list"
  gdtr :: "(u16 \<times> u64) option"
  idtr :: "(u16 \<times> u64) option"
  seg_cs :: u16
  seg_data :: u16
  task_reg :: u16

text \<open>
  Offsets of the packed \<^verbatim>\<open>struct tss\<close>: a reserved 32-bit word, three stack pointers, another
  32-bit word, seven interrupt stacks, and 8 more bytes.
\<close>

definition tss_ist :: "nat \<Rightarrow> u64" where "tss_ist i = 4 + 3 * 8 + 4 + 8 * of_nat i"
definition SIZEOF_TSS :: u64 where "SIZEOF_TSS = 4 + 3 * 8 + 4 + 7 * 8 + 4 + 2 + 2"

text \<open>
  The addresses the linker gives to \<^verbatim>\<open>tss\<close>, \<^verbatim>\<open>gdt\<close>, \<^verbatim>\<open>idt\<close>, the three interrupt stacks and the
  stubs are parameters.
\<close>

record klayout =
  tss_va :: u64
  gdt_va :: u64
  idt_va :: u64
  ist_df_stack :: u64
  ist_nmi_stack :: u64
  ist_pf_stack :: u64
  isr_stub_table :: "nat \<Rightarrow> u64"

definition bits64 :: "nat list \<Rightarrow> u64" where
  "bits64 ns = fold (\<lambda>n v. v OR push_bit n 1) ns 0"

definition tss_desc_lo :: "u64 \<Rightarrow> u32 \<Rightarrow> u64" where
  "tss_desc_lo base limit =
     ucast (limit AND 0xFFFF) OR push_bit 16 (base AND 0xFF) OR push_bit 24 (drop_bit 8 base AND 0xFF) OR
     push_bit 32 (drop_bit 16 base AND 0xFF) OR push_bit 40 0x89 OR push_bit 56 (drop_bit 24 base AND 0xFF)"

definition gdt_init :: "klayout \<Rightarrow> tables \<Rightarrow> tables" where
  "gdt_init l t =
     (let g = (gdt t)[1 := bits64 [47, 44, 43, 41, 53],
                      2 := bits64 [47, 44, 41],
                      3 := bits64 [47, 46, 45, 44, 43, 41, 53],
                      4 := bits64 [47, 46, 45, 44, 41],
                      5 := tss_desc_lo (tss_va l) (ucast (SIZEOF_TSS - 1)),
                      6 := drop_bit 32 (tss_va l)];
          m = put64 (tss_ist IST_DF) (ist_df_stack l + IST_STACK_SIZE) (tss t);
          m = put64 (tss_ist IST_NMI) (ist_nmi_stack l + IST_STACK_SIZE) m;
          m = put64 (tss_ist IST_PF) (ist_pf_stack l + IST_STACK_SIZE) m
      in t\<lparr>gdt := g, tss := m, gdtr := Some (8 * 8 - 1, gdt_va l), seg_data := 0x10, seg_cs := 0x08, task_reg := 0x28\<rparr>)"

definition idt_gate :: "u64 \<Rightarrow> gate" where
  "idt_gate addr = \<lparr>off_lo = ucast (addr AND 0xFFFF), gsel = 0x08, gist = 0, gflags = 0x8E,
     off_mid = ucast (drop_bit 16 addr AND 0xFFFF), off_hi = ucast (drop_bit 32 addr), grsvd = 0\<rparr>"

definition idt_init :: "klayout \<Rightarrow> tables \<Rightarrow> tables" where
  "idt_init l t =
     (let g = map (\<lambda>i. idt_gate (isr_stub_table l i)) [0..<256];
          g = g[8 := (g ! 8)\<lparr>gist := of_nat IST_DF + 1\<rparr>]
      in t\<lparr>idt := g, idtr := Some (256 * 16 - 1, idt_va l)\<rparr>)"

definition idt_gate_set_dpl3 :: "u8 \<Rightarrow> tables \<Rightarrow> tables" where
  "idt_gate_set_dpl3 vec t = t\<lparr>idt := (idt t)[unat vec := (idt t ! unat vec)\<lparr>gflags := 0xEE\<rparr>]\<rparr>"

definition syscall_init :: "tables \<Rightarrow> tables" where
  "syscall_init t = idt_gate_set_dpl3 128 t"

definition exc_name :: "string list" where
  "exc_name =
    [''division by zero'', ''debug'', ''NMI'', ''breakpoint'',
     ''overflow'', ''bound range'', ''invalid opcode'', ''device not available'',
     ''double fault'', ''coproc seg overrun'', ''invalid TSS'', ''segment not present'',
     ''stack fault'', ''general protection'', ''page fault'', ''reserved'',
     ''x87 FP exception'', ''alignment check'', ''machine check'', ''SIMD FP'',
     ''virtualization'', ''control protection'', ''reserved'', ''reserved'',
     ''reserved'', ''reserved'', ''reserved'', ''reserved'',
     ''HV injection'', ''VMM communication'', ''security'', ''reserved'']"

definition dump_frame :: "iframe \<Rightarrow> console \<Rightarrow> console" where
  "dump_frame fr con =
     (let con = kprintf (''RIP=%p CS=%p RFLAGS=%p RSP=%p'' @ nl) [KNum (f_rip fr), KNum (f_cs fr), KNum (f_rflags fr), KNum (f_rsp fr)] con;
          con = kprintf (''RAX=%p RBX=%p RCX=%p RDX=%p'' @ nl) [KNum (f_regs fr RAX), KNum (f_regs fr RBX), KNum (f_regs fr RCX), KNum (f_regs fr RDX)] con
      in kprintf (''RSI=%p RDI=%p RBP=%p ERR=%p'' @ nl) [KNum (f_regs fr RSI), KNum (f_regs fr RDI), KNum (f_regs fr RBP), KNum (err fr)] con)"

section \<open>What the processor reads\<close>

text \<open>The fields of a segment descriptor, the descriptor of a task state segment, and a gate.\<close>

definition seg_present :: "u64 \<Rightarrow> bool" where "seg_present d \<longleftrightarrow> bit d 47 \<and> bit d 44"
definition seg_dpl :: "u64 \<Rightarrow> u64" where "seg_dpl d = drop_bit 45 d AND 3"
definition seg_code64 :: "u64 \<Rightarrow> bool" where "seg_code64 d \<longleftrightarrow> bit d 43 \<and> bit d 53"
definition seg_writable_data :: "u64 \<Rightarrow> bool" where "seg_writable_data d \<longleftrightarrow> \<not> bit d 43 \<and> bit d 41"

definition desc_of :: "u16 \<Rightarrow> tables \<Rightarrow> u64" where
  "desc_of s t = gdt t ! unat (drop_bit 3 s)"

definition sys_base :: "u64 \<Rightarrow> u64 \<Rightarrow> u64" where
  "sys_base lo hi = (drop_bit 16 lo AND 0xFFFFFF) OR push_bit 24 (drop_bit 56 lo) OR push_bit 32 (hi AND 0xFFFFFFFF)"

definition sys_limit :: "u64 \<Rightarrow> u64" where
  "sys_limit lo = (lo AND 0xFFFF) OR push_bit 16 (drop_bit 48 lo AND 0xF)"

definition gate_offset :: "gate \<Rightarrow> u64" where
  "gate_offset g = ucast (off_lo g) OR push_bit 16 (ucast (off_mid g)) OR push_bit 32 (ucast (off_hi g))"

definition gate_dpl :: "gate \<Rightarrow> u8" where "gate_dpl g = drop_bit 5 (gflags g) AND 3"

text \<open>
  The stack an interrupt with \<open>ist = i\<close> gets: the task state segment of 64-bit mode has its
  interrupt stacks at offset 36.
\<close>

definition hw_ist :: "bytes \<Rightarrow> nat \<Rightarrow> u64" where
  "hw_ist m i = get64 m (36 + 8 * (of_nat i - 1))"

definition canonical :: "u64 \<Rightarrow> bool" where
  "canonical a \<longleftrightarrow> drop_bit 47 a = 0 \<or> drop_bit 47 a = mask 17"

section \<open>Properties\<close>

lemma and_low_masks: "(x :: u64) AND 0xFF = take_bit 8 x" "x AND 0xFFFF = take_bit 16 x" "x AND 0xFFFFFF = take_bit 24 x"
  "x AND 0xFFFFFFFF = take_bit 32 x" "x AND 0xF = take_bit 4 x" "x AND 3 = take_bit 2 x"
  by (simp_all add: take_bit_eq_mask mask_eq_exp_minus_1)

lemma tss_desc_parts:
  "take_bit 24 (drop_bit 16 (tss_desc_lo a limit)) = take_bit 24 a" "drop_bit 56 (tss_desc_lo a limit) = take_bit 8 (drop_bit 24 a)"
proof -
  define c :: u64 where "c = push_bit 40 0x89"
  define l :: u64 where "l = ucast (limit AND 0xFFFF)"
  have "take_bit 48 c = c" "push_bit 40 (drop_bit 40 c) = c" by (simp_all add: c_def)
  then have c: "bit c k \<Longrightarrow> 40 \<le> k \<and> k < 48" for k by (metis bit_push_bit_iff bit_take_bit_iff)
  have "limit AND 0xFFFF = take_bit 16 limit" by (simp add: take_bit_eq_mask mask_eq_exp_minus_1)
  then have l: "bit l k \<Longrightarrow> k < 16" for k by (simp add: l_def bit_simps)
  have d: "tss_desc_lo a limit = l OR push_bit 16 (take_bit 8 a) OR push_bit 24 (take_bit 8 (drop_bit 8 a)) OR
      push_bit 32 (take_bit 8 (drop_bit 16 a)) OR c OR push_bit 56 (take_bit 8 (drop_bit 24 a))"
    by (simp add: tss_desc_lo_def and_low_masks l_def c_def)
  have "bit (tss_desc_lo a limit) (16 + k) \<longleftrightarrow> bit a k" if "k < 24" for k
  proof -
    have "\<not> bit l (16 + k)" "\<not> bit c (16 + k)" using l [of "16 + k"] c [of "16 + k"] that by auto
    then show ?thesis unfolding d using that by (cases "k < 8"; cases "k < 16") (auto simp: bit_simps)
  qed
  then show "take_bit 24 (drop_bit 16 (tss_desc_lo a limit)) = take_bit 24 a"
    by (intro bit_word_eqI) (auto simp: bit_simps)
  have "bit (tss_desc_lo a limit) (56 + k) \<longleftrightarrow> k < 8 \<and> bit a (24 + k)" for k
  proof -
    have "\<not> bit l (56 + k)" "\<not> bit c (56 + k)" using l [of "56 + k"] c [of "56 + k"] by auto
    moreover have "\<not> bit (push_bit s (take_bit 8 x)) (56 + k)" if "s + 8 \<le> 56" for s and x :: u64
      using that by (auto simp: bit_push_bit_iff bit_take_bit_iff)
    from this [of 16] this [of 24] this [of 32] have "bit (tss_desc_lo a limit) (56 + k) \<longleftrightarrow> bit l (56 + k) \<or> bit c (56 + k) \<or> bit (push_bit 56 (take_bit 8 (drop_bit 24 a))) (56 + k)"
      unfolding d bit_or_iff by simp
    ultimately show ?thesis by (auto simp: bit_push_bit_iff bit_take_bit_iff bit_drop_bit_eq)
  qed
  then show "drop_bit 56 (tss_desc_lo a limit) = take_bit 8 (drop_bit 24 a)"
    by (intro bit_word_eqI) (auto simp: bit_simps)
qed

lemma sys_base_tss: "sys_base (tss_desc_lo a limit) (drop_bit 32 a) = a"
proof (rule bit_word_eqI)
  fix n assume "n < LENGTH(64)"
  then show "bit (sys_base (tss_desc_lo a limit) (drop_bit 32 a)) n = bit a n"
    unfolding sys_base_def and_low_masks tss_desc_parts by (cases "n < 24"; cases "n < 32") (auto simp: bit_simps)
qed

lemma gate_offset_idt: "gate_offset (idt_gate a) = a"
proof (rule bit_word_eqI)
  fix n assume "n < LENGTH(64)"
  then show "bit (gate_offset (idt_gate a)) n = bit a n"
    unfolding gate_offset_def idt_gate_def and_low_masks by (cases "n < 32") (auto simp: bit_simps)
qed

lemma bit_get_le:
  "8 * n \<le> LENGTH('b) \<Longrightarrow> bit (get_le n m a :: 'b::len word) k \<longleftrightarrow> k < 8 * n \<and> bit (m (a + of_nat (k div 8))) (k mod 8)"
proof (induction n arbitrary: a k)
  case (Suc n)
  have IH: "bit (get_le n m (a + 1) :: 'b word) j \<longleftrightarrow> j < 8 * n \<and> bit (m (a + 1 + of_nat (j div 8))) (j mod 8)" for j
    using Suc by simp
  show ?case
  proof (cases "k < 8")
    case True
    then show ?thesis using Suc.prems by (simp add: bit_simps)
  next
    case False
    then obtain j where k: "k = 8 + j" by (metis le_iff_add not_less)
    have "\<not> bit (m a) k" using False bit_imp_le_length [of "m a" k] by auto
    moreover have "k div 8 = Suc (j div 8)" "k mod 8 = j mod 8" using k by simp_all
    ultimately show ?thesis using Suc.prems IH [of j] k by (auto simp: bit_simps add.assoc)
  qed
qed simp

lemma get64_halves: "get64 m a = ucast (get32 m a) OR push_bit 32 (ucast (get32 m (a + 4)))"
proof (rule bit_word_eqI)
  fix k assume "k < LENGTH(64)"
  moreover have "4 + of_nat ((k - 32) div 8) = (of_nat (k div 8) :: u64)" "(k - 32) mod 8 = k mod 8" if k32: "32 \<le> k"
  proof -
    obtain c where "k = 32 + c" using k32 by (auto simp: le_iff_add)
    then show "4 + of_nat ((k - 32) div 8) = (of_nat (k div 8) :: u64)" "(k - 32) mod 8 = k mod 8"
      using div_mult_self1 [of "8 :: nat" c 4] mod_mult_self1 [of c 4 "8 :: nat"] by (simp_all add: add.commute)
  qed
  ultimately show "bit (get64 m a) k = bit (ucast (get32 m a) OR push_bit 32 (ucast (get32 m (a + 4))) :: u64) k"
    unfolding get64_def get32_def by (auto simp: bit_simps bit_get_le add.assoc)
qed

lemma get32_of_put64: "get32 (put64 a v m) a = ucast v" "get32 (put64 a v m) (a + 4) = ucast (drop_bit 32 v)"
proof -
  have b: "bit (put64 a v m (a + of_nat t)) j \<longleftrightarrow> j < 8 \<and> bit v (8 * t + j)" if "t < 8" for t j
    using that by (auto simp: put64_def put_le_apply bit_simps unat_of_nat)
  have "bit (get32 (put64 a v m) a) k = bit (ucast v :: u32) k" if "k < 32" for k
    using that b [of "k div 8" "k mod 8"] by (simp add: get32_def bit_get_le bit_simps)
  then show "get32 (put64 a v m) a = ucast v" by (intro bit_word_eqI) simp
  have "bit (get32 (put64 a v m) (a + 4)) k = bit (ucast (drop_bit 32 v) :: u32) k" if "k < 32" for k
    using that b [of "4 + k div 8" "k mod 8"] by (simp add: get32_def bit_get_le bit_simps add.assoc)
  then show "get32 (put64 a v m) (a + 4) = ucast (drop_bit 32 v)" by (intro bit_word_eqI) simp
qed


text \<open>
  Claim C36. The gate of the double fault asks for interrupt stack 1, but \<^verbatim>\<open>struct tss\<close> has its
  stacks 4 bytes too early (the reserved word before them is 8 bytes in the hardware's layout, and
  the structure is 96 bytes where the processor needs 104). What the processor loads is the upper
  half of one stack address followed by the lower half of the next; with the kernel linked in the
  upper 2 GiB this is not even a canonical address.
\<close>

theorem double_fault_stack_garbled:
  assumes df: "0xFFFFFFFF80000000 \<le> ist_df_stack l + IST_STACK_SIZE"
    and nmi: "0xFFFFFFFF80000000 \<le> ist_nmi_stack l + IST_STACK_SIZE" "ist_nmi_stack l + IST_STACK_SIZE < 0xFFFFFFFFFFFF8000"
    and t': "t' = idt_init l (gdt_init l t)"
  shows "gist (idt t' ! 8) = 1 \<and>
    hw_ist (tss t') 1 = drop_bit 32 (ist_df_stack l + IST_STACK_SIZE) OR push_bit 32 (ist_nmi_stack l + IST_STACK_SIZE) \<and>
    \<not> canonical (hw_ist (tss t') 1) \<and> SIZEOF_TSS < 104"
proof -
  let ?d = "ist_df_stack l + IST_STACK_SIZE" and ?n = "ist_nmi_stack l + IST_STACK_SIZE" and ?p = "ist_pf_stack l + IST_STACK_SIZE"
  have m: "tss t' = put64 48 ?p (put64 40 ?n (put64 32 ?d (tss t)))"
    by (simp add: t' idt_init_def gdt_init_def Let_def tss_ist_def IST_DF_def IST_NMI_def IST_PF_def)
  have ap: "apart 8 40 4 36" "apart 8 48 4 36" "apart 8 48 4 40" by (simp_all add: apart_def)
  have "get32 (tss t') 36 = ucast (drop_bit 32 ?d)" "get32 (tss t') 40 = ucast ?n"
    using get32_of_put64(2) [of 32 ?d "tss t"] get32_of_put64(1) [of 40 ?n "put64 32 ?d (tss t)"] ap
    by (simp_all add: m get_put_other)
  then have "hw_ist (tss t') 1 = ucast (ucast (drop_bit 32 ?d) :: u32) OR push_bit 32 (ucast (ucast ?n :: u32))"
    unfolding hw_ist_def get64_halves by simp
  also have "\<dots> = drop_bit 32 ?d OR push_bit 32 ?n"
    by (rule bit_word_eqI) (auto simp: bit_simps dest: bit_imp_le_length)
  finally have h: "hw_ist (tss t') 1 = drop_bit 32 ?d OR push_bit 32 ?n" .
  have "drop_bit 47 (drop_bit 32 ?d OR push_bit 32 ?n) = take_bit 17 (drop_bit 15 ?n)"
    by (rule bit_word_eqI) (auto simp: bit_simps dest: bit_imp_le_length)
  moreover have "take_bit 17 (drop_bit 15 ?n) \<noteq> 0" "take_bit 17 (drop_bit 15 ?n) \<noteq> mask 17"
  proof -
    have u: "unat (take_bit 17 (drop_bit 15 ?n)) = unat ?n div 32768 mod 131072"
      unfolding take_bit_eq_mod drop_bit_eq_div unat_mod unat_div by simp
    have "0xFFFFFFFF80000000 \<le> unat ?n" "unat ?n < 0xFFFFFFFFFFFF8000" using nmi by (simp_all add: word_le_nat_alt word_less_nat_alt)
    then have "131072 * 4294967295 + 65536 \<le> unat ?n div 32768" "unat ?n div 32768 < 131072 * 4294967295 + 131071" by linarith+
    then obtain t where t: "unat ?n div 32768 = 131072 * 4294967295 + t" "65536 \<le> t" "t < 131071"
      using that [of "unat ?n div 32768 - 131072 * 4294967295"] by linarith
    have "unat (take_bit 17 (drop_bit 15 ?n)) = t" unfolding u t(1) mod_mult_self4 using t(3) by simp
    then show "take_bit 17 (drop_bit 15 ?n) \<noteq> 0" "take_bit 17 (drop_bit 15 ?n) \<noteq> mask 17"
      using t by (auto simp: mask_eq_exp_minus_1)
  qed
  moreover have "gist (idt t' ! 8) = 1" by (simp add: t' idt_init_def Let_def IST_DF_def)
  moreover have "SIZEOF_TSS < 104" by (simp add: SIZEOF_TSS_def)
  ultimately show ?thesis using h by (simp add: canonical_def)
qed

section \<open>Example\<close>

definition klayout_example :: klayout where
  "klayout_example = \<lparr>tss_va = 0xFFFFFFFF80012340, gdt_va = 0xFFFFFFFF80012000, idt_va = 0xFFFFFFFF80013000, ist_df_stack = 0xFFFFFFFF80020000,
     ist_nmi_stack = 0xFFFFFFFF80024000, ist_pf_stack = 0xFFFFFFFF80028000, isr_stub_table = \<lambda>v. 0xFFFFFFFF80000000 + 16 * of_nat v\<rparr>"

definition tables_boot :: tables where
  "tables_boot = \<lparr>gdt = replicate 8 0, tss = \<lambda>_. 0, idt = [], gdtr = None, idtr = None, seg_cs = 0, seg_data = 0, task_reg = 0\<rparr>"


theorem double_fault_stack_garbled_witness:
  "hw_ist (tss (idt_init klayout_example (gdt_init klayout_example tables_boot))) 1 = 0x80028000FFFFFFFF \<and> \<not> canonical 0x80028000FFFFFFFF"
proof -
  have "0xFFFFFFFF80000000 \<le> ist_df_stack klayout_example + IST_STACK_SIZE"
    "0xFFFFFFFF80000000 \<le> ist_nmi_stack klayout_example + IST_STACK_SIZE" "ist_nmi_stack klayout_example + IST_STACK_SIZE < 0xFFFFFFFFFFFF8000"
    by (simp_all add: klayout_example_def IST_STACK_SIZE_def)
  from double_fault_stack_garbled [OF this refl, of tables_boot]
  have h: "hw_ist (tss (idt_init klayout_example (gdt_init klayout_example tables_boot))) 1 =
      drop_bit 32 (ist_df_stack klayout_example + IST_STACK_SIZE) OR push_bit 32 (ist_nmi_stack klayout_example + IST_STACK_SIZE)"
    and c: "\<not> canonical (hw_ist (tss (idt_init klayout_example (gdt_init klayout_example tables_boot))) 1)" by blast+
  have "drop_bit 32 (ist_df_stack klayout_example + IST_STACK_SIZE) OR push_bit 32 (ist_nmi_stack klayout_example + IST_STACK_SIZE) = (0x80028000FFFFFFFF :: u64)"
    by (simp add: klayout_example_def IST_STACK_SIZE_def drop_bit_eq_div push_bit_eq_mult)
  then show ?thesis using h c by simp
qed

end
