(* ===== verification/Apic.thy ===== *)
theory Apic
  imports Boot
begin

text \<open>
  The interrupt controllers and the timer (\<^verbatim>\<open>core/cpu/apic.c\<close>): the legacy controllers are masked,
  the keyboard line is routed, and the timer is calibrated against the PIT and set to 100 Hz, in
  TSC-deadline mode or as the periodic LAPIC timer.
\<close>

section \<open>The hardware\<close>

text \<open>
  The clocks are not code of the kernel: \<open>pit_gate n\<close>, \<open>tsc n\<close> and \<open>ccr n\<close> are what the \<open>n\<close>-th read of
  port 0x61, of the time stamp counter and of the LAPIC's current count gives. Registers keep
  what was written last; bytes sent to ports are logged, newest first.
\<close>

record apic =
  lapic :: "u32 \<Rightarrow> u32"
  lapic_va :: vaddr
  ioapic_sel :: u32
  ioapic :: "u32 \<Rightarrow> u32"
  aports :: "(u16 \<times> u8) list"
  pit_gate :: "nat \<Rightarrow> u8"
  pit_reads :: nat
  tsc :: "nat \<Rightarrow> u64"
  tsc_reads :: nat
  ccr :: "nat \<Rightarrow> u32"
  ccr_reads :: nat
  cpuid1_ecx :: u32
  apic_base_msr :: u64
  deadline_msr :: u64
  apic_timer_hz :: u64
  jiffies :: u64
  tsc_hz :: u64
  use_tsc_deadline :: bool

definition LAPIC_EOI :: u32 where "LAPIC_EOI = 0x0B0"
definition LAPIC_SVR :: u32 where "LAPIC_SVR = 0x0F0"
definition LAPIC_TIMER_LVT :: u32 where "LAPIC_TIMER_LVT = 0x320"
definition LAPIC_TIMER_ICR :: u32 where "LAPIC_TIMER_ICR = 0x380"
definition LAPIC_TIMER_CCR :: u32 where "LAPIC_TIMER_CCR = 0x390"
definition LAPIC_TIMER_DCR :: u32 where "LAPIC_TIMER_DCR = 0x3E0"
definition LVT_TSC_DEADLINE :: u32 where "LVT_TSC_DEADLINE = push_bit 18 1"
definition IOAPIC_REG_SELECT :: u32 where "IOAPIC_REG_SELECT = 0x00"
definition IOAPIC_REG_WINDOW :: u32 where "IOAPIC_REG_WINDOW = 0x10"
definition PIC1_DAT :: u16 where "PIC1_DAT = 0x21"
definition PIC2_DAT :: u16 where "PIC2_DAT = 0xA1"
definition PIT_CMD :: u16 where "PIT_CMD = 0x43"
definition IRQ_BASE :: u8 where "IRQ_BASE = 32"
definition IRQ_KEYBOARD :: u8 where "IRQ_KEYBOARD = 1"

definition apic_outb :: "u16 \<Rightarrow> u8 \<Rightarrow> apic \<Rightarrow> apic" where
  "apic_outb port v a = a\<lparr>aports := (port, v) # aports a\<rparr>"

definition inb_61 :: "apic \<Rightarrow> u8 \<times> apic" where
  "inb_61 a = (pit_gate a (pit_reads a), a\<lparr>pit_reads := Suc (pit_reads a)\<rparr>)"

definition rdtsc :: "apic \<Rightarrow> u64 \<times> apic" where
  "rdtsc a = (tsc a (tsc_reads a), a\<lparr>tsc_reads := Suc (tsc_reads a)\<rparr>)"

section \<open>Registers\<close>

definition lapic_read :: "u32 \<Rightarrow> apic \<Rightarrow> u32 \<times> apic" where
  "lapic_read reg a =
     (if reg = LAPIC_TIMER_CCR then (ccr a (ccr_reads a), a\<lparr>ccr_reads := Suc (ccr_reads a)\<rparr>) else (lapic a reg, a))"

definition lapic_write :: "u32 \<Rightarrow> u32 \<Rightarrow> apic \<Rightarrow> apic" where
  "lapic_write reg v a = a\<lparr>lapic := (lapic a)(reg := v)\<rparr>"

definition apic_eoi :: "apic \<Rightarrow> apic" where
  "apic_eoi a = lapic_write LAPIC_EOI 0 a"

text \<open>A write to the window goes to the register that was selected last.\<close>

definition ioapic_write :: "u32 \<Rightarrow> u32 \<Rightarrow> apic \<Rightarrow> apic" where
  "ioapic_write off v a =
     (if off = IOAPIC_REG_SELECT then a\<lparr>ioapic_sel := v\<rparr> else a\<lparr>ioapic := (ioapic a)(ioapic_sel a := v)\<rparr>)"

definition ioapic_set_isa :: "u8 \<Rightarrow> u8 \<Rightarrow> apic \<Rightarrow> apic" where
  "ioapic_set_isa isa_irq vec a =
     (let entry = ucast vec OR push_bit 11 0;
          a = ioapic_write IOAPIC_REG_SELECT (0x10 + ucast isa_irq * 2) a;
          a = ioapic_write IOAPIC_REG_WINDOW entry a;
          a = ioapic_write IOAPIC_REG_SELECT (0x11 + ucast isa_irq * 2) a
      in ioapic_write IOAPIC_REG_WINDOW 0 a)"

section \<open>Calibration\<close>

text \<open>The one-shot gate of 50 ms on channel 2 of the PIT, set up alike for both clocks.\<close>

definition pit_start :: "apic \<Rightarrow> apic" where
  "pit_start a =
     (case inb_61 a of (v, a) \<Rightarrow>
      let a = apic_outb 0x61 ((v AND NOT 0x02) OR 0x01) a;
          a = apic_outb PIT_CMD 0xB0 a;
          reload = 59659 :: u32;
          a = apic_outb 0x42 (ucast (reload AND 0xFF)) a
      in apic_outb 0x42 (ucast (drop_bit 8 reload AND 0xFF)) a)"

partial_function (option) pit_wait :: "apic \<Rightarrow> apic option" where
  "pit_wait a = (case inb_61 a of (v, a) \<Rightarrow> if v AND 0x20 = 0 then pit_wait a else Some a)"

definition calibrate_tsc :: "apic \<Rightarrow> (u64 \<times> apic) option" where
  "calibrate_tsc a =
     (let a = pit_start a in
      case rdtsc a of (t0, a) \<Rightarrow>
      case pit_wait a of None \<Rightarrow> None | Some a \<Rightarrow>
      case rdtsc a of (t1, a) \<Rightarrow> Some ((t1 - t0) * 20, a))"

definition calibrate_lapic :: "apic \<Rightarrow> (u64 \<times> apic) option" where
  "calibrate_lapic a =
     (let a = pit_start a;
          a = lapic_write LAPIC_TIMER_DCR 0x1 a;
          a = lapic_write LAPIC_TIMER_LVT (push_bit 16 1 OR 0x20) a;
          a = lapic_write LAPIC_TIMER_ICR 0xFFFFFFFF a in
      case lapic_read LAPIC_TIMER_CCR a of (c0, a) \<Rightarrow>
      case pit_wait a of None \<Rightarrow> None | Some a \<Rightarrow>
      case lapic_read LAPIC_TIMER_CCR a of (c1, a) \<Rightarrow>
      let start = ucast (0xFFFFFFFF - c0); stop = ucast (0xFFFFFFFF - c1)
      in Some ((stop - start) * 20, a))"

section \<open>The timer\<close>

definition arm_timer :: "apic \<Rightarrow> apic" where
  "arm_timer a =
     (if use_tsc_deadline a
      then case rdtsc a of (now, a) \<Rightarrow> a\<lparr>deadline_msr := now + tsc_hz a div 100\<rparr>
      else a)"

definition cpu_has_tsc_deadline :: "apic \<Rightarrow> bool" where
  "cpu_has_tsc_deadline a \<longleftrightarrow> cpuid1_ecx a AND push_bit 24 1 \<noteq> 0"

definition apic_init :: "uix_bootinfo \<Rightarrow> apic \<times> console \<Rightarrow> (apic \<times> console) res option" where
  "apic_init bi = (\<lambda>(a, con).
     let a = apic_outb PIC1_DAT 0xFF a;
         a = apic_outb PIC2_DAT 0xFF a;
         base = ucast (ucast (apic_base_msr a) :: u32);
         phys = base AND NOT 0xFFF;
         a = a\<lparr>lapic_va := hhdm bi + phys\<rparr>;
         a = lapic_write LAPIC_SVR (0x100 OR 0xFF) a;
         a = ioapic_set_isa IRQ_KEYBOARD (IRQ_BASE + IRQ_KEYBOARD) a;
         a = a\<lparr>use_tsc_deadline := cpu_has_tsc_deadline a\<rparr> in
     if use_tsc_deadline a
     then case calibrate_tsc a of None \<Rightarrow> None | Some (hz, a) \<Rightarrow>
       let a = a\<lparr>tsc_hz := hz\<rparr> in
       if hz < 1000000 then Some (Inl (Panic ''apic: TSC calibration failed (%u)''))
       else let a = a\<lparr>apic_timer_hz := hz\<rparr>;
                a = lapic_write LAPIC_TIMER_LVT (ucast IRQ_BASE OR LVT_TSC_DEADLINE) a;
                a = arm_timer a
            in Some (Inr (a, kprintf (KLOG_INFO @ ''apic: TSC %u Hz, TSC-deadline timer at 100 Hz'' @ nl)
                               [KNum (ucast (ucast hz :: u32))] con))
     else case calibrate_lapic a of None \<Rightarrow> None | Some (hz, a) \<Rightarrow>
       if hz < 100000 then Some (Inl (Panic ''apic: LAPIC calibration failed (%u)''))
       else let a = a\<lparr>apic_timer_hz := hz\<rparr>;
                a = lapic_write LAPIC_TIMER_DCR 0x1 a;
                a = lapic_write LAPIC_TIMER_LVT (ucast IRQ_BASE OR push_bit 17 1) a;
                a = lapic_write LAPIC_TIMER_ICR (ucast (hz div 100)) a
            in Some (Inr (a, kprintf (KLOG_INFO @ ''apic: LAPIC %u Hz, periodic timer at 100 Hz'' @ nl)
                               [KNum (ucast (ucast hz :: u32))] con)))"

definition apic_timer_tick :: "apic \<Rightarrow> apic" where
  "apic_timer_tick a = arm_timer (a\<lparr>jiffies := jiffies a + 1\<rparr>)"

section \<open>The gate\<close>

text \<open>The first read of port 0x61 from number \<open>n\<close> on that sees the gate open.\<close>

definition gate_opens :: "apic \<Rightarrow> nat \<Rightarrow> bool" where
  "gate_opens a k \<longleftrightarrow> pit_reads a \<le> k \<and> pit_gate a k AND 0x20 \<noteq> 0 \<and> (\<forall>j. pit_reads a \<le> j \<and> j < k \<longrightarrow> pit_gate a j AND 0x20 = 0)"

lemma pit_wait_opens: "gate_opens a k \<Longrightarrow> pit_wait a = Some (a\<lparr>pit_reads := Suc k\<rparr>)"
proof (induction "k - pit_reads a" arbitrary: a)
  case 0
  then show ?case by (subst pit_wait.simps) (simp add: inb_61_def gate_opens_def)
next
  case (Suc d)
  let ?a = "a\<lparr>pit_reads := Suc (pit_reads a)\<rparr>"
  have "gate_opens ?a k" using Suc.prems Suc.hyps(2) by (auto simp: gate_opens_def)
  moreover have "pit_gate a (pit_reads a) AND 0x20 = 0" using Suc.prems Suc.hyps(2) by (auto simp: gate_opens_def)
  ultimately show ?case using Suc.hyps(1) [of ?a] Suc.hyps(2) by (subst pit_wait.simps) (simp add: inb_61_def)
qed

lemma pit_wait_result:
  assumes "pit_wait a = Some a'"
  shows "\<exists>k. gate_opens a k"
proof (rule pit_wait.raw_induct [where P = "\<lambda>a r. \<exists>k. gate_opens a k", OF _ assms])
  fix f :: "apic \<Rightarrow> apic option" and a r
  assume IH: "\<And>a r. f a = Some r \<Longrightarrow> \<exists>k. gate_opens a k"
    and run: "(case inb_61 a of (v, a) \<Rightarrow> if v AND 0x20 = 0 then f a else Some a) = Some r"
  show "\<exists>k. gate_opens a k"
  proof (cases "pit_gate a (pit_reads a) AND 0x20 = 0")
    case True
    let ?a = "a\<lparr>pit_reads := Suc (pit_reads a)\<rparr>"
    obtain k where k: "gate_opens ?a k" using run True IH by (auto simp: inb_61_def)
    have "pit_gate a j AND 0x20 = 0" if "pit_reads a \<le> j" "j < k" for j
      using that k True by (cases "j = pit_reads a") (auto simp: gate_opens_def)
    then have "gate_opens a k" using k by (auto simp: gate_opens_def)
    then show ?thesis by blast
  next
    case False
    then have "gate_opens a (pit_reads a)" by (auto simp: gate_opens_def)
    then show ?thesis by blast
  qed
qed

lemma gate_opens_ex: "(\<exists>k. gate_opens a k) \<longleftrightarrow> (\<exists>k \<ge> pit_reads a. pit_gate a k AND 0x20 \<noteq> 0)"
proof
  assume "\<exists>k \<ge> pit_reads a. pit_gate a k AND 0x20 \<noteq> 0"
  then obtain k where k: "pit_reads a \<le> k \<and> pit_gate a k AND 0x20 \<noteq> 0" by blast
  let ?k = "LEAST k. pit_reads a \<le> k \<and> pit_gate a k AND 0x20 \<noteq> 0"
  have "pit_reads a \<le> ?k \<and> pit_gate a ?k AND 0x20 \<noteq> 0" using k by (rule LeastI)
  moreover have "\<forall>j. pit_reads a \<le> j \<and> j < ?k \<longrightarrow> pit_gate a j AND 0x20 = 0" using not_less_Least by blast
  ultimately show "\<exists>k. gate_opens a k" unfolding gate_opens_def by blast
qed (auto simp: gate_opens_def)

lemma pit_wait_None: "pit_wait a = None \<longleftrightarrow> (\<forall>k \<ge> pit_reads a. pit_gate a k AND 0x20 = 0)"
  using pit_wait_result [of a] pit_wait_opens [of a] gate_opens_ex [of a] by (cases "pit_wait a") auto

section \<open>Properties\<close>

lemma ioapic_route: "ioapic (ioapic_set_isa irq vec a) = (ioapic a)(0x10 + ucast irq * 2 := ucast vec, 0x11 + ucast irq * 2 := 0)"
  by (simp add: ioapic_set_isa_def ioapic_write_def IOAPIC_REG_SELECT_def IOAPIC_REG_WINDOW_def Let_def)

lemma pit_start_fields [simp]:
  "pit_gate (pit_start a) = pit_gate a" "pit_reads (pit_start a) = Suc (pit_reads a)" "tsc (pit_start a) = tsc a" "tsc_reads (pit_start a) = tsc_reads a"
  "ccr (pit_start a) = ccr a" "ccr_reads (pit_start a) = ccr_reads a" "jiffies (pit_start a) = jiffies a" "lapic (pit_start a) = lapic a"
  "ioapic (pit_start a) = ioapic a" "use_tsc_deadline (pit_start a) = use_tsc_deadline a"
  by (simp_all add: pit_start_def inb_61_def apic_outb_def Let_def)

text \<open>The state in which the calibration starts.\<close>

definition apic_setup :: "uix_bootinfo \<Rightarrow> apic \<Rightarrow> apic" where
  "apic_setup bi a =
     (let a = apic_outb PIC2_DAT 0xFF (apic_outb PIC1_DAT 0xFF a);
          a = a\<lparr>lapic_va := hhdm bi + (ucast (ucast (apic_base_msr a) :: u32) AND NOT 0xFFF)\<rparr>;
          a = ioapic_set_isa IRQ_KEYBOARD (IRQ_BASE + IRQ_KEYBOARD) (lapic_write LAPIC_SVR (0x100 OR 0xFF) a)
      in a\<lparr>use_tsc_deadline := cpu_has_tsc_deadline a\<rparr>)"

lemma apic_setup_fields [simp]:
  "pit_gate (apic_setup bi a) = pit_gate a" "pit_reads (apic_setup bi a) = pit_reads a" "tsc (apic_setup bi a) = tsc a" "tsc_reads (apic_setup bi a) = tsc_reads a"
  "ccr (apic_setup bi a) = ccr a" "ccr_reads (apic_setup bi a) = ccr_reads a" "jiffies (apic_setup bi a) = jiffies a"
  "use_tsc_deadline (apic_setup bi a) = cpu_has_tsc_deadline a" "ioapic (apic_setup bi a) 0x12 = 33"
  by (simp_all add: apic_setup_def Let_def apic_outb_def lapic_write_def ioapic_set_isa_def ioapic_write_def cpu_has_tsc_deadline_def
      IOAPIC_REG_SELECT_def IOAPIC_REG_WINDOW_def IRQ_BASE_def IRQ_KEYBOARD_def)

lemma apic_init_setup:
  "apic_init bi (a, con) =
     (let a = apic_setup bi a in
      if use_tsc_deadline a
      then case calibrate_tsc a of None \<Rightarrow> None | Some (hz, a) \<Rightarrow>
        if hz < 1000000 then Some (Inl (Panic ''apic: TSC calibration failed (%u)''))
        else Some (Inr (arm_timer (lapic_write LAPIC_TIMER_LVT (ucast IRQ_BASE OR LVT_TSC_DEADLINE) (a\<lparr>tsc_hz := hz, apic_timer_hz := hz\<rparr>)),
               kprintf (KLOG_INFO @ ''apic: TSC %u Hz, TSC-deadline timer at 100 Hz'' @ nl) [KNum (ucast (ucast hz :: u32))] con))
      else case calibrate_lapic a of None \<Rightarrow> None | Some (hz, a) \<Rightarrow>
        if hz < 100000 then Some (Inl (Panic ''apic: LAPIC calibration failed (%u)''))
        else Some (Inr (lapic_write LAPIC_TIMER_ICR (ucast (hz div 100)) (lapic_write LAPIC_TIMER_LVT (ucast IRQ_BASE OR push_bit 17 1)
               (lapic_write LAPIC_TIMER_DCR 0x1 (a\<lparr>apic_timer_hz := hz\<rparr>))),
               kprintf (KLOG_INFO @ ''apic: LAPIC %u Hz, periodic timer at 100 Hz'' @ nl) [KNum (ucast (ucast hz :: u32))] con)))"
  by (simp add: apic_init_def apic_setup_def Let_def split: option.split)


fun apic_ticks :: "nat \<Rightarrow> apic \<Rightarrow> apic" where
  "apic_ticks 0 a = a"
| "apic_ticks (Suc n) a = apic_ticks n (apic_timer_tick a)"

definition timer_on :: "u64 \<Rightarrow> nat \<Rightarrow> apic \<Rightarrow> bool" where
  "timer_on hz k a \<longleftrightarrow> use_tsc_deadline a \<and> tsc_hz a = hz \<and> tsc_reads a = Suc k \<and> deadline_msr a = tsc a k + hz div 100 \<and>
     lapic a LAPIC_TIMER_LVT = 32 OR push_bit 18 1"

lemma apic_ticks_on:
  "timer_on hz k a \<Longrightarrow> timer_on hz (k + n) (apic_ticks n a) \<and> jiffies (apic_ticks n a) = jiffies a + of_nat n \<and> tsc (apic_ticks n a) = tsc a"
proof (induction n arbitrary: k a)
  case (Suc n)
  have "timer_on hz (Suc k) (apic_timer_tick a)" "jiffies (apic_timer_tick a) = jiffies a + 1" "tsc (apic_timer_tick a) = tsc a"
    using Suc.prems by (simp_all add: timer_on_def apic_timer_tick_def arm_timer_def rdtsc_def)
  then show ?case using Suc.IH [of "Suc k" "apic_timer_tick a"] by simp
qed simp

text \<open>
  Claim C22. In TSC-deadline mode the timer runs at 100 Hz of the measured frequency and never stops:
  after \<open>n\<close> ticks there are \<open>n\<close> jiffies more, and the deadline is always a hundredth of a second's count
  after the last look at the clock. The keyboard's line is routed to vector 33.
\<close>

theorem apic_timer_runs:
  assumes cpu: "cpu_has_tsc_deadline a" and gate: "gate_opens (pit_start a) k"
    and hz: "hz = (tsc a (Suc (tsc_reads a)) - tsc a (tsc_reads a)) * 20" "1000000 \<le> hz"
  shows "\<exists>a' con'. apic_init bi (a, con) = Some (Inr (a', con')) \<and> ioapic a' 0x12 = 33 \<and>
    (\<forall>n. timer_on hz (tsc_reads a + 2 + n) (apic_ticks n a') \<and> jiffies (apic_ticks n a') = jiffies a + of_nat n \<and>
       tsc (apic_ticks n a') = tsc a)"
proof -
  let ?s = "apic_setup bi a"
  let ?p = "pit_start ?s\<lparr>tsc_reads := Suc (tsc_reads a)\<rparr>"
  have "gate_opens ?p k" using gate by (simp add: gate_opens_def)
  then have "calibrate_tsc ?s = Some (hz, ?p\<lparr>pit_reads := Suc k, tsc_reads := Suc (Suc (tsc_reads a))\<rparr>)"
    using hz(1) by (simp add: calibrate_tsc_def Let_def rdtsc_def pit_wait_opens)
  then obtain c con' where c: "calibrate_tsc ?s = Some (hz, c)" "c = ?p\<lparr>pit_reads := Suc k, tsc_reads := Suc (Suc (tsc_reads a))\<rparr>"
    by blast
  let ?a = "arm_timer (lapic_write LAPIC_TIMER_LVT (ucast IRQ_BASE OR LVT_TSC_DEADLINE) (c\<lparr>tsc_hz := hz, apic_timer_hz := hz\<rparr>))"
  have "\<exists>con'. apic_init bi (a, con) = Some (Inr (?a, con'))"
    using c(1) cpu hz(2) by (simp add: apic_init_setup Let_def)
  moreover have "timer_on hz (tsc_reads a + 2) ?a" "jiffies ?a = jiffies a" "tsc ?a = tsc a" "ioapic ?a 0x12 = 33"
    using cpu by (simp_all add: timer_on_def c(2) arm_timer_def rdtsc_def lapic_write_def IRQ_BASE_def LVT_TSC_DEADLINE_def)
  ultimately show ?thesis using apic_ticks_on [of hz "tsc_reads a + 2" ?a] by metis
qed

definition apic_example :: apic where
  "apic_example = \<lparr>lapic = \<lambda>_. 0, lapic_va = 0, ioapic_sel = 0, ioapic = \<lambda>_. 0, aports = [], pit_gate = \<lambda>n. if n < 9 then 0 else 0x20,
     pit_reads = 0, tsc = \<lambda>n. 1000000 * of_nat n, tsc_reads = 0, ccr = \<lambda>n. 0, ccr_reads = 0, cpuid1_ecx = 0x1000000,
     apic_base_msr = 0xFEE00900, deadline_msr = 0, apic_timer_hz = 0, jiffies = 0, tsc_hz = 0, use_tsc_deadline = False\<rparr>"

definition bootinfo_example :: uix_bootinfo where
  "bootinfo_example = \<lparr>memmap = [], hhdm = 0xFFFF800000000000\<rparr>"

theorem apic_timer_runs_witness:
  "\<exists>a' con'. apic_init bootinfo_example (apic_example, console_example) = Some (Inr (a', con')) \<and> jiffies (apic_ticks 7 a') = 7 \<and>
    deadline_msr (apic_ticks 7 a') = 9200000"
proof -
  have "cpu_has_tsc_deadline apic_example" "gate_opens (pit_start apic_example) 9"
    by (simp_all add: cpu_has_tsc_deadline_def gate_opens_def apic_example_def)
  from apic_timer_runs [OF this, of 20000000 bootinfo_example console_example]
  have ex: "\<exists>a' con'. apic_init bootinfo_example (apic_example, console_example) = Some (Inr (a', con')) \<and> ioapic a' 0x12 = 33 \<and>
    (\<forall>n. timer_on 20000000 (tsc_reads apic_example + 2 + n) (apic_ticks n a') \<and> jiffies (apic_ticks n a') = jiffies apic_example + of_nat n \<and>
       tsc (apic_ticks n a') = tsc apic_example)"
    by (simp add: apic_example_def)
  then obtain a' con' where "apic_init bootinfo_example (apic_example, console_example) = Some (Inr (a', con'))"
    "timer_on 20000000 (tsc_reads apic_example + 2 + 7) (apic_ticks 7 a')" "jiffies (apic_ticks 7 a') = jiffies apic_example + of_nat 7"
    "tsc (apic_ticks 7 a') = tsc apic_example"
    by blast
  then show ?thesis by (auto simp: timer_on_def apic_example_def)
qed

end
