(* ===== verification/Loader.thy ===== *)
theory Loader
  imports Heap
begin

text \<open>
  Filling a user address space: byte accesses of the kernel through the page tables, the loops of
  \<^verbatim>\<open>core/cpu/user.c\<close> and \<^verbatim>\<open>core/cpu/exec.c\<close> that map and copy a flat program and its stack, and the
  ELF loader (\<^verbatim>\<open>core/cpu/elf.c\<close>). An image is the function from offsets to bytes its pointer stands for.
\<close>

section \<open>User memory\<close>

text \<open>A byte of a page of 512 words.\<close>

definition frame_byte :: "(nat \<Rightarrow> u64) \<Rightarrow> nat \<Rightarrow> u8" where
  "frame_byte f i = ucast (drop_bit (8 * (i mod 8)) (f (i div 8)))"

definition set_frame_byte :: "nat \<Rightarrow> u8 \<Rightarrow> (nat \<Rightarrow> u64) \<Rightarrow> nat \<Rightarrow> u64" where
  "set_frame_byte i b f =
     f(i div 8 := (f (i div 8) AND NOT (push_bit (8 * (i mod 8)) (mask 8))) OR push_bit (8 * (i mod 8)) (ucast b))"

definition phys_get :: "paddr \<Rightarrow> vmm \<Rightarrow> u8" where
  "phys_get pa s = frame_byte (mem s (pa AND NOT (mask 12))) (unat (pa AND mask 12))"

definition phys_put :: "paddr \<Rightarrow> u8 \<Rightarrow> vmm \<Rightarrow> vmm" where
  "phys_put pa b s = (let p = pa AND NOT (mask 12) in s\<lparr>mem := (mem s)(p := set_frame_byte (unat (pa AND mask 12)) b (mem s p))\<rparr>)"

text \<open>
  A load and a store of the kernel at a virtual address. A store to a page that is not writable
  raises a fault (write protection is on in ring 0, as the loader leaves it); when
  \<^verbatim>\<open>vmm_page_fault\<close> takes care of it the instruction is repeated, otherwise the kernel panics.
  Only the leaf entry is looked at: the kernel makes every entry above it writable.
\<close>

definition uget :: "vaddr \<Rightarrow> vmm \<Rightarrow> u8 res" where
  "uget va s = (case mmu_translate (mem s) (cr3 s) va of None \<Rightarrow> Inl PageFault | Some pa \<Rightarrow> Inr (phys_get pa s))"

definition mmu_store :: "vaddr \<Rightarrow> u8 \<Rightarrow> vmm \<Rightarrow> vmm res" where
  "mmu_store va b s =
     (case (walk (mem s) (cr3 s) (va_path va), mmu_translate (mem s) (cr3 s) va) of
        (Some (e, k), Some pa) \<Rightarrow> if e AND VMM_WRITE \<noteq> 0 then Inr (phys_put pa b s) else Inl PageFault
      | _ \<Rightarrow> Inl PageFault)"

definition uput :: "console \<Rightarrow> vaddr \<Rightarrow> u8 \<Rightarrow> vmm \<Rightarrow> vmm res" where
  "uput con va b s =
     (case mmu_store va b s of
        Inr s \<Rightarrow> Inr s
      | Inl _ \<Rightarrow>
        (case walk (mem s) (cr3 s) (va_path va) of
           None \<Rightarrow> Inl PageFault
         | Some _ \<Rightarrow> rbind (vmm_page_fault va 3 s con) (\<lambda>(handled, s, _). if handled then mmu_store va b s else Inl PageFault)))"

text \<open>\<^verbatim>\<open>memcpy\<close> of \<open>n\<close> bytes, from offset \<open>off\<close> of an image, to a user address.\<close>

definition copy_to_user :: "console \<Rightarrow> vaddr \<Rightarrow> bytes \<Rightarrow> u64 \<Rightarrow> nat \<Rightarrow> vmm \<Rightarrow> vmm res" where
  "copy_to_user con va img off n = for_res (\<lambda>k. uput con (va + of_nat k) (img (off + of_nat k))) [0..<n]"

section \<open>Flat programs\<close>

definition USER_CODE_BASE :: u64 where "USER_CODE_BASE = 0x400000"
definition USER_STACK_TOP :: u64 where "USER_STACK_TOP = 0x800000"
definition USER_STACK_SIZE :: u64 where "USER_STACK_SIZE = 0x40000"
definition USER_FLAGS :: u64 where "USER_FLAGS = VMM_PRESENT OR VMM_WRITE OR VMM_USER"

text \<open>One round of the loop: offset \<open>4096 * k\<close>. The result of \<^verbatim>\<open>pmm_alloc\<close> is not checked.\<close>

definition flat_page :: "console \<Rightarrow> bytes \<Rightarrow> u64 \<Rightarrow> nat \<Rightarrow> vmm \<Rightarrow> vmm res" where
  "flat_page con img len k s =
     (let off = of_nat k * UIX_PAGE_SIZE in
      case vmm_alloc s of (p, s) \<Rightarrow>
      rbind (vmm_map (USER_CODE_BASE + off) p USER_FLAGS s) (\<lambda>s.
      let chunk = len - off; chunk = (if chunk > UIX_PAGE_SIZE then UIX_PAGE_SIZE else chunk)
      in copy_to_user con (USER_CODE_BASE + off) img off (unat chunk) s))"

text \<open>The rounds of \<^verbatim>\<open>while (off < len)\<close>, for a length of at most \<open>2 ^ 64 - 4096\<close>.\<close>

definition load_flat :: "console \<Rightarrow> bytes \<Rightarrow> u64 \<Rightarrow> vmm \<Rightarrow> vmm res" where
  "load_flat con img len = for_res (flat_page con img len) [0..<(unat len + 4095) div 4096]"

definition stack_page :: "nat \<Rightarrow> vmm \<Rightarrow> vmm res" where
  "stack_page k s =
     (case vmm_alloc s of (p, s) \<Rightarrow> vmm_map (USER_STACK_TOP - UIX_PAGE_SIZE - of_nat k * UIX_PAGE_SIZE) p USER_FLAGS s)"

definition map_stack :: "vmm \<Rightarrow> vmm res" where
  "map_stack = for_res stack_page [0..<unat (USER_STACK_SIZE div UIX_PAGE_SIZE)]"

section \<open>ELF programs\<close>

record elf64_ehdr =
  ident :: "nat \<Rightarrow> u8"
  machine :: u16
  entry :: u64
  phoff :: u64
  phentsize :: u16
  phnum :: u16

record elf64_phdr =
  ptype :: u32
  poffset :: u64
  pvaddr :: u64
  filesz :: u64
  memsz :: u64

definition SIZEOF_EHDR :: u64 where "SIZEOF_EHDR = 64"
definition SIZEOF_PHDR :: u64 where "SIZEOF_PHDR = 56"
definition PT_LOAD :: u32 where "PT_LOAD = 1"

text \<open>The fields of the packed structures, from the bytes.\<close>

definition ehdr_of :: "bytes \<Rightarrow> elf64_ehdr" where
  "ehdr_of img = \<lparr>ident = \<lambda>i. img (of_nat i), machine = get16 img 18, entry = get64 img 24, phoff = get64 img 32,
     phentsize = get16 img 54, phnum = get16 img 56\<rparr>"

definition phdr_of :: "bytes \<Rightarrow> u64 \<Rightarrow> elf64_phdr" where
  "phdr_of img a = \<lparr>ptype = get32 img a, poffset = get64 img (a + 8), pvaddr = get64 img (a + 16),
     filesz = get64 img (a + 32), memsz = get64 img (a + 40)\<rparr>"

text \<open>One page of a segment. \<open>False\<close> when \<^verbatim>\<open>pmm_alloc\<close> has no page.\<close>

definition elf_page :: "console \<Rightarrow> bytes \<Rightarrow> u64 \<Rightarrow> elf64_phdr \<Rightarrow> u64 \<Rightarrow> vmm \<Rightarrow> (bool \<times> vmm) res" where
  "elf_page con img len ph va s =
     (case vmm_alloc s of (pg, s) \<Rightarrow>
      if pg = 0 then Inr (False, s)
      else rbind (vmm_map va pg USER_FLAGS (zero_page pg s)) (\<lambda>s.
        let file_off = poffset ph + (va - pvaddr ph) in
        if file_off \<ge> poffset ph \<and> va < pvaddr ph + filesz ph
        then let copy = pvaddr ph + filesz ph - va;
                 copy = (if copy > UIX_PAGE_SIZE then UIX_PAGE_SIZE else copy);
                 copy = (if file_off + copy > len then len - file_off else copy)
             in rbind (copy_to_user con va img file_off (unat copy) s) (\<lambda>s. Inr (True, s))
        else Inr (True, s)))"

fun elf_pages :: "console \<Rightarrow> bytes \<Rightarrow> u64 \<Rightarrow> elf64_phdr \<Rightarrow> nat \<Rightarrow> u64 \<Rightarrow> vmm \<Rightarrow> (bool \<times> vmm) res" where
  "elf_pages con img len ph 0 va s = Inr (True, s)"
| "elf_pages con img len ph (Suc n) va s =
     rbind (elf_page con img len ph va s) (\<lambda>(ok, s). if ok then elf_pages con img len ph n (va + UIX_PAGE_SIZE) s else Inr (False, s))"

definition seg_start :: "elf64_phdr \<Rightarrow> u64" where
  "seg_start ph = pvaddr ph AND NOT (UIX_PAGE_SIZE - 1)"

definition seg_end :: "elf64_phdr \<Rightarrow> u64" where
  "seg_end ph = (pvaddr ph + memsz ph + UIX_PAGE_SIZE - 1) AND NOT (UIX_PAGE_SIZE - 1)"

text \<open>Both ends are multiples of the page size, so the loop over the pages makes this many rounds.\<close>

definition seg_pages :: "elf64_phdr \<Rightarrow> nat" where
  "seg_pages ph = (if seg_start ph < seg_end ph then unat (seg_end ph - seg_start ph) div 4096 else 0)"

definition elf_segment :: "console \<Rightarrow> bytes \<Rightarrow> u64 \<Rightarrow> elf64_phdr \<Rightarrow> vmm \<Rightarrow> (bool \<times> vmm) res" where
  "elf_segment con img len ph s =
     (if ptype ph \<noteq> PT_LOAD then Inr (True, s) else elf_pages con img len ph (seg_pages ph) (seg_start ph) s)"

fun elf_segments :: "console \<Rightarrow> bytes \<Rightarrow> u64 \<Rightarrow> u64 \<Rightarrow> nat \<Rightarrow> u64 \<Rightarrow> vmm \<Rightarrow> (bool \<times> vmm) res" where
  "elf_segments con img len off 0 i s = Inr (True, s)"
| "elf_segments con img len off (Suc n) i s =
     rbind (elf_segment con img len (phdr_of img (off + i * SIZEOF_PHDR)) s) (\<lambda>(ok, s).
       if ok then elf_segments con img len off n (i + 1) s else Inr (False, s))"

definition elf_ok :: "bytes \<Rightarrow> u64 \<Rightarrow> bool" where
  "elf_ok img len \<longleftrightarrow> (let eh = ehdr_of img in
     \<not> len < SIZEOF_EHDR \<and>
     \<not> (ident eh 0 \<noteq> 0x7F \<or> ident eh 1 \<noteq> 0x45 \<or> ident eh 2 \<noteq> 0x4C \<or> ident eh 3 \<noteq> 0x46) \<and>
     ident eh 4 = 2 \<and> machine eh = 0x3E \<and> \<not> (phnum eh = 0 \<or> ucast (phentsize eh) < SIZEOF_PHDR) \<and>
     \<not> phoff eh + ucast (phnum eh) * ucast (phentsize eh) > len)"

definition elf_load :: "console \<Rightarrow> bytes \<Rightarrow> u64 \<Rightarrow> vmm \<Rightarrow> (u64 \<times> vmm) res" where
  "elf_load con img len s =
     (if \<not> elf_ok img len then Inr (0, s)
      else let eh = ehdr_of img in
        rbind (elf_segments con img len (phoff eh) (unat (phnum eh)) 0 s) (\<lambda>(ok, s).
          Inr (if ok then entry eh else 0, s)))"

section \<open>Bytes of a page\<close>

lemma frame_byte_set: "frame_byte (set_frame_byte i b f) j = (if j = i then b else frame_byte f j)"
proof (cases "i div 8 = j div 8")
  case True
  have lt: "i mod 8 < 8" "j mod 8 < 8" by simp_all
  have ne: "i mod 8 \<noteq> j mod 8" if "j \<noteq> i" using that True by (metis mult_div_mod_eq)
  show ?thesis
  proof (rule bit_word_eqI)
    fix n assume "n < LENGTH(8)"
    then have n: "n < 8" by simp
    have b: "bit (frame_byte (set_frame_byte i b f) j) n \<longleftrightarrow>
        (if 8 * (i mod 8) \<le> 8 * (j mod 8) + n \<and> 8 * (j mod 8) + n < 8 * (i mod 8) + 8 then bit b (8 * (j mod 8) + n - 8 * (i mod 8))
         else bit (f (i div 8)) (8 * (j mod 8) + n))"
      using n lt True bit_imp_le_length [of b "8 * (j mod 8) + n - 8 * (i mod 8)"]
      by (auto simp: frame_byte_def set_frame_byte_def bit_simps)
    show "bit (frame_byte (set_frame_byte i b f) j) n = bit (if j = i then b else frame_byte f j) n"
    proof (cases "j = i")
      case True
      then show ?thesis using n unfolding b by simp
    next
      case False
      then have o: "\<not> (8 * (i mod 8) \<le> 8 * (j mod 8) + n \<and> 8 * (j mod 8) + n < 8 * (i mod 8) + 8)" using ne n by linarith
      show ?thesis unfolding b if_not_P [OF o] using False True n lt by (simp add: frame_byte_def bit_simps)
    qed
  qed
qed (auto simp: frame_byte_def set_frame_byte_def)


lemma word_split_mask: "(x AND NOT (mask n)) + (x AND mask n) = (x :: u64)"
proof -
  have "(x AND NOT (mask n)) AND (x AND mask n) = 0" "(x AND NOT (mask n)) OR (x AND mask n) = x"
    by (auto simp: bit_eq_iff [where ?'a = u64] bit_simps)
  then show ?thesis using disjunctive_add_eq_or [of "x AND NOT (mask n)" "x AND mask n"] by simp
qed

lemma unat_and_mask: "unat (x AND mask n :: u64) = unat x mod 2 ^ n"
  unfolding take_bit_eq_mask [symmetric] unsigned_take_bit_eq by (simp only: take_bit_eq_mod)

lemma page_split:
  assumes va: "va AND mask 12 = (0 :: u64)" and k: "k < 4096"
  shows "(va + of_nat k) AND mask 12 = of_nat k" "(va + of_nat k) AND NOT (mask 12) = va" "unat (of_nat k :: u64) = k"
proof -
  show u: "unat (of_nat k :: u64) = k" using k by (simp add: unat_of_nat)
  have "unat va mod 4096 = 0" using va unat_and_mask [of va 12] by simp
  then have "(unat va + k) mod 4096 = k" using k by (simp add: mod_add_eq [symmetric, of "unat va" k])
  moreover have "unat (va + of_nat k) mod 4096 = (unat va + k) mod 4096"
    using u by (simp add: unat_word_ariths mod_mod_cancel)
  ultimately show m: "(va + of_nat k) AND mask 12 = of_nat k"
    using u unat_and_mask [of "va + of_nat k" 12] by (simp add: word_unat_eq_iff)
  show "(va + of_nat k) AND NOT (mask 12) = va" using word_split_mask [of "va + of_nat k" 12] unfolding m by simp
qed

lemma page_size_mask: "UIX_PAGE_SIZE - 1 = mask 12"
  by (simp add: UIX_PAGE_SIZE_def mask_eq_exp_minus_1)

lemma va_path_in_page: "va AND mask 12 = 0 \<Longrightarrow> k < 4096 \<Longrightarrow> va_path (va + of_nat k) = va_path va"
  using page_split(2) [of va k] va_path_page [of "va + of_nat k"] 
  by (simp only: page_size_mask)

text \<open>A writable 4 KiB mapping of a page, and a page whose bytes are known and whose frame is nobody else's.\<close>

definition user_frame :: "vmm \<Rightarrow> vaddr \<Rightarrow> paddr \<Rightarrow> bool" where
  "user_frame s va p \<longleftrightarrow>
     (\<exists>e. walk (mem s) (cr3 s) (va_path va) = Some (e, 0) \<and> e AND PTE_MASK = p \<and> e AND VMM_WRITE \<noteq> 0)"

definition own_frame :: "vmm \<Rightarrow> paddr \<Rightarrow> bool" where
  "own_frame s p \<longleftrightarrow> p \<notin> space_tables (mem s) (cr3 s) \<and> p \<notin> free_pages (pm s)"

definition page_holds :: "vmm \<Rightarrow> vaddr \<Rightarrow> nat \<Rightarrow> (nat \<Rightarrow> u8) \<Rightarrow> bool" where
  "page_holds s va n g \<longleftrightarrow>
     (\<exists>p. user_frame s va p \<and> own_frame s p \<and> (\<forall>j < n. frame_byte (mem s p) j = g j))"

lemma page_holds_mono: "page_holds s va n g \<Longrightarrow> m \<le> n \<Longrightarrow> (\<And>j. j < m \<Longrightarrow> h j = g j) \<Longrightarrow> page_holds s va m h"
  unfolding page_holds_def by force

lemma user_access:
  assumes fr: "user_frame s va p" and va: "va AND mask 12 = 0" and k: "k < 4096"
  shows "uget (va + of_nat k) s = Inr (frame_byte (mem s p) k)"
    and "mmu_store (va + of_nat k) b s = Inr (s\<lparr>mem := (mem s)(p := set_frame_byte k b (mem s p))\<rparr>)"
proof -
  from fr obtain e where e: "walk (mem s) (cr3 s) (va_path va) = Some (e, 0)" "e AND PTE_MASK = p" "e AND VMM_WRITE \<noteq> 0"
    unfolding user_frame_def by blast
  have p12: "p AND mask 12 = 0" "p AND NOT (mask 12) = p"
    using e(2) pte_mask_12 [of e] word_split_mask [of p 12] by (auto simp: and.assoc)
  have t: "mmu_translate (mem s) (cr3 s) (va + of_nat k) = Some (p + of_nat k)"
    using e p12 page_split(1) [OF va k] by (simp add: mmu_translate_def va_path_in_page [OF va k] pte_mask_12)
  note q = page_split [OF p12(1) k]
  show "uget (va + of_nat k) s = Inr (frame_byte (mem s p) k)" by (simp add: uget_def t phys_get_def q)
  show "mmu_store (va + of_nat k) b s = Inr (s\<lparr>mem := (mem s)(p := set_frame_byte k b (mem s p))\<rparr>)"
    using e by (simp add: mmu_store_def t phys_put_def q va_path_in_page [OF va k] Let_def)
qed

lemma page_holds_get:
  assumes "page_holds s va n g" and "va AND mask 12 = 0" and "k < n" and "n \<le> 4096"
  shows "uget (va + of_nat k) s = Inr (g k)" and "\<exists>s'. mmu_store (va + of_nat k) b s = Inr s'"
proof -
  from assms(1) obtain p where p: "user_frame s va p" "\<forall>j < n. frame_byte (mem s p) j = g j" unfolding page_holds_def by blast
  have "k < 4096" using assms(3,4) by simp
  note a = user_access [OF p(1) assms(2) this]
  show "uget (va + of_nat k) s = Inr (g k)" "\<exists>s'. mmu_store (va + of_nat k) b s = Inr s'"
    using a(1) a(2) [of b] p(2) assms(3) by simp_all
qed

text \<open>Writing to a frame that is not a table changes no translation.\<close>

lemma frame_write:
  assumes p: "p \<notin> space_tables (mem s) (cr3 s)" and s': "s' = s\<lparr>mem := (mem s)(p := f)\<rparr>"
  shows "walk (mem s') (cr3 s') (va_path va) = walk (mem s) (cr3 s) (va_path va)"
    and "space_tables (mem s') (cr3 s') = space_tables (mem s) (cr3 s)"
    and "user_frame s' va q = user_frame s va q"
proof -
  have same: "mem s' t = mem s t" if "t \<in> space_tables (mem s) (cr3 s)" for t using that p s' by auto
  have w: "walk (mem s') (cr3 s') (va_path va) = walk (mem s) (cr3 s) (va_path va)" for va
    using space_outside(1) [where m = "mem s" and m' = "mem s'" and r = "cr3 s", OF same] s' by simp
  then show "walk (mem s') (cr3 s') (va_path va) = walk (mem s) (cr3 s) (va_path va)" .
  show "space_tables (mem s') (cr3 s') = space_tables (mem s) (cr3 s)"
    using space_tables_outside [where m = "mem s" and m' = "mem s'" and r = "cr3 s", OF same] s' by simp
  show "user_frame s' va q = user_frame s va q" unfolding user_frame_def w ..
qed

lemma for_res_append: "for_res f (xs @ ys) s = rbind (for_res f xs s) (for_res f ys)"
  by (induction xs arbitrary: s) (auto simp: rbind_def split: sum.splits)

lemma copy_page:
  assumes fr: "user_frame s va p" and p: "p \<notin> space_tables (mem s) (cr3 s)" and va: "va AND mask 12 = 0"
  shows "n \<le> 4096 \<Longrightarrow> \<exists>f. copy_to_user con va img off n s = Inr (s\<lparr>mem := (mem s)(p := f)\<rparr>) \<and>
    (\<forall>j. frame_byte f j = (if j < n then img (off + of_nat j) else frame_byte (mem s p) j))"
proof (induction n)
  case 0
  have "s = s\<lparr>mem := (mem s)(p := mem s p)\<rparr>" by simp
  then show ?case unfolding copy_to_user_def by (intro exI [of _ "mem s p"]) simp
next
  case (Suc n)
  then obtain f where f: "copy_to_user con va img off n s = Inr (s\<lparr>mem := (mem s)(p := f)\<rparr>)"
    and fb: "\<And>j. frame_byte f j = (if j < n then img (off + of_nat j) else frame_byte (mem s p) j)"
    using Suc_leD by blast
  let ?s = "s\<lparr>mem := (mem s)(p := f)\<rparr>" and ?f = "set_frame_byte n (img (off + of_nat n)) f"
  have "user_frame ?s va p" using frame_write(3) [OF p refl] fr by blast
  from user_access(2) [OF this va, of n] Suc.prems
  have "uput con (va + of_nat n) (img (off + of_nat n)) ?s = Inr (s\<lparr>mem := (mem s)(p := ?f)\<rparr>)" by (simp add: uput_def)
  then have "copy_to_user con va img off (Suc n) s = Inr (s\<lparr>mem := (mem s)(p := ?f)\<rparr>)"
    using f by (simp add: copy_to_user_def for_res_append)
  moreover have "\<forall>j. frame_byte ?f j = (if j < Suc n then img (off + of_nat j) else frame_byte (mem s p) j)"
    by (auto simp: frame_byte_set fb less_Suc_eq)
  ultimately show ?case by blast
qed

section \<open>Adding a page to a space\<close>

lemma ensure_entry_cr3: "ensure_entry t i create s = Inr (ok, s') \<Longrightarrow> cr3 s' = cr3 s \<and> kernel_cr3 s' = kernel_cr3 s"
  by (auto simp: ensure_entry_def vmm_alloc_def zero_page_def tbl_write_def Let_def split: if_splits prod.splits)

lemma pt_for_cr3: "pt_for va create s = Inr (r, s') \<Longrightarrow> cr3 s' = cr3 s \<and> kernel_cr3 s' = kernel_cr3 s"
  unfolding pt_for_def rbind_eq_Inr Let_def
  by (auto simp: rbind_eq_Inr split: if_splits dest!: ensure_entry_cr3)

lemma vmm_map_cr3: "vmm_map va pa flags s = Inr s' \<Longrightarrow> cr3 s' = cr3 s \<and> kernel_cr3 s' = kernel_cr3 s"
  by (auto simp: vmm_map_def table_for_def rbind_eq_Inr invlpg_def tbl_write_def split: option.splits if_splits dest!: pt_for_cr3)

text \<open>
  The space \<open>s'\<close> has grown from \<open>s\<close> by pages with the numbers \<open>P\<close>: every other page is translated
  as before, and where its bytes were known they are the same.
\<close>

definition grown :: "u64 set \<Rightarrow> vmm \<Rightarrow> vmm \<Rightarrow> bool" where
  "grown P s s' \<longleftrightarrow> vmm_wf s' \<and> cr3 s' = pml4 s' \<and> pml4 s' = pml4 s \<and> kernel_cr3 s' = kernel_cr3 s \<and>
     (\<forall>va'. vpage va' \<notin> P \<longrightarrow> walk (mem s') (pml4 s') (va_path va') = walk (mem s) (pml4 s) (va_path va')) \<and>
     (\<forall>va' m h. vpage va' \<notin> P \<longrightarrow> page_holds s va' m h \<longrightarrow> page_holds s' va' m h)"

lemma grown_refl: "vmm_wf s \<Longrightarrow> cr3 s = pml4 s \<Longrightarrow> grown P s s"
  by (simp add: grown_def)

lemma grown_mono: "grown P s s' \<Longrightarrow> P \<subseteq> Q \<Longrightarrow> grown Q s s'"
  unfolding grown_def by blast

lemma grown_trans: "grown P s s' \<Longrightarrow> grown Q s' s'' \<Longrightarrow> grown (P \<union> Q) s s''"
  unfolding grown_def by auto

lemma grown_walk: "grown P s s' \<Longrightarrow> vpage va \<notin> P \<Longrightarrow> walk (mem s') (pml4 s') (va_path va) = walk (mem s) (pml4 s) (va_path va)"
  and grown_holds: "grown P s s' \<Longrightarrow> vpage va \<notin> P \<Longrightarrow> page_holds s va m h \<Longrightarrow> page_holds s' va m h"
  and grown_wf: "grown P s s' \<Longrightarrow> vmm_wf s'" "grown P s s' \<Longrightarrow> cr3 s' = pml4 s'" "grown P s s' \<Longrightarrow> pml4 s' = pml4 s"
    "grown P s s' \<Longrightarrow> kernel_cr3 s' = kernel_cr3 s"
  unfolding grown_def by blast+

text \<open>
  A round of the loading loops: the page is there, writable and with the given bytes, in a frame of
  its own, and at most four pages were taken.
\<close>

definition page_added :: "vaddr \<Rightarrow> (nat \<Rightarrow> u8) \<Rightarrow> vmm \<Rightarrow> vmm \<Rightarrow> bool" where
  "page_added va g s s' \<longleftrightarrow> grown {vpage va} s s' \<and> page_holds s' va 4096 g \<and>
     card (free_pages (pm s)) \<le> card (free_pages (pm s')) + 4"

lemma page_added_cong: "page_added va g s s' \<Longrightarrow> (\<And>j. j < 4096 \<Longrightarrow> h j = g j) \<Longrightarrow> page_added va h s s'"
  unfolding page_added_def using page_holds_mono by blast

lemma user_flags: "USER_FLAGS AND VMM_PRESENT \<noteq> 0" "(p OR USER_FLAGS) AND VMM_WRITE \<noteq> 0" "USER_FLAGS AND PTE_MASK = 0"
proof -
  have "bit (p OR USER_FLAGS) 1" by (simp add: USER_FLAGS_def uix_const bit_or_iff)
  then show "(p OR USER_FLAGS) AND VMM_WRITE \<noteq> 0" by (metis VMM_WRITE_def and_exp_eq_0_iff_not_bit power_one_right)
qed (simp_all add: USER_FLAGS_def uix_const)

lemma alloc_and_fill:
  assumes wf: "vmm_wf s" and room: "free_pages (pm s) \<noteq> {}" and a: "vmm_alloc s = (p, s1)"
    and sz: "sz = s1\<lparr>mem := (mem s1)(p := f)\<rparr>"
  shows "p \<noteq> 0" "vmm_wf sz" "walk (mem sz) (pml4 sz) (va_path va) = walk (mem s) (pml4 s) (va_path va)"
    and "space_tables (mem sz) (pml4 sz) = space_tables (mem s) (pml4 s)" "mem sz = (mem s)(p := f)"
    and "pml4 sz = pml4 s" "cr3 sz = cr3 s \<and> kernel_cr3 sz = kernel_cr3 s" "p \<notin> space_tables (mem s) (pml4 s)" "p AND PTE_MASK = p"
    and "p \<in> free_pages (pm s)" "free_pages (pm sz) = free_pages (pm s) - {p}"
    and "card (free_pages (pm s)) = Suc (card (free_pages (pm sz)))"
proof -
  have inv: "pmm_inv (pm s)" "bitmap_len (pm s) \<le> 2 ^ 40" "space_tables (mem s) (pml4 s) \<inter> free_pages (pm s) = {}"
    using wf by (simp_all add: vmm_wf_def)
  show p: "p \<noteq> 0" using vmm_alloc_succeeds [OF wf room a] .
  note pg = vmm_alloc_page [OF inv(1,2) a p] and keeps = vmm_alloc_keeps [OF wf a p]
  have "pm sz = pm s1" and szf: "pml4 sz = pml4 s" "cr3 sz = cr3 s \<and> kernel_cr3 sz = kernel_cr3 s" "mem sz = (mem s)(p := f)"
    using pg(7) sz by (metis vmm.simps vmm.surjective vmm.update_convs)+
  then show "p \<in> free_pages (pm s)" "pml4 sz = pml4 s" "cr3 sz = cr3 s \<and> kernel_cr3 sz = kernel_cr3 s" "mem sz = (mem s)(p := f)"
    "p AND PTE_MASK = p" "free_pages (pm sz) = free_pages (pm s) - {p}"
    "card (free_pages (pm s)) = Suc (card (free_pages (pm sz)))"
    using pg keeps(3) by (simp_all add: is_frame_def)
  show tp: "p \<notin> space_tables (mem s) (pml4 s)" using pg(1) inv(3) by auto
  have same: "mem sz t = mem s t" if "t \<in> space_tables (mem s) (pml4 s)" for t using that tp szf(3) by auto
  have "pmm_inv (pm sz)" "bitmap_len (pm sz) = bitmap_len (pm s)" "free_pages (pm sz) \<subseteq> free_pages (pm s)"
    using pg \<open>pm sz = pm s1\<close> by auto
  note out = vmm_wf_outside [OF wf this szf(1)]
  show "vmm_wf sz" by (rule out) (rule same)
  show "walk (mem sz) (pml4 sz) (va_path va) = walk (mem s) (pml4 s) (va_path va)" by (rule out) (rule same)
  show "space_tables (mem sz) (pml4 sz) = space_tables (mem s) (pml4 s)"
    unfolding szf(1) by (rule space_tables_outside) (rule same)
qed

lemma load_page:
  assumes wf: "vmm_wf s" and c: "cr3 s = pml4 s" and room: "4 \<le> card (free_pages (pm s))"
    and un: "walk (mem s) (pml4 s) (va_path va) = None" and va: "va AND mask 12 = 0" and n: "n \<le> 4096"
    and a: "vmm_alloc s = (p, s1)" and sz: "sz = s1\<lparr>mem := (mem s1)(p := f)\<rparr>"
  shows "\<exists>s2 s3. p \<noteq> 0 \<and> vmm_map va p USER_FLAGS sz = Inr s2 \<and> copy_to_user con va img off n s2 = Inr s3 \<and>
    page_added va (\<lambda>j. if j < n then img (off + of_nat j) else frame_byte f j) s s3"
proof -
  have "free_pages (pm s) \<noteq> {}" using room by auto
  note z = alloc_and_fill [OF wf this a sz]
  have "3 \<le> card (free_pages (pm sz))" using z(12) room by simp
  moreover have "walk (mem sz) (pml4 sz) (va_path va) = None" using z(3) un by simp
  ultimately obtain s2 where m: "vmm_map va p USER_FLAGS sz = Inr s2"
    and card: "card (free_pages (pm sz)) \<le> card (free_pages (pm s2)) + 3"
    using vmm_map_total [OF z(2)] by blast
  note r = vmm_map_result [OF z(2) m]
  have c2: "cr3 s2 = pml4 s2" "pml4 s2 = pml4 s" "kernel_cr3 s2 = kernel_cr3 s" using vmm_map_cr3 [OF m] z(6,7) c r(2) by simp_all
  have t2: "space_tables (mem s2) (pml4 s) \<subseteq> space_tables (mem s) (pml4 s) \<union> (free_pages (pm s) - {p})"
    using r(8) z(4,6,11) by simp
  have p2: "p \<notin> space_tables (mem s2) (cr3 s2)" using t2 z(8) c2 by auto
  have u2: "user_frame s2 va p"
    using r(5) [OF user_flags(1)] c2(1) user_flags(2) [of p] z(9) pte_frame [OF user_flags(3), of p]
    by (auto simp: user_frame_def)
  have mp: "mem s2 q = mem sz q" if "own_frame s q \<or> q = p" for q
    using that r(7) [of q] z(4,8,11) c by (auto simp: own_frame_def)
  obtain f' where cp: "copy_to_user con va img off n s2 = Inr (s2\<lparr>mem := (mem s2)(p := f')\<rparr>)"
    and f': "\<forall>j. frame_byte f' j = (if j < n then img (off + of_nat j) else frame_byte (mem s2 p) j)"
    using copy_page [OF u2 p2 va n] by blast
  define s3 where "s3 = s2\<lparr>mem := (mem s2)(p := f')\<rparr>"
  note w = frame_write [OF p2 s3_def]
  have s3f: "pm s3 = pm s2" "pml4 s3 = pml4 s2" "cr3 s3 = cr3 s2" "kernel_cr3 s3 = kernel_cr3 s2" by (simp_all add: s3_def)
  have wf3: "vmm_wf s3"
    by (rule vmm_wf_outside [OF r(1)]) (use r(1) p2 c2 in \<open>auto simp: s3_def vmm_wf_def\<close>)
  have own: "own_frame s3 q" if "own_frame s q \<or> q = p" for q
    using that z(8,11) t2 w(2) s3f c c2 r(3) unfolding own_frame_def by auto
  have here: "page_holds s3 va 4096 (\<lambda>j. if j < n then img (off + of_nat j) else frame_byte f j)"
    unfolding page_holds_def using u2 w(3) own f' mp z(5) by (intro exI [of _ p]) (simp add: s3_def)
  have walk: "walk (mem s3) (pml4 s3) (va_path va') = walk (mem s) (pml4 s) (va_path va')" if "vpage va' \<noteq> vpage va" for va'
    using w(1) [of va'] r(6) [OF that] z(3) s3f c2 by simp
  have "page_holds s3 va' k h" if v: "vpage va' \<noteq> vpage va" and h: "page_holds s va' k h" for va' k h
  proof -
    obtain q where q: "user_frame s va' q" "own_frame s q" "\<forall>j < k. frame_byte (mem s q) j = h j"
      using h unfolding page_holds_def by blast
    have "q \<noteq> p" using q(2) z(10) by (auto simp: own_frame_def)
    then have "mem s3 q = mem s q" using mp q(2) z(5) by (simp add: s3_def)
    moreover have "user_frame s3 va' q" using q(1) walk [OF v] s3f c c2 by (simp add: user_frame_def)
    ultimately show ?thesis unfolding page_holds_def using q(3) own q(2) by auto
  qed
  then have "page_added va (\<lambda>j. if j < n then img (off + of_nat j) else frame_byte f j) s s3"
    unfolding page_added_def grown_def using wf3 here walk s3f c2 card z(12) by simp
  then show ?thesis using z(1) m cp s3_def by blast
qed

lemma add_pages:
  assumes step: "\<And>i t. i \<in> set is \<Longrightarrow> vmm_wf t \<Longrightarrow> cr3 t = pml4 t \<Longrightarrow> 4 \<le> card (free_pages (pm t)) \<Longrightarrow>
      walk (mem t) (pml4 t) (va_path (va i)) = None \<Longrightarrow> \<exists>t' g. f i t = Inr t' \<and> G i g \<and> page_added (va i) g t t'"
    and "vmm_wf s" "cr3 s = pml4 s" "4 * (length is + k) \<le> card (free_pages (pm s))"
    and "\<And>i. i \<in> set is \<Longrightarrow> walk (mem s) (pml4 s) (va_path (va i)) = None" "distinct (map (vpage \<circ> va) is)"
  shows "\<exists>s'. for_res f is s = Inr s' \<and> grown (vpage ` va ` set is) s s' \<and> 4 * k \<le> card (free_pages (pm s')) \<and>
    (\<forall>i \<in> set is. \<exists>g. G i g \<and> page_holds s' (va i) 4096 g)"
  using assms
proof (induction "is" arbitrary: s)
  case Nil
  then show ?case by (simp add: grown_refl)
next
  case (Cons i "is")
  obtain t g where t: "f i s = Inr t" "G i g" "page_added (va i) g s t"
    using Cons.prems(1) [of i s] Cons.prems(2-5) by auto
  then have gr: "grown {vpage (va i)} s t" and h: "page_holds t (va i) 4096 g"
    and c: "card (free_pages (pm s)) \<le> card (free_pages (pm t)) + 4" by (simp_all add: page_added_def)
  have ne: "vpage (va j) \<noteq> vpage (va i)" if "j \<in> set is" for j
    using that Cons.prems(6) by (auto simp: image_iff)
  have "\<exists>s'. for_res f is t = Inr s' \<and> grown (vpage ` va ` set is) t s' \<and> 4 * k \<le> card (free_pages (pm s')) \<and>
      (\<forall>i \<in> set is. \<exists>g. G i g \<and> page_holds s' (va i) 4096 g)"
  proof (rule Cons.IH)
    show "walk (mem t) (pml4 t) (va_path (va j)) = None" if "j \<in> set is" for j
      using grown_walk [OF gr, of "va j"] ne [OF that] Cons.prems(5) [of j] that by simp
  qed (use Cons.prems grown_wf [OF gr] c in auto)
  then obtain s' where s': "for_res f is t = Inr s'" "grown (vpage ` va ` set is) t s'" "4 * k \<le> card (free_pages (pm s'))"
    "\<forall>i \<in> set is. \<exists>g. G i g \<and> page_holds s' (va i) 4096 g" by blast
  have "vpage (va i) \<notin> vpage ` va ` set is" using ne by (metis imageE)
  from grown_holds [OF s'(2) this h] have "page_holds s' (va i) 4096 g" .
  then show ?case using t(1,2) s' grown_trans [OF gr s'(2)] by auto
qed

lemma unat_of_nat_64: "n < 2 ^ 64 \<Longrightarrow> unat (of_nat n :: u64) = n"
  by (simp add: unat_of_nat)

lemma unat_add_64: "unat a + unat b < 2 ^ 64 \<Longrightarrow> unat (a + b :: u64) = unat a + unat b"
  by (simp add: unat_word_ariths)

lemma unat_vpage:
  assumes "unat va < 2 ^ 48"
  shows "unat (vpage va) = unat va div 4096"
proof -
  have "unat (vpage va) = (unat va div 4096) mod 2 ^ 36"
    by (simp add: vpage_def take_bit_eq_mod unat_mod_distrib unat_drop_12)
  moreover have "unat va div 4096 < 2 ^ 36" using assms by (simp add: div_less_iff_less_mult)
  ultimately show ?thesis by simp
qed

section \<open>Flat programs are loaded\<close>

lemmas user_const = USER_CODE_BASE_def USER_STACK_TOP_def USER_STACK_SIZE_def UIX_PAGE_SIZE_def

text \<open>Pages counted up from a base.\<close>

lemma page_at:
  assumes base: "base AND mask 12 = (0 :: u64)" and k: "unat base + 4096 * Suc k \<le> 2 ^ 48"
  shows "unat (base + of_nat k * UIX_PAGE_SIZE) = unat base + 4096 * k" "(base + of_nat k * UIX_PAGE_SIZE) AND mask 12 = 0"
    "unat (vpage (base + of_nat k * UIX_PAGE_SIZE)) = unat base div 4096 + k"
proof -
  let ?va = "base + of_nat k * UIX_PAGE_SIZE"
  have b: "unat base mod 4096 = 0" using unat_and_mask [of base 12] base by simp
  have "of_nat k * UIX_PAGE_SIZE = (of_nat (4096 * k) :: u64)" by (simp add: UIX_PAGE_SIZE_def)
  moreover have "unat (of_nat (4096 * k) :: u64) = 4096 * k" by (rule unat_of_nat_64) (use k in simp)
  ultimately show u: "unat ?va = unat base + 4096 * k" using k by (simp add: unat_word_ariths)
  show "?va AND mask 12 = 0" using unat_and_mask [of ?va 12] b u by (simp add: unat_eq_0)
  show "unat (vpage ?va) = unat base div 4096 + k" using unat_vpage [of ?va] k unfolding u by simp
qed

definition page_min :: "u64 \<Rightarrow> u64" where
  "page_min d = (if d > UIX_PAGE_SIZE then UIX_PAGE_SIZE else d)"

lemma unat_page_min: "unat (page_min d) = min 4096 (unat d)"
  by (simp add: page_min_def word_less_nat_alt UIX_PAGE_SIZE_def)

lemma flat_page_added:
  assumes wf: "vmm_wf s" and c: "cr3 s = pml4 s" and room: "4 \<le> card (free_pages (pm s))"
    and un: "walk (mem s) (pml4 s) (va_path (USER_CODE_BASE + of_nat k * UIX_PAGE_SIZE)) = None"
    and len: "unat len \<le> 2 ^ 40" and k: "4096 * k < unat len"
  shows "\<exists>s' g. flat_page con img len k s = Inr s' \<and>
    (\<forall>j < 4096. 4096 * k + j < unat len \<longrightarrow> g j = img (of_nat (4096 * k + j))) \<and>
    page_added (USER_CODE_BASE + of_nat k * UIX_PAGE_SIZE) g s s'"
proof -
  let ?off = "of_nat k * UIX_PAGE_SIZE :: u64" and ?va = "USER_CODE_BASE + of_nat k * UIX_PAGE_SIZE"
  define chunk where "chunk = (if len - ?off > UIX_PAGE_SIZE then UIX_PAGE_SIZE else len - ?off)"
  have off: "?off = of_nat (4096 * k)" by (simp add: UIX_PAGE_SIZE_def)
  have "unat ?off = 4096 * k" unfolding off by (rule unat_of_nat_64) (use k len in simp)
  then have "unat (len - ?off) = unat len - 4096 * k" using k by (simp add: unat_sub word_le_nat_alt)
  then have ch: "unat chunk = min 4096 (unat len - 4096 * k)" unfolding chunk_def page_min_def [symmetric] unat_page_min by simp
  have "USER_CODE_BASE AND mask 12 = 0" "unat USER_CODE_BASE + 4096 * Suc k \<le> 2 ^ 48"
    using k len by (simp_all add: USER_CODE_BASE_def mask_eq_exp_minus_1)
  note va = page_at [OF this]
  obtain p s1 where a: "vmm_alloc s = (p, s1)" by force
  have "s1 = s1\<lparr>mem := (mem s1)(p := mem s1 p)\<rparr>" by simp
  have "unat chunk \<le> 4096" using ch by simp
  from load_page [OF wf c room un va(2) this a \<open>s1 = _\<close>, of con img ?off]
  obtain s2 s3 where m: "vmm_map ?va p USER_FLAGS s1 = Inr s2" "copy_to_user con ?va img ?off (unat chunk) s2 = Inr s3"
    and pa: "page_added ?va (\<lambda>j. if j < unat chunk then img (?off + of_nat j) else frame_byte (mem s1 p) j) s s3"
    by blast
  have "flat_page con img len k s = Inr s3"
    unfolding flat_page_def Let_def a chunk_def [symmetric] using m by simp
  moreover have "\<forall>j < 4096. 4096 * k + j < unat len \<longrightarrow>
      (if j < unat chunk then img (?off + of_nat j) else frame_byte (mem s1 p) j) = img (of_nat (4096 * k + j))"
  proof (intro allI impI)
    fix j assume "j < 4096" "4096 * k + j < unat len"
    then have "j < unat chunk" unfolding ch by linarith
    then show "(if j < unat chunk then img (?off + of_nat j) else frame_byte (mem s1 p) j) = img (of_nat (4096 * k + j))"
      unfolding off by simp
  qed
  ultimately show ?thesis using pa
    by (intro exI [of _ s3] exI [of _ "\<lambda>j. if j < unat chunk then img (?off + of_nat j) else frame_byte (mem s1 p) j"] conjI)
qed

lemma stack_addr:
  assumes "k < 64"
  shows "unat (USER_STACK_TOP - UIX_PAGE_SIZE - of_nat k * UIX_PAGE_SIZE) = 4096 * (0x7FF - k)"
proof -
  have "(0x7FF000 - of_nat k * 0x1000 :: u64) = of_nat (4096 * (0x7FF - k))" using assms by (simp add: of_nat_diff algebra_simps)
  then have "USER_STACK_TOP - UIX_PAGE_SIZE - of_nat k * UIX_PAGE_SIZE = of_nat (4096 * (0x7FF - k))" by (simp add: user_const)
  moreover have "unat (of_nat (4096 * (0x7FF - k)) :: u64) = 4096 * (0x7FF - k)" by (rule unat_of_nat_64) simp
  ultimately show ?thesis by (simp only:)
qed

lemma stack_page_added:
  assumes "vmm_wf s" "cr3 s = pml4 s" "4 \<le> card (free_pages (pm s))" and k: "k < 64"
    and "walk (mem s) (pml4 s) (va_path (USER_STACK_TOP - UIX_PAGE_SIZE - of_nat k * UIX_PAGE_SIZE)) = None"
  shows "\<exists>s' g. stack_page k s = Inr s' \<and> page_added (USER_STACK_TOP - UIX_PAGE_SIZE - of_nat k * UIX_PAGE_SIZE) g s s'"
proof -
  let ?va = "USER_STACK_TOP - UIX_PAGE_SIZE - of_nat k * UIX_PAGE_SIZE"
  have va: "?va AND mask 12 = 0" using unat_and_mask [of ?va 12] stack_addr [OF k] by (simp add: unat_eq_0)
  obtain p s1 where a: "vmm_alloc s = (p, s1)" by force
  have "s1 = s1\<lparr>mem := (mem s1)(p := mem s1 p)\<rparr>" by simp
  from load_page [OF assms(1-3,5) va zero_le a this, of undefined "\<lambda>_. 0" 0] obtain s2 s3 where
    "vmm_map ?va p USER_FLAGS s1 = Inr s2" "copy_to_user undefined ?va (\<lambda>_. 0) 0 0 s2 = Inr s3"
    "page_added ?va (\<lambda>j. if j < 0 then 0 else frame_byte (mem s1 p) j) s s3" by blast
  then show ?thesis using a by (auto simp: stack_page_def copy_to_user_def)
qed

lemma load_flat_grown:
  assumes "vmm_wf s" "cr3 s = pml4 s" and len: "unat len \<le> 0x3C0000"
    and room: "4 * ((unat len + 4095) div 4096 + k) \<le> card (free_pages (pm s))"
    and un: "\<And>va. USER_CODE_BASE \<le> va \<Longrightarrow> va < USER_STACK_TOP \<Longrightarrow> walk (mem s) (pml4 s) (va_path va) = None"
  shows "\<exists>s'. load_flat con img len s = Inr s' \<and> grown {n. 0x400 \<le> unat n \<and> unat n < 0x7C0} s s' \<and>
    4 * k \<le> card (free_pages (pm s')) \<and>
    (\<forall>i < (unat len + 4095) div 4096. \<exists>g. (\<forall>j < 4096. 4096 * i + j < unat len \<longrightarrow> g j = img (of_nat (4096 * i + j))) \<and>
       page_holds s' (USER_CODE_BASE + of_nat i * UIX_PAGE_SIZE) 4096 g)"
proof -
  let ?m = "(unat len + 4095) div 4096" and ?va = "\<lambda>i. USER_CODE_BASE + of_nat i * UIX_PAGE_SIZE"
    and ?G = "\<lambda>i g. \<forall>j < 4096. 4096 * i + j < unat len \<longrightarrow> g j = img (of_nat (4096 * i + j))"
  have m: "?m \<le> 0x3C0" using len div_le_mono [of "unat len + 4095" "0x3C0000 + 4095" 4096] by simp
  have va: "unat (?va i) = 0x400000 + 4096 * i" "unat (vpage (?va i)) = 0x400 + i" if "i < ?m" for i
    using page_at [of USER_CODE_BASE i] that m by (simp_all add: USER_CODE_BASE_def mask_eq_exp_minus_1)
  have rng: "walk (mem s) (pml4 s) (va_path (?va i)) = None" if "i < ?m" for i
    by (rule un) (use va [OF that] that m in \<open>simp_all add: word_le_nat_alt word_less_nat_alt user_const\<close>)
  have "inj_on (vpage \<circ> ?va) {0..<?m}" using va(2) by (intro inj_onI) (metis add_left_cancel atLeastLessThan_iff comp_apply)
  then have d: "distinct (map (vpage \<circ> ?va) [0..<?m])" by (simp add: distinct_map)
  have room': "4 * (length [0..<?m] + k) \<le> card (free_pages (pm s))" using room by simp
  have step: "\<exists>t' g. flat_page con img len i t = Inr t' \<and> ?G i g \<and> page_added (?va i) g t t'"
    if "i \<in> set [0..<?m]" "vmm_wf t" "cr3 t = pml4 t" "4 \<le> card (free_pages (pm t))"
      "walk (mem t) (pml4 t) (va_path (?va i)) = None" for i t
  proof -
    have "Suc i \<le> ?m" using that(1) by simp
    then have "Suc i * 4096 \<le> unat len + 4095" by (subst (asm) less_eq_div_iff_mult_less_eq) simp_all
    then show ?thesis using flat_page_added [OF that(2-5), of len con img] len by simp
  qed
  have "\<exists>s'. for_res (flat_page con img len) [0..<?m] s = Inr s' \<and> grown (vpage ` ?va ` set [0..<?m]) s s' \<and>
      4 * k \<le> card (free_pages (pm s')) \<and> (\<forall>i \<in> set [0..<?m]. \<exists>g. ?G i g \<and> page_holds s' (?va i) 4096 g)"
    by (rule add_pages [where va = ?va and G = ?G, OF step assms(1,2) room' _ d]) (use rng in auto)
  then obtain s' where s': "load_flat con img len s = Inr s'" "grown (vpage ` ?va ` set [0..<?m]) s s'"
    "4 * k \<le> card (free_pages (pm s'))" "\<forall>i \<in> set [0..<?m]. \<exists>g. ?G i g \<and> page_holds s' (?va i) 4096 g"
    unfolding load_flat_def by blast
  have "grown {n. 0x400 \<le> unat n \<and> unat n < 0x7C0} s s'"
    using va(2) m by (intro grown_mono [OF s'(2)]) fastforce
  then show ?thesis using s' by auto
qed

lemma map_stack_grown:
  assumes "vmm_wf s" "cr3 s = pml4 s" and room: "4 * (64 + k) \<le> card (free_pages (pm s))"
    and un: "\<And>va. USER_STACK_TOP - USER_STACK_SIZE \<le> va \<Longrightarrow> va < USER_STACK_TOP \<Longrightarrow> walk (mem s) (pml4 s) (va_path va) = None"
  shows "\<exists>s'. map_stack s = Inr s' \<and> grown {n. 0x7C0 \<le> unat n \<and> unat n < 0x800} s s' \<and> 4 * k \<le> card (free_pages (pm s')) \<and>
    (\<forall>i < 64. \<exists>g. page_holds s' (USER_STACK_TOP - UIX_PAGE_SIZE - of_nat i * UIX_PAGE_SIZE) 4096 g)"
proof -
  let ?va = "\<lambda>i. USER_STACK_TOP - UIX_PAGE_SIZE - of_nat i * UIX_PAGE_SIZE"
  define m where "m = unat (USER_STACK_SIZE div UIX_PAGE_SIZE)"
  then have m: "m = 64" by (simp add: user_const)
  then have lt: "i \<in> set [0..<m] \<longleftrightarrow> i < 64" for i by (simp only: set_upt atLeastLessThan_iff) simp
  have vp: "unat (vpage (?va i)) = 0x7FF - i" if "i < 64" for i
    using stack_addr [OF that] that by (subst unat_vpage) simp_all
  have rng: "walk (mem s) (pml4 s) (va_path (?va i)) = None" if "i < 64" for i
  proof (rule un)
    show "USER_STACK_TOP - USER_STACK_SIZE \<le> ?va i" "?va i < USER_STACK_TOP"
      unfolding word_le_nat_alt word_less_nat_alt stack_addr [OF that] using that by (simp_all add: user_const)
  qed
  have "inj_on (vpage \<circ> ?va) {0..<m}"
  proof (rule inj_onI)
    fix i j :: nat assume "i \<in> {0..<m}" "j \<in> {0..<m}" "(vpage \<circ> ?va) i = (vpage \<circ> ?va) j"
    then show "i = j" using vp [of i] vp [of j] m by simp
  qed
  then have d: "distinct (map (vpage \<circ> ?va) [0..<m])" by (simp add: distinct_map)
  have room': "4 * (length [0..<m] + k) \<le> card (free_pages (pm s))" unfolding length_upt using room m by simp
  have "\<exists>s'. for_res stack_page [0..<m] s = Inr s' \<and> grown (vpage ` ?va ` set [0..<m]) s s' \<and>
      4 * k \<le> card (free_pages (pm s')) \<and> (\<forall>i \<in> set [0..<m]. \<exists>g. True \<and> page_holds s' (?va i) 4096 g)"
    by (rule add_pages [where va = ?va and G = "\<lambda>_ _. True", OF _ assms(1,2) room' _ d])
      (simp_all only: lt rng stack_page_added simp_thms)
  then obtain s' where s': "map_stack s = Inr s'" "grown (vpage ` ?va ` set [0..<m]) s s'" "4 * k \<le> card (free_pages (pm s'))"
    "\<forall>i < 64. \<exists>g. page_holds s' (?va i) 4096 g"
    unfolding map_stack_def m_def [symmetric] using lt by blast
  have "grown {n. 0x7C0 \<le> unat n \<and> unat n < 0x800} s s'"
    using vp by (intro grown_mono [OF s'(2)]) (auto simp only: lt image_iff mem_Collect_eq subset_iff)
  then show ?thesis using s'(1,3,4) by blast
qed

lemma page_offset: "base + of_nat k = base + of_nat (k div 4096) * UIX_PAGE_SIZE + (of_nat (k mod 4096) :: u64)"
proof -
  have "(of_nat k :: u64) = of_nat (k div 4096 * 4096 + k mod 4096)" by simp
  then show ?thesis by (simp only: of_nat_add of_nat_mult of_nat_numeral UIX_PAGE_SIZE_def add.assoc)
qed

lemma stack_pages_accessible:
  assumes "\<forall>i < 64. \<exists>g. page_holds s (USER_STACK_TOP - UIX_PAGE_SIZE - of_nat i * UIX_PAGE_SIZE) 4096 g"
    and "USER_STACK_TOP - USER_STACK_SIZE \<le> va" "va < USER_STACK_TOP"
  shows "(\<exists>b. uget va s = Inr b) \<and> (\<forall>b. \<exists>s'. mmu_store va b s = Inr s')"
proof -
  define q where "q = unat va div 4096"
  have r: "0x7C0000 \<le> unat va" "unat va < 0x800000" using assms(2,3) by (simp_all add: user_const word_le_nat_alt word_less_nat_alt)
  have q: "0x7C0 \<le> q" "q < 0x800" using div_le_mono [OF r(1), of 4096] r(2) unfolding q_def by simp_all
  then have i: "0x7FF - q < 64" by simp
  let ?p = "USER_STACK_TOP - UIX_PAGE_SIZE - of_nat (0x7FF - q) * UIX_PAGE_SIZE"
  have up: "unat ?p = 4096 * q" using stack_addr [OF i] q by simp
  have "of_nat (unat ?p) = ?p" by simp
  then have "?p = of_nat (4096 * q)" unfolding up by (rule sym)
  moreover have "va = of_nat (4096 * q + unat va mod 4096)" unfolding q_def by simp
  ultimately have va: "va = ?p + of_nat (unat va mod 4096)" by (metis of_nat_add)
  have al: "?p AND mask 12 = 0" using unat_and_mask [of ?p 12] up by (simp add: unat_eq_0)
  obtain g where "page_holds s ?p 4096 g" using assms(1) i by blast
  from page_holds_get [OF this al, of "unat va mod 4096"] va show ?thesis by (metis mod_less_divisor order_refl zero_less_numeral)
qed

lemma code_page:
  assumes "unat len \<le> 0x3C0000" and "i < (unat len + 4095) div 4096"
  shows "(USER_CODE_BASE + of_nat i * UIX_PAGE_SIZE) AND mask 12 = 0" "unat (vpage (USER_CODE_BASE + of_nat i * UIX_PAGE_SIZE)) = 0x400 + i"
    "i < 0x3C0"
proof -
  show i: "i < 0x3C0" using assms div_le_mono [of "unat len + 4095" "0x3C0000 + 4095" 4096] by simp
  show "(USER_CODE_BASE + of_nat i * UIX_PAGE_SIZE) AND mask 12 = 0" "unat (vpage (USER_CODE_BASE + of_nat i * UIX_PAGE_SIZE)) = 0x400 + i"
    using page_at [of USER_CODE_BASE i] i by (simp_all add: USER_CODE_BASE_def mask_eq_exp_minus_1)
qed

lemma code_readable:
  assumes len: "unat len \<le> 0x3C0000"
    and pages: "\<forall>i < (unat len + 4095) div 4096. \<exists>g. (\<forall>j < 4096. 4096 * i + j < unat len \<longrightarrow> g j = img (of_nat (4096 * i + j))) \<and>
       page_holds s (USER_CODE_BASE + of_nat i * UIX_PAGE_SIZE) 4096 g"
    and k: "k < unat len"
  shows "uget (USER_CODE_BASE + of_nat k) s = Inr (img (of_nat k))"
proof -
  define i where "i = k div 4096"
  have i: "i < (unat len + 4095) div 4096" using k div_le_mono [of "Suc k + 4095" "unat len + 4095" 4096] by (simp add: i_def)
  let ?p = "USER_CODE_BASE + of_nat i * UIX_PAGE_SIZE"
  obtain h where h: "\<forall>j < 4096. 4096 * i + j < unat len \<longrightarrow> h j = img (of_nat (4096 * i + j))" "page_holds s ?p 4096 h"
    using pages i by blast
  from page_holds_get(1) [OF h(2) code_page(1) [OF len i], of "k mod 4096"]
  have "uget (USER_CODE_BASE + of_nat k) s = Inr (h (k mod 4096))"
    unfolding page_offset [of USER_CODE_BASE k] i_def by simp
  moreover have "4096 * i + k mod 4096 = k" by (simp add: i_def)
  ultimately show ?thesis using h(1) k by (metis mod_less_divisor zero_less_numeral)
qed

text \<open>
  Loading a flat program into an empty user space, as \<^verbatim>\<open>user_task_create\<close> and \<^verbatim>\<open>do_execve\<close>
  do. With four free pages for every page of code and stack (the page itself and at most three
  tables) the loops return; every byte of the program is then readable at its address, every byte
  of the stack can be read and written, the space is well formed, and every page outside the code
  and stack area is translated as before.
\<close>

lemma program_loaded:
  assumes "vmm_wf s" and "cr3 s = pml4 s" and "unat len \<le> 0x3C0000"
    and "4 * ((unat len + 4095) div 4096 + 64) \<le> card (free_pages (pm s))"
    and "\<forall>va. USER_CODE_BASE \<le> va \<and> va < USER_STACK_TOP \<longrightarrow> mmu_translate (mem s) (cr3 s) va = None"
  shows "\<exists>s'. rbind (load_flat con img len s) map_stack = Inr s' \<and> vmm_wf s' \<and> cr3 s' = cr3 s \<and> kernel_cr3 s' = kernel_cr3 s \<and>
    (\<forall>k < unat len. uget (USER_CODE_BASE + of_nat k) s' = Inr (img (of_nat k))) \<and>
    (\<forall>va. USER_STACK_TOP - USER_STACK_SIZE \<le> va \<and> va < USER_STACK_TOP \<longrightarrow>
       (\<exists>b. uget va s' = Inr b) \<and> (\<forall>b. \<exists>t. mmu_store va b s' = Inr t)) \<and>
    (\<forall>va. unat (vpage va) < 0x400 \<or> 0x800 \<le> unat (vpage va) \<longrightarrow>
       mmu_translate (mem s') (cr3 s') va = mmu_translate (mem s) (cr3 s) va)"
proof -
  have un: "walk (mem s) (pml4 s) (va_path va) = None" if "USER_CODE_BASE \<le> va" "va < USER_STACK_TOP" for va
    using assms(2,5) that by (simp add: mmu_translate_def)
  obtain t where t: "load_flat con img len s = Inr t" "grown {n. 0x400 \<le> unat n \<and> unat n < 0x7C0} s t" "4 * 64 \<le> card (free_pages (pm t))"
    "\<forall>i < (unat len + 4095) div 4096. \<exists>g. (\<forall>j < 4096. 4096 * i + j < unat len \<longrightarrow> g j = img (of_nat (4096 * i + j))) \<and>
       page_holds t (USER_CODE_BASE + of_nat i * UIX_PAGE_SIZE) 4096 g"
    using load_flat_grown [OF assms(1-4) un] by blast
  have "walk (mem t) (pml4 t) (va_path va) = None" if "USER_STACK_TOP - USER_STACK_SIZE \<le> va" "va < USER_STACK_TOP" for va
  proof -
    have r: "0x7C0000 \<le> unat va" "unat va < 0x800000" using that by (simp_all add: user_const word_le_nat_alt word_less_nat_alt)
    then have "vpage va \<notin> {n. 0x400 \<le> unat n \<and> unat n < 0x7C0}"
      using unat_vpage [of va] div_le_mono [OF r(1), of 4096] by simp
    moreover have "USER_CODE_BASE \<le> va" using r by (simp add: user_const word_le_nat_alt)
    ultimately show ?thesis using grown_walk [OF t(2)] un that(2) by simp
  qed
  then obtain s' where s': "map_stack t = Inr s'" "grown {n. 0x7C0 \<le> unat n \<and> unat n < 0x800} t s'"
    "\<forall>i < 64. \<exists>g. page_holds s' (USER_STACK_TOP - UIX_PAGE_SIZE - of_nat i * UIX_PAGE_SIZE) 4096 g"
    using map_stack_grown [OF grown_wf(1,2) [OF t(2)], of 0] t(3) by auto
  note g = grown_trans [OF t(2) s'(2)]
  have keep: "page_holds s' (USER_CODE_BASE + of_nat i * UIX_PAGE_SIZE) 4096 g"
    if "i < (unat len + 4095) div 4096" "page_holds t (USER_CODE_BASE + of_nat i * UIX_PAGE_SIZE) 4096 g" for i g
    by (rule grown_holds [OF s'(2) _ that(2)]) (use code_page(2,3) [OF assms(3) that(1)] in simp)
  have code: "uget (USER_CODE_BASE + of_nat k) s' = Inr (img (of_nat k))" if "k < unat len" for k
    by (rule code_readable [OF assms(3) _ that]) (use t(4) keep in blast)
  have "mmu_translate (mem s') (cr3 s') va = mmu_translate (mem s) (cr3 s) va"
    if "unat (vpage va) < 0x400 \<or> 0x800 \<le> unat (vpage va)" for va
    using grown_walk [OF g, of va] that grown_wf(2) [OF g] assms(2) by (auto simp: mmu_translate_def)
  then show ?thesis
    using t(1) s'(1) code grown_wf [OF g] assms(2) stack_pages_accessible [OF s'(3)] by (intro exI [of _ s']) simp
qed

section \<open>ELF programs are loaded\<close>

text \<open>A segment the loader handles: page-aligned, inside the file and inside the user half.\<close>

definition seg_good :: "u64 \<Rightarrow> elf64_phdr \<Rightarrow> bool" where
  "seg_good len ph \<longleftrightarrow> pvaddr ph AND mask 12 = 0 \<and> unat (filesz ph) \<le> unat (memsz ph) \<and>
     unat (poffset ph) + unat (filesz ph) \<le> unat len \<and> unat (pvaddr ph) + unat (memsz ph) + 4096 \<le> 2 ^ 47"

definition seg_count :: "elf64_phdr \<Rightarrow> nat" where
  "seg_count ph = (if ptype ph = PT_LOAD then (unat (memsz ph) + 4095) div 4096 else 0)"

definition seg_vpages :: "elf64_phdr \<Rightarrow> u64 set" where
  "seg_vpages ph = {n. unat (pvaddr ph) div 4096 \<le> unat n \<and> unat n < unat (pvaddr ph) div 4096 + seg_count ph}"

text \<open>Byte \<open>k\<close> of a segment in memory.\<close>

definition seg_byte :: "bytes \<Rightarrow> elf64_phdr \<Rightarrow> nat \<Rightarrow> u8" where
  "seg_byte img ph k = (if k < unat (filesz ph) then img (poffset ph + of_nat k) else 0)"

lemma frame_byte_0 [simp]: "frame_byte (\<lambda>_. 0) j = 0"
  by (simp add: frame_byte_def)

lemma zero_page_added:
  assumes "vmm_wf s" "cr3 s = pml4 s" "4 \<le> card (free_pages (pm s))" "walk (mem s) (pml4 s) (va_path va) = None"
    and "va AND mask 12 = 0" "n \<le> 4096" and a: "vmm_alloc s = (p, s1)"
  shows "\<exists>s2 s3. p \<noteq> 0 \<and> vmm_map va p USER_FLAGS (zero_page p s1) = Inr s2 \<and> copy_to_user con va img off n s2 = Inr s3 \<and>
    page_added va (\<lambda>j. if j < n then img (off + of_nat j) else 0) s s3"
  using load_page [OF assms(1-6) a refl, of "\<lambda>_. 0" con img off] by (simp add: zero_page_def cong: if_cong)

lemma elf_page_added:
  assumes st: "vmm_wf s" "cr3 s = pml4 s" "4 \<le> card (free_pages (pm s))" "walk (mem s) (pml4 s) (va_path va) = None"
    and good: "seg_good len ph" and k: "4096 * k \<le> unat (memsz ph)" and va: "va = pvaddr ph + of_nat k * UIX_PAGE_SIZE"
  shows "\<exists>s'. elf_page con img len ph va s = Inr (True, s') \<and> page_added va (\<lambda>j. seg_byte img ph (4096 * k + j)) s s'"
proof -
  note g = good [unfolded seg_good_def]
  have al: "va AND mask 12 = 0" and uva: "unat va = unat (pvaddr ph) + 4096 * k"
    using page_at [of "pvaddr ph" k] g k va by simp_all
  define off where "off = poffset ph + (va - pvaddr ph)"
  have kk: "unat (of_nat (4096 * k) :: u64) = 4096 * k" by (rule unat_of_nat_64) (use g k in simp)
  have off': "off = poffset ph + of_nat (4096 * k)" by (simp add: off_def va UIX_PAGE_SIZE_def)
  have ve: "unat (pvaddr ph + filesz ph) = unat (pvaddr ph) + unat (filesz ph)"
    using g by (simp add: unat_word_ariths)
  obtain p s1 where a: "vmm_alloc s = (p, s1)" by force
  show ?thesis
  proof (cases "4096 * k < unat (filesz ph)")
    case False
    then have nb: "\<not> va < pvaddr ph + filesz ph" by (simp add: word_less_nat_alt ve uva)
    obtain s2 where "p \<noteq> 0" "vmm_map va p USER_FLAGS (zero_page p s1) = Inr s2" "page_added va (\<lambda>j. if j < 0 then img (0 + of_nat j) else 0) s s2"
      using zero_page_added [OF st al zero_le a, of con img 0] by (simp only: copy_to_user_def upt.simps for_res.simps if_False) blast
    moreover from this(3) have "page_added va (\<lambda>j. seg_byte img ph (4096 * k + j)) s s2"
      by (rule page_added_cong) (use False in \<open>simp add: seg_byte_def\<close>)
    ultimately have "elf_page con img len ph va s = Inr (True, s2)" using nb a by (simp add: elf_page_def Let_def)
    then show ?thesis using \<open>page_added va (\<lambda>j. seg_byte img ph (4096 * k + j)) s s2\<close> by blast
  next
    case True
    have lt: "unat (poffset ph) + unat (filesz ph) < 2 ^ 64" using g unat_lt_64 [of len] by linarith
    have uoff: "unat off = unat (poffset ph) + 4096 * k"
      unfolding off' by (subst unat_add_64) (use kk lt True in simp_all)
    define c where "c = (let copy = pvaddr ph + filesz ph - va; copy = (if copy > UIX_PAGE_SIZE then UIX_PAGE_SIZE else copy)
      in if off + copy > len then len - off else copy)"
    have c: "unat c = min 4096 (unat (filesz ph) - 4096 * k)"
    proof -
      have "unat (pvaddr ph + filesz ph - va) = unat (filesz ph) - 4096 * k"
        using True by (subst unat_sub) (simp_all add: word_le_nat_alt ve uva)
      then have m: "unat (page_min (pvaddr ph + filesz ph - va)) = min 4096 (unat (filesz ph) - 4096 * k)"
        by (simp only: unat_page_min)
      have "unat (off + page_min (pvaddr ph + filesz ph - va)) = unat off + min 4096 (unat (filesz ph) - 4096 * k)"
        by (subst unat_add_64) (use lt True m uoff in simp_all)
      then have "\<not> off + page_min (pvaddr ph + filesz ph - va) > len"
        unfolding word_less_nat_alt using g True uoff by linarith
      then show ?thesis using m by (simp add: c_def Let_def page_min_def)
    qed
    have le: "off \<ge> poffset ph \<and> va < pvaddr ph + filesz ph" using True by (simp add: word_less_nat_alt word_le_nat_alt ve uva uoff)
    have "unat c \<le> 4096" using c by simp
    from zero_page_added [OF st al this a, of con img off] obtain s2 s3 where s2: "p \<noteq> 0"
      "vmm_map va p USER_FLAGS (zero_page p s1) = Inr s2" "copy_to_user con va img off (unat c) s2 = Inr s3"
      "page_added va (\<lambda>j. if j < unat c then img (off + of_nat j) else 0) s s3" by blast
    have "elf_page con img len ph va s = Inr (True, s3)"
      unfolding elf_page_def a using s2(1-3) le
      by (simp only: prod.case if_False rbind_simps Let_def off_def [symmetric] c_def [unfolded Let_def, symmetric] simp_thms if_True)
    moreover have "page_added va (\<lambda>j. seg_byte img ph (4096 * k + j)) s s3"
    proof (rule page_added_cong [OF s2(4)])
      fix j :: nat assume "j < 4096"
      then have "j < unat c \<longleftrightarrow> 4096 * k + j < unat (filesz ph)" unfolding c by linarith
      then show "seg_byte img ph (4096 * k + j) = (if j < unat c then img (off + of_nat j) else 0)"
        by (simp add: seg_byte_def off' add.assoc)
    qed
    ultimately show ?thesis by blast
  qed
qed

text \<open>The loop over the pages of a segment as a loop of the library, while no allocation fails.\<close>

definition elf_round :: "console \<Rightarrow> bytes \<Rightarrow> u64 \<Rightarrow> elf64_phdr \<Rightarrow> nat \<Rightarrow> vmm \<Rightarrow> vmm res" where
  "elf_round con img len ph i s =
     rbind (elf_page con img len ph (seg_start ph + of_nat i * UIX_PAGE_SIZE) s) (\<lambda>(ok, s). if ok then Inr s else Inl Halted)"

lemma elf_pages_rounds:
  "for_res (elf_round con img len ph) [k..<k + n] s = Inr s' \<Longrightarrow>
   elf_pages con img len ph n (seg_start ph + of_nat k * UIX_PAGE_SIZE) s = Inr (True, s')"
proof (induction n arbitrary: k s)
  case (Suc n)
  have "[k..<k + Suc n] = k # [Suc k..<Suc k + n]" by (simp add: upt_conv_Cons)
  with Suc.prems obtain t where t: "elf_round con img len ph k s = Inr t" "for_res (elf_round con img len ph) [Suc k..<Suc k + n] t = Inr s'"
    by (auto simp: rbind_eq_Inr)
  have "elf_page con img len ph (seg_start ph + of_nat k * UIX_PAGE_SIZE) s = Inr (True, t)"
    using t(1) by (auto simp: elf_round_def rbind_eq_Inr split: if_splits)
  moreover have "elf_pages con img len ph n (seg_start ph + of_nat k * UIX_PAGE_SIZE + UIX_PAGE_SIZE) t = Inr (True, s')"
    using Suc.IH [OF t(2)] by (simp add: algebra_simps)
  ultimately show ?case by simp
qed simp

lemma seg_good_pages:
  assumes "seg_good len ph" and "ptype ph = PT_LOAD"
  shows "seg_start ph = pvaddr ph" "seg_pages ph = seg_count ph" "4096 * seg_count ph \<le> unat (memsz ph) + 4095"
proof -
  note g = assms(1) [unfolded seg_good_def]
  show st: "seg_start ph = pvaddr ph" unfolding seg_start_def page_size_mask using word_split_mask [of "pvaddr ph" 12] g by simp
  show "4096 * seg_count ph \<le> unat (memsz ph) + 4095" by (simp add: seg_count_def)
  define e where "e = pvaddr ph + memsz ph + UIX_PAGE_SIZE - 1"
  have "e = pvaddr ph + of_nat (unat (memsz ph) + 4095)" by (simp add: e_def UIX_PAGE_SIZE_def)
  moreover have "unat (of_nat (unat (memsz ph) + 4095) :: u64) = unat (memsz ph) + 4095"
    by (rule unat_of_nat_64) (use g in simp)
  ultimately have ue: "unat e = unat (pvaddr ph) + (unat (memsz ph) + 4095)" using g by (simp add: unat_add_64)
  have al: "unat (pvaddr ph) mod 4096 = 0" using unat_and_mask [of "pvaddr ph" 12] g by simp
  have "seg_end ph = e - (e AND mask 12)" unfolding seg_end_def page_size_mask e_def [symmetric]
    using word_split_mask [of e 12] by (simp add: eq_diff_eq)
  moreover have "(e AND mask 12) \<le> e" by (simp add: word_le_nat_alt unat_and_mask)
  ultimately have "unat (seg_end ph) = unat e - unat e mod 4096" by (simp add: unat_sub unat_and_mask)
  also have "\<dots> = unat (pvaddr ph) + 4096 * ((unat (memsz ph) + 4095) div 4096)"
  proof -
    have "unat e mod 4096 = (unat (memsz ph) + 4095) mod 4096" unfolding ue using al by (metis add_0 mod_add_left_eq)
    then show ?thesis unfolding ue using mult_div_mod_eq [of 4096 "unat (memsz ph) + 4095"] by linarith
  qed
  finally have fin: "unat (seg_end ph) = unat (pvaddr ph) + 4096 * seg_count ph" using assms(2) by (simp add: seg_count_def)
  then have "unat (seg_end ph - seg_start ph) = 4096 * seg_count ph" unfolding st by (subst unat_sub) (simp_all add: word_le_nat_alt)
  then show "seg_pages ph = seg_count ph" using fin by (simp add: seg_pages_def st word_less_nat_alt)
qed

lemma seg_page:
  assumes "seg_good len ph" "ptype ph = PT_LOAD" "i < seg_count ph"
  shows "4096 * i \<le> unat (memsz ph)" "(pvaddr ph + of_nat i * UIX_PAGE_SIZE) AND mask 12 = 0"
    "unat (vpage (pvaddr ph + of_nat i * UIX_PAGE_SIZE)) = unat (pvaddr ph) div 4096 + i"
    "vpage (pvaddr ph + of_nat i * UIX_PAGE_SIZE) \<in> seg_vpages ph"
proof -
  show i: "4096 * i \<le> unat (memsz ph)" using assms(3) seg_good_pages(3) [OF assms(1,2)] by linarith
  have "unat (pvaddr ph) + 4096 * Suc i \<le> 2 ^ 48" using assms(1) i by (simp add: seg_good_def)
  from page_at [OF _ this] assms(1)
  show "(pvaddr ph + of_nat i * UIX_PAGE_SIZE) AND mask 12 = 0"
    "unat (vpage (pvaddr ph + of_nat i * UIX_PAGE_SIZE)) = unat (pvaddr ph) div 4096 + i" by (simp_all add: seg_good_def)
  then show "vpage (pvaddr ph + of_nat i * UIX_PAGE_SIZE) \<in> seg_vpages ph" using assms(3) by (simp add: seg_vpages_def)
qed

lemma elf_segment_loaded:
  assumes st: "vmm_wf s" "cr3 s = pml4 s" and room: "4 * (seg_count ph + k) \<le> card (free_pages (pm s))"
    and good: "ptype ph = PT_LOAD \<longrightarrow> seg_good len ph"
    and un: "\<And>va. vpage va \<in> seg_vpages ph \<Longrightarrow> walk (mem s) (pml4 s) (va_path va) = None"
  shows "\<exists>s'. elf_segment con img len ph s = Inr (True, s') \<and> grown (seg_vpages ph) s s' \<and> 4 * k \<le> card (free_pages (pm s')) \<and>
    (\<forall>i < seg_count ph. page_holds s' (pvaddr ph + of_nat i * UIX_PAGE_SIZE) 4096 (\<lambda>j. seg_byte img ph (4096 * i + j)))"
proof (cases "ptype ph = PT_LOAD")
  case False
  then show ?thesis using st room by (simp add: elf_segment_def seg_count_def grown_refl)
next
  case True
  then have g: "seg_good len ph" using good by simp
  let ?va = "\<lambda>i. pvaddr ph + of_nat i * UIX_PAGE_SIZE" and ?n = "seg_count ph"
    and ?G = "\<lambda>i g. g = (\<lambda>j. seg_byte img ph (4096 * i + j))"
  note pg = seg_page [OF g True] and sp = seg_good_pages [OF g True]
  have "inj_on (vpage \<circ> ?va) {0..<?n}"
  proof (rule inj_onI)
    fix i j assume "i \<in> {0..<?n}" "j \<in> {0..<?n}" "(vpage \<circ> ?va) i = (vpage \<circ> ?va) j"
    then have "unat (vpage (?va i)) = unat (vpage (?va j))" and ij: "i < ?n" "j < ?n"
      by (simp_all only: comp_apply atLeastLessThan_iff)
    then show "i = j" unfolding pg(3) [OF ij(1)] pg(3) [OF ij(2)] by linarith
  qed
  then have d: "distinct (map (vpage \<circ> ?va) [0..<?n])" by (simp add: distinct_map)
  have room': "4 * (length [0..<?n] + k) \<le> card (free_pages (pm s))" using room by simp
  have "\<exists>s'. for_res (elf_round con img len ph) [0..<?n] s = Inr s' \<and> grown (vpage ` ?va ` set [0..<?n]) s s' \<and>
      4 * k \<le> card (free_pages (pm s')) \<and> (\<forall>i \<in> set [0..<?n]. \<exists>g. ?G i g \<and> page_holds s' (?va i) 4096 g)"
  proof (rule add_pages [where va = ?va and G = ?G, OF _ st room' _ d])
    fix i t assume i: "i \<in> set [0..<?n]" and t: "vmm_wf t" "cr3 t = pml4 t" "4 \<le> card (free_pages (pm t))"
      "walk (mem t) (pml4 t) (va_path (?va i)) = None"
    have "4096 * i \<le> unat (memsz ph)" using pg(1) i by simp
    from elf_page_added [OF t g this refl, of con img] obtain t' where "elf_page con img len ph (?va i) t = Inr (True, t')"
      "page_added (?va i) (\<lambda>j. seg_byte img ph (4096 * i + j)) t t'" by blast
    then show "\<exists>t' g. elf_round con img len ph i t = Inr t' \<and> ?G i g \<and> page_added (?va i) g t t'"
      by (intro exI [of _ t'] exI [of _ "\<lambda>j. seg_byte img ph (4096 * i + j)"] conjI) (simp_all add: elf_round_def sp(1))
  next
    fix i assume "i \<in> set [0..<?n]"
    then have "i < ?n" by simp
    from un [OF pg(4) [OF this]] show "walk (mem s) (pml4 s) (va_path (?va i)) = None" .
  qed
  then obtain s' where s': "for_res (elf_round con img len ph) [0..<?n] s = Inr s'" "grown (vpage ` ?va ` set [0..<?n]) s s'"
    "4 * k \<le> card (free_pages (pm s'))" and h: "\<forall>i \<in> set [0..<?n]. \<exists>g. ?G i g \<and> page_holds s' (?va i) 4096 g"
    by blast
  have "page_holds s' (?va i) 4096 (\<lambda>j. seg_byte img ph (4096 * i + j))" if "i < ?n" for i
  proof -
    have "i \<in> set [0..<?n]" using that by simp
    then obtain g where "?G i g" "page_holds s' (?va i) 4096 g" using h by blast
    then show ?thesis by (simp only:)
  qed
  moreover have "elf_segment con img len ph s = Inr (True, s')"
    using elf_pages_rounds [of con img len ph 0 ?n s s'] s'(1) True by (simp add: elf_segment_def sp(2))
  moreover have "vpage ` ?va ` set [0..<?n] \<subseteq> seg_vpages ph" using pg(4) by (auto simp only: set_upt atLeastLessThan_iff)
  then have "grown (seg_vpages ph) s s'" by (rule grown_mono [OF s'(2)])
  ultimately show ?thesis using s'(3) by blast
qed

definition seg_held :: "vmm \<Rightarrow> bytes \<Rightarrow> elf64_phdr \<Rightarrow> bool" where
  "seg_held s img ph \<longleftrightarrow>
     (\<forall>i < seg_count ph. page_holds s (pvaddr ph + of_nat i * UIX_PAGE_SIZE) 4096 (\<lambda>j. seg_byte img ph (4096 * i + j)))"

lemma seg_held_grown:
  assumes "seg_held s img ph" "grown P s s'" "seg_vpages ph \<inter> P = {}" "ptype ph = PT_LOAD \<longrightarrow> seg_good len ph"
  shows "seg_held s' img ph"
  unfolding seg_held_def
proof (intro allI impI)
  fix i assume i: "i < seg_count ph"
  then have "ptype ph = PT_LOAD" by (auto simp: seg_count_def split: if_splits)
  then have "vpage (pvaddr ph + of_nat i * UIX_PAGE_SIZE) \<in> seg_vpages ph" using seg_page(4) assms(4) i by blast
  then have "vpage (pvaddr ph + of_nat i * UIX_PAGE_SIZE) \<notin> P" using assms(3) by blast
  from grown_holds [OF assms(2) this] i assms(1)
  show "page_holds s' (pvaddr ph + of_nat i * UIX_PAGE_SIZE) 4096 (\<lambda>j. seg_byte img ph (4096 * i + j))"
    unfolding seg_held_def by blast
qed

lemma seg_held_read:
  assumes "seg_held s img ph" "seg_good len ph" "ptype ph = PT_LOAD" "k < unat (memsz ph)"
  shows "uget (pvaddr ph + of_nat k) s = Inr (seg_byte img ph k)"
proof -
  have i: "k div 4096 < seg_count ph"
    using assms(3,4) div_le_mono [of "Suc k + 4095" "unat (memsz ph) + 4095" 4096] by (simp add: seg_count_def)
  have "page_holds s (pvaddr ph + of_nat (k div 4096) * UIX_PAGE_SIZE) 4096 (\<lambda>j. seg_byte img ph (4096 * (k div 4096) + j))"
    using assms(1) i unfolding seg_held_def by blast
  from page_holds_get(1) [OF this seg_page(2) [OF assms(2,3) i], of "k mod 4096"] show ?thesis
    unfolding page_offset [of "pvaddr ph" k] by simp
qed

text \<open>The program header with a given index, and what the loader needs of the headers.\<close>

definition ph_at :: "bytes \<Rightarrow> nat \<Rightarrow> elf64_phdr" where
  "ph_at img i = phdr_of img (phoff (ehdr_of img) + of_nat i * SIZEOF_PHDR)"

definition headers_good :: "bytes \<Rightarrow> u64 \<Rightarrow> nat set \<Rightarrow> bool" where
  "headers_good img len I \<longleftrightarrow>
     (\<forall>i \<in> I. ptype (ph_at img i) = PT_LOAD \<longrightarrow> seg_good len (ph_at img i)) \<and>
     (\<forall>i \<in> I. \<forall>j \<in> I. i \<noteq> j \<longrightarrow> seg_vpages (ph_at img i) \<inter> seg_vpages (ph_at img j) = {})"

lemma elf_segments_loaded:
  assumes "vmm_wf s" "cr3 s = pml4 s" "4 * (\<Sum>j = i..<i + n. seg_count (ph_at img j)) \<le> card (free_pages (pm s))"
    and "headers_good img len {i..<i + n}"
    and "\<And>j va. j \<in> {i..<i + n} \<Longrightarrow> vpage va \<in> seg_vpages (ph_at img j) \<Longrightarrow> walk (mem s) (pml4 s) (va_path va) = None"
  shows "\<exists>s'. elf_segments con img len (phoff (ehdr_of img)) n (of_nat i) s = Inr (True, s') \<and>
    grown (\<Union>j \<in> {i..<i + n}. seg_vpages (ph_at img j)) s s' \<and> (\<forall>j \<in> {i..<i + n}. seg_held s' img (ph_at img j))"
  using assms
proof (induction n arbitrary: i s)
  case 0
  then show ?case by (simp add: grown_refl)
next
  case (Suc n)
  have I: "{i..<i + Suc n} = insert i {Suc i..<Suc i + n}" by auto
  have hg: "ptype (ph_at img i) = PT_LOAD \<longrightarrow> seg_good len (ph_at img i)" "headers_good img len {Suc i..<Suc i + n}"
    and dj: "\<And>j. j \<in> {Suc i..<Suc i + n} \<Longrightarrow> seg_vpages (ph_at img i) \<inter> seg_vpages (ph_at img j) = {}"
    using Suc.prems(4) unfolding headers_good_def I by (blast, blast, force)
  have "4 * (seg_count (ph_at img i) + (\<Sum>j = Suc i..<Suc i + n. seg_count (ph_at img j))) \<le> card (free_pages (pm s))"
    using Suc.prems(3) unfolding I by simp
  from elf_segment_loaded [OF Suc.prems(1,2) this hg(1) Suc.prems(5) [of i], of con img]
  obtain t where t: "elf_segment con img len (ph_at img i) s = Inr (True, t)" "grown (seg_vpages (ph_at img i)) s t"
    "4 * (\<Sum>j = Suc i..<Suc i + n. seg_count (ph_at img j)) \<le> card (free_pages (pm t))" "seg_held t img (ph_at img i)"
    unfolding seg_held_def I by blast
  have "\<exists>s'. elf_segments con img len (phoff (ehdr_of img)) n (of_nat (Suc i)) t = Inr (True, s') \<and>
    grown (\<Union>j \<in> {Suc i..<Suc i + n}. seg_vpages (ph_at img j)) t s' \<and> (\<forall>j \<in> {Suc i..<Suc i + n}. seg_held s' img (ph_at img j))"
  proof (rule Suc.IH [OF grown_wf(1,2) [OF t(2)] t(3) hg(2)])
    fix j va assume j: "j \<in> {Suc i..<Suc i + n}" "vpage va \<in> seg_vpages (ph_at img j)"
    then have "vpage va \<notin> seg_vpages (ph_at img i)" using dj by blast
    from grown_walk [OF t(2) this] Suc.prems(5) [of j va] j I show "walk (mem t) (pml4 t) (va_path va) = None" by simp
  qed
  then obtain s' where s': "elf_segments con img len (phoff (ehdr_of img)) n (of_nat (Suc i)) t = Inr (True, s')"
    "grown (\<Union>j \<in> {Suc i..<Suc i + n}. seg_vpages (ph_at img j)) t s'" "\<forall>j \<in> {Suc i..<Suc i + n}. seg_held s' img (ph_at img j)"
    by blast
  have "seg_held s' img (ph_at img i)" by (rule seg_held_grown [OF t(4) s'(2) _ hg(1)]) (use dj in blast)
  moreover have "elf_segments con img len (phoff (ehdr_of img)) (Suc n) (of_nat i) s = Inr (True, s')"
    using t(1) s'(1) by (simp add: ph_at_def add.commute)
  ultimately show ?case using s'(3) grown_trans [OF t(2) s'(2)] unfolding I by (intro exI [of _ s']) simp
qed

text \<open>
  Claim C6. The ELF loader. For a file that passes the header checks and whose loadable segments
  are page-aligned, lie inside the file and the user half, and do not share pages with each other
  or with anything mapped, and with four free pages for every page to load, \<^verbatim>\<open>elf_load\<close> returns the
  entry point; every byte of every segment is then in memory, from the file up to the file size and
  zero from there up to the memory size; and all other pages are translated as before.
\<close>

theorem elf_load_correct:
  assumes "elf_ok img len" and "vmm_wf s" and "cr3 s = pml4 s"
    and "headers_good img len {0..<unat (phnum (ehdr_of img))}"
    and "4 * (\<Sum>i = 0..<unat (phnum (ehdr_of img)). seg_count (ph_at img i)) \<le> card (free_pages (pm s))"
    and "\<forall>i < unat (phnum (ehdr_of img)). \<forall>va. vpage va \<in> seg_vpages (ph_at img i) \<longrightarrow> mmu_translate (mem s) (cr3 s) va = None"
  shows "\<exists>s'. elf_load con img len s = Inr (entry (ehdr_of img), s') \<and> vmm_wf s' \<and> cr3 s' = cr3 s \<and>
    (\<forall>i < unat (phnum (ehdr_of img)). \<forall>k < unat (memsz (ph_at img i)). ptype (ph_at img i) = PT_LOAD \<longrightarrow>
       uget (pvaddr (ph_at img i) + of_nat k) s' =
       Inr (if k < unat (filesz (ph_at img i)) then img (poffset (ph_at img i) + of_nat k) else 0)) \<and>
    (\<forall>va. (\<forall>i < unat (phnum (ehdr_of img)). vpage va \<notin> seg_vpages (ph_at img i)) \<longrightarrow>
       mmu_translate (mem s') (cr3 s') va = mmu_translate (mem s) (cr3 s) va)"
proof -
  let ?n = "unat (phnum (ehdr_of img))"
  have "\<exists>s'. elf_segments con img len (phoff (ehdr_of img)) ?n (of_nat 0) s = Inr (True, s') \<and>
      grown (\<Union>j \<in> {0..<0 + ?n}. seg_vpages (ph_at img j)) s s' \<and> (\<forall>j \<in> {0..<0 + ?n}. seg_held s' img (ph_at img j))"
    by (rule elf_segments_loaded [OF assms(2,3)]) (use assms in \<open>simp_all add: mmu_translate_def\<close>)
  then obtain s' where s': "elf_segments con img len (phoff (ehdr_of img)) ?n 0 s = Inr (True, s')"
    and g: "grown (\<Union>j \<in> {0..<?n}. seg_vpages (ph_at img j)) s s'" and h: "\<forall>j \<in> {0..<?n}. seg_held s' img (ph_at img j)"
    by auto
  have "elf_load con img len s = Inr (entry (ehdr_of img), s')" using s' assms(1) by (simp add: elf_load_def Let_def)
  moreover have "uget (pvaddr (ph_at img i) + of_nat k) s' =
      Inr (if k < unat (filesz (ph_at img i)) then img (poffset (ph_at img i) + of_nat k) else 0)"
    if "i < ?n" "k < unat (memsz (ph_at img i))" "ptype (ph_at img i) = PT_LOAD" for i k
  proof -
    have "seg_held s' img (ph_at img i)" "seg_good len (ph_at img i)" using h assms(4) that by (auto simp: headers_good_def)
    from seg_held_read [OF this that(3,2)] show ?thesis unfolding seg_byte_def .
  qed
  moreover have "mmu_translate (mem s') (cr3 s') va = mmu_translate (mem s) (cr3 s) va"
    if "\<forall>i < ?n. vpage va \<notin> seg_vpages (ph_at img i)" for va
    using grown_walk [OF g, of va] that grown_wf(2) [OF g] assms(3) by (auto simp: mmu_translate_def)
  ultimately show ?thesis using grown_wf [OF g] assms(3) by (intro exI [of _ s']) simp
qed

section \<open>An empty user space\<close>

text \<open>1024 pages: page 1 is the (empty) root table, the pages from 2 on are free.\<close>

definition vmm_empty :: vmm where
  "vmm_empty = \<lparr>
     pm = \<lparr>bitmap = (\<lambda>_. - 1)(0 := NOT (mask 2)), bitmap_len = 1024, total_pages = 1024, free_count = 1022,
           bitmap_phys = 0, next_free_scan = 0, refcounts = None, refcounts_pages = 0\<rparr>,
     mem = (\<lambda>_ _. 0), pml4 = 0x1000, kernel_cr3 = 0x1000, cr3 = 0x1000, scratch_used = (\<lambda>_. 0), tlb_ops = []\<rparr>"

lemma free_set_vmm_empty: "free_set (pm vmm_empty) = of_nat ` {2..<1024}"
proof -
  have "is_free i (pm vmm_empty) \<longleftrightarrow> 2 \<le> unat i" for i
  proof -
    have "bit (bitmap (pm vmm_empty) (drop_bit 6 i)) (unat i mod 64) \<longleftrightarrow> 2 \<le> unat i"
    proof (cases "unat i < 64")
      case True
      then have "drop_bit 6 i = 0" by (simp add: word_unat_eq_iff drop_bit_eq_div unat_div)
      then show ?thesis using True by (auto simp: vmm_empty_def bit_simps)
    next
      case False
      then have "unat (drop_bit 6 i) \<noteq> 0" by (simp add: drop_bit_eq_div unat_div div_eq_0_iff)
      then have "drop_bit 6 i \<noteq> 0" by (metis unsigned_0)
      then show ?thesis using False by (simp add: vmm_empty_def bit_simps)
    qed
    then show ?thesis unfolding is_free_bit BM_WORD_def .
  qed
  then have "free_set (pm vmm_empty) = {i. 2 \<le> unat i \<and> unat i < 1024}"
    by (auto simp: free_set_def word_less_nat_alt) (simp_all add: vmm_empty_def)
  also have "\<dots> = of_nat ` {2..<1024}"
  proof (intro equalityI subsetI)
    fix i :: u64 assume "i \<in> {i. 2 \<le> unat i \<and> unat i < 1024}"
    then show "i \<in> of_nat ` {2..<1024}" by (intro image_eqI [of _ _ "unat i"]) simp_all
  next
    fix i :: u64 assume "i \<in> of_nat ` {2..<1024}"
    then obtain n where "i = of_nat n" "2 \<le> n" "n < 1024" by auto
    then show "i \<in> {i. 2 \<le> unat i \<and> unat i < 1024}" using unat_of_nat_64 [of n] by simp
  qed
  finally show ?thesis .
qed

lemma free_pages_vmm_empty: "card (free_set (pm vmm_empty)) = 1022" "card (free_pages (pm vmm_empty)) = 1022"
proof -
  have "inj_on (of_nat :: nat \<Rightarrow> u64) {2..<1024}"
  proof (rule inj_onI)
    fix i j :: nat assume ij: "i \<in> {2..<1024}" "j \<in> {2..<1024}" "of_nat i = (of_nat j :: u64)"
    have "unat (of_nat i :: u64) = i" "unat (of_nat j :: u64) = j" using ij(1,2) by (intro unat_of_nat_64; simp)+
    then show "i = j" using ij(3) by metis
  qed
  then show c: "card (free_set (pm vmm_empty)) = 1022" unfolding free_set_vmm_empty by (simp only: card_image card_atLeastLessThan)
  have "inj_on (push_bit 12) (free_set (pm vmm_empty))"
  proof (rule inj_onI)
    fix i j assume "i \<in> free_set (pm vmm_empty)" "j \<in> free_set (pm vmm_empty)" and eq: "push_bit 12 i = (push_bit 12 j :: u64)"
    then have "i < bitmap_len (pm vmm_empty)" "j < bitmap_len (pm vmm_empty)" by (simp_all add: free_set_def)
    then have "i < 2 ^ 52" "j < 2 ^ 52" by (simp_all add: vmm_empty_def word_less_nat_alt)
    then show "i = j" using eq page_addr_drop by metis
  qed
  then show "card (free_pages (pm vmm_empty)) = 1022" unfolding free_pages_def by (simp only: card_image c)
qed

lemma vmm_empty_walk: "walk (mem vmm_empty) (cr3 vmm_empty) (va_path va) = None"
  by (simp add: va_path_def vmm_empty_def Let_def)

lemma vmm_wf_empty: "vmm_wf vmm_empty"
proof -
  have t: "table_at (mem vmm_empty) (pml4 vmm_empty) p = Some t \<longleftrightarrow> p = [] \<and> t = 0x1000" for p t
    by (cases p) (auto simp: vmm_empty_def Let_def)
  then have st: "space_tables (mem vmm_empty) (pml4 vmm_empty) = {0x1000}"
    by (auto simp: space_tables_def path_ok_def)
  have tree: "space_tree (mem vmm_empty) (pml4 vmm_empty)" unfolding space_tree_def t by (auto simp: vmm_empty_def)
  have i: "2 \<le> unat i" "i < 2 ^ 52" if fr: "i \<in> free_set (pm vmm_empty)" for i
  proof -
    from fr obtain n where "i = of_nat n" "2 \<le> n" "n < 1024" by (auto simp: free_set_vmm_empty)
    then show "2 \<le> unat i" "i < 2 ^ 52" using unat_of_nat_64 [of n] by (simp_all add: word_less_nat_alt)
  qed
  then have z: "0 \<notin> free_set (pm vmm_empty)" by fastforce
  have one: "0x1000 \<notin> free_pages (pm vmm_empty)"
  proof
    assume "0x1000 \<in> free_pages (pm vmm_empty)"
    then obtain i where f: "i \<in> free_set (pm vmm_empty)" "0x1000 = push_bit 12 i" by (auto simp: free_pages_def)
    then have "unat (0x1000 :: u64) = 4096 * unat i" using page_addr_unat [OF i(2) [OF f(1)]] by simp
    then show False using i(1) [OF f(1)] by simp
  qed
  show ?thesis
    unfolding vmm_wf_def st using tree one z free_pages_vmm_empty(1) by (simp add: pmm_inv_def) (simp add: vmm_empty_def)
qed

text \<open>A file with one segment of two bytes in the file and four in memory, at the base of user code.\<close>

definition elf_example :: bytes where
  "elf_example = (\<lambda>_. 0)(0 := 0x7F, 1 := 0x45, 2 := 0x4C, 3 := 0x46, 4 := 2, 18 := 0x3E, 26 := 0x40, 32 := 64, 54 := 56, 56 := 1,
     64 := 1, 72 := 120, 82 := 0x40, 96 := 2, 104 := 4, 120 := 0xEB, 121 := 0xFE)"

lemma get_unrolled:
  "get16 m a = ucast (m a) OR push_bit 8 (ucast (m (a + 1)))"
  "get32 m a = ucast (m a) OR push_bit 8 (ucast (m (a + 1)) OR push_bit 8 (ucast (m (a + 2)) OR push_bit 8 (ucast (m (a + 3)))))"
  "get64 m a = ucast (m a) OR push_bit 8 (ucast (m (a + 1)) OR push_bit 8 (ucast (m (a + 2)) OR push_bit 8 (ucast (m (a + 3)) OR
     push_bit 8 (ucast (m (a + 4)) OR push_bit 8 (ucast (m (a + 5)) OR push_bit 8 (ucast (m (a + 6)) OR push_bit 8 (ucast (m (a + 7)))))))))"
  unfolding get_defs by (simp_all add: eval_nat_numeral add.assoc)

lemma elf_example_headers:
  "ident (ehdr_of elf_example) 0 = 0x7F" "ident (ehdr_of elf_example) 1 = 0x45" "ident (ehdr_of elf_example) 2 = 0x4C"
  "ident (ehdr_of elf_example) 3 = 0x46" "ident (ehdr_of elf_example) 4 = 2" "machine (ehdr_of elf_example) = 0x3E"
  "entry (ehdr_of elf_example) = 0x400000" "phoff (ehdr_of elf_example) = 64" "phentsize (ehdr_of elf_example) = 56"
  "phnum (ehdr_of elf_example) = 1"
  by (simp_all add: ehdr_of_def get_unrolled elf_example_def push_bit_eq_mult)

lemma elf_example_segment:
  "ptype (ph_at elf_example 0) = PT_LOAD" "poffset (ph_at elf_example 0) = 120" "pvaddr (ph_at elf_example 0) = 0x400000"
  "filesz (ph_at elf_example 0) = 2" "memsz (ph_at elf_example 0) = 4"
  by (simp_all add: ph_at_def SIZEOF_PHDR_def elf_example_headers phdr_of_def PT_LOAD_def get_unrolled)
    (simp_all add: elf_example_def push_bit_eq_mult)

theorem elf_load_correct_witness:
  "\<forall>con. \<exists>s'. elf_load con elf_example 122 vmm_empty = Inr (0x400000, s') \<and> uget 0x400000 s' = Inr 0xEB \<and>
     uget 0x400001 s' = Inr 0xFE \<and> uget 0x400003 s' = Inr 0"
proof
  fix con
  let ?n = "unat (phnum (ehdr_of elf_example))"
  have n: "?n = 1" by (simp add: elf_example_headers)
  have i: "{0..<?n} = {0}" unfolding n by auto
  have ok: "elf_ok elf_example 122"
    using elf_example_headers(2) by (simp add: elf_ok_def Let_def elf_example_headers SIZEOF_EHDR_def SIZEOF_PHDR_def)
  have hg: "headers_good elf_example 122 {0..<?n}"
    unfolding i by (simp add: headers_good_def seg_good_def elf_example_segment mask_eq_exp_minus_1)
  have room: "4 * (\<Sum>i = 0..<?n. seg_count (ph_at elf_example i)) \<le> card (free_pages (pm vmm_empty))"
    unfolding i by (simp add: seg_count_def elf_example_segment free_pages_vmm_empty)
  have c: "cr3 vmm_empty = pml4 vmm_empty" by (simp add: vmm_empty_def)
  have un: "\<forall>i < ?n. \<forall>va. vpage va \<in> seg_vpages (ph_at elf_example i) \<longrightarrow> mmu_translate (mem vmm_empty) (cr3 vmm_empty) va = None"
    by (simp only: mmu_translate_def vmm_empty_walk option.map simp_thms)
  from elf_load_correct [OF ok vmm_wf_empty c hg room un, of con]
  obtain s' where e: "elf_load con elf_example 122 vmm_empty = Inr (entry (ehdr_of elf_example), s')"
    and b: "\<forall>i < ?n. \<forall>k < unat (memsz (ph_at elf_example i)). ptype (ph_at elf_example i) = PT_LOAD \<longrightarrow>
       uget (pvaddr (ph_at elf_example i) + of_nat k) s' =
       Inr (if k < unat (filesz (ph_at elf_example i)) then elf_example (poffset (ph_at elf_example i) + of_nat k) else 0)" by blast
  have s': "elf_load con elf_example 122 vmm_empty = Inr (0x400000, s')" using e by (simp only: elf_example_headers)
  have k: "uget (0x400000 + of_nat k) s' = Inr (if k < 2 then elf_example (120 + of_nat k) else 0)" if "k < 4" for k
    using b [rule_format, of 0 k] that by (simp add: n elf_example_segment)
  from s' k [of 0] k [of 1] k [of 3]
  show "\<exists>s'. elf_load con elf_example 122 vmm_empty = Inr (0x400000, s') \<and> uget 0x400000 s' = Inr 0xEB \<and>
     uget 0x400001 s' = Inr 0xFE \<and> uget 0x400003 s' = Inr 0"
    by (simp add: elf_example_def)
qed

text \<open>
  Claim C37. A segment that does not start on a page boundary loses its head. For the first page the
  loader computes a file offset before the segment's, takes this for an overflow and copies
  nothing: the page reads as zero although its bytes are in the file.
\<close>

theorem elf_unaligned_head_lost:
  assumes "vmm_wf s" and "cr3 s = pml4 s" and "4 \<le> card (free_pages (pm s))"
    and "mmu_translate (mem s) (cr3 s) (seg_start ph) = None"
    and "pvaddr ph AND mask 12 \<noteq> 0" and "pvaddr ph AND mask 12 \<le> poffset ph"
  shows "\<exists>s'. elf_page con img len ph (seg_start ph) s = Inr (True, s') \<and>
    (\<forall>k < 4096. uget (seg_start ph + of_nat k) s' = Inr 0)"
proof -
  let ?d = "pvaddr ph AND mask 12" and ?va = "seg_start ph"
  have st: "?va + ?d = pvaddr ph" unfolding seg_start_def page_size_mask by (rule word_split_mask)
  have al: "?va AND mask 12 = 0" unfolding seg_start_def page_size_mask by (simp add: and.assoc)
  have un: "walk (mem s) (pml4 s) (va_path ?va) = None" using assms(2,4) by (simp add: mmu_translate_def)
  have "c + (a - b) = c - d" if "a + d = b" for a b c d :: u64 using that by (auto simp: algebra_simps)
  from this [OF st] have "poffset ph + (?va - pvaddr ph) = poffset ph - ?d" .
  moreover have "poffset ph - ?d < poffset ph"
    using assms(5,6) unat_gt_0 [of ?d] by (simp add: word_less_nat_alt word_le_nat_alt unat_sub)
  ultimately have skip: "\<not> poffset ph + (?va - pvaddr ph) \<ge> poffset ph" by simp
  obtain p s1 where a: "vmm_alloc s = (p, s1)" by force
  obtain s2 where m: "p \<noteq> 0" "vmm_map ?va p USER_FLAGS (zero_page p s1) = Inr s2"
    and pa: "page_added ?va (\<lambda>j. if j < 0 then img (0 + of_nat j) else 0) s s2"
    using zero_page_added [OF assms(1-3) un al zero_le a, of con img 0] by (simp only: copy_to_user_def upt.simps for_res.simps if_False) blast
  have "elf_page con img len ph ?va s = Inr (True, s2)" using m a skip by (simp add: elf_page_def Let_def)
  moreover have "page_holds s2 ?va 4096 (\<lambda>j. if j < 0 then img (0 + of_nat j) else 0)" using pa by (simp only: page_added_def)
  ultimately show ?thesis using page_holds_get(1) [OF \<open>page_holds s2 _ _ _\<close> al] by (intro exI [of _ s2]) simp
qed

theorem elf_unaligned_head_lost_witness:
  "\<forall>con. \<exists>s'. elf_page con (\<lambda>_. 0xAA) 0x2000 \<lparr>ptype = 1, poffset = 0x1100, pvaddr = 0x401100, filesz = 0x20, memsz = 0x20\<rparr>
     0x401000 vmm_empty = Inr (True, s') \<and> uget 0x401100 s' = Inr 0"
proof
  fix con
  let ?ph = "\<lparr>ptype = 1, poffset = 0x1100, pvaddr = 0x401100, filesz = 0x20, memsz = 0x20\<rparr>"
  have c: "cr3 vmm_empty = pml4 vmm_empty" by (simp add: vmm_empty_def)
  have st: "seg_start ?ph = 0x401000" by (simp add: seg_start_def UIX_PAGE_SIZE_def)
  have "\<exists>s'. elf_page con (\<lambda>_. 0xAA) 0x2000 ?ph 0x401000 vmm_empty = Inr (True, s') \<and>
      (\<forall>k < 4096. uget (0x401000 + of_nat k) s' = Inr 0)"
    by (rule elf_unaligned_head_lost [OF vmm_wf_empty c, where ph = ?ph, unfolded st])
      (simp_all add: free_pages_vmm_empty mmu_translate_def vmm_empty_walk mask_eq_exp_minus_1)
  then obtain s' where "elf_page con (\<lambda>_. 0xAA) 0x2000 ?ph 0x401000 vmm_empty = Inr (True, s')"
    and k: "\<And>k. k < 4096 \<Longrightarrow> uget (0x401000 + of_nat k) s' = Inr 0" by blast
  then show "\<exists>s'. elf_page con (\<lambda>_. 0xAA) 0x2000 ?ph 0x401000 vmm_empty = Inr (True, s') \<and> uget 0x401100 s' = Inr 0"
    using k [of 256] by (intro exI [of _ s']) simp
qed

end
