(* ===== verification/Proc.thy ===== *)
theory Proc
  imports Cpu Loader Uixfs
begin

text \<open>
  User processes: \<^verbatim>\<open>user_task_create\<close> (\<^verbatim>\<open>core/cpu/user.c\<close>), \<^verbatim>\<open>do_fork\<close> (\<^verbatim>\<open>core/cpu/fork.c\<close>) and
  \<^verbatim>\<open>do_execve\<close> (\<^verbatim>\<open>core/cpu/exec.c\<close>), over the scheduler, the heap, the address spaces, the loader and
  the file system. A fresh user task, a forked child and a task that called execve are shown to
  enter user mode where they should.
\<close>

section \<open>The memory manager inside the kernel state\<close>

definition kvm :: "kern \<Rightarrow> vmm" where "kvm s = hvm (kh s)"

definition set_kvm :: "vmm \<Rightarrow> kern \<Rightarrow> kern" where "set_kvm v s = s\<lparr>kh := (kh s)\<lparr>hvm := v\<rparr>\<rparr>"

definition set_kmem :: "bytes \<Rightarrow> kern \<Rightarrow> kern" where "set_kmem m s = s\<lparr>kh := (kh s)\<lparr>hmem := m\<rparr>\<rparr>"

lemma kvm_simps [simp]:
  "kvm (set_kvm v s) = v" "kvm (set_kmem m s) = kvm s" "tasks (set_kvm v s) = tasks s" "tasks (set_kmem m s) = tasks s"
  "hmem (kh (set_kvm v s)) = hmem (kh s)" "hmem (kh (set_kmem m s)) = m" "kcon (set_kvm v s) = kcon s"
  by (simp_all add: kvm_def set_kvm_def set_kmem_def)

section \<open>Launching a user task\<close>

text \<open>The allocation both \<^verbatim>\<open>user_task_create\<close> and \<^verbatim>\<open>do_fork\<close> start with; \<open>0\<close> is \<^verbatim>\<open>NULL\<close>.\<close>

definition alloc_user_task :: "kern \<Rightarrow> (u64 \<times> kern) res option" where
  "alloc_user_task s =
     obind (k_kzalloc_task s) (\<lambda>(t, s).
     if t = 0 then Some (Inr (0, s))
     else obind (k_kmalloc KSTACK_SIZE s) (\<lambda>(k, s).
     Some (rbind (tstore t (t_kstack_update (\<lambda>_. k)) s) (\<lambda>s.
     if k = 0 then rbind (k_kfree_task t s) (\<lambda>s. Inr (0, s)) else Inr (t, s)))))"

definition stdio :: "proc_fd list \<Rightarrow> proc_fd list" where
  "stdio fds = fds[0 := \<lparr>fd_type = FD_CONSOLE_IN, in_use = 1\<rparr>, 1 := \<lparr>fd_type = FD_CONSOLE_OUT, in_use = 1\<rparr>,
     2 := \<lparr>fd_type = FD_CONSOLE_OUT, in_use = 1\<rparr>]"

text \<open>The words a task's kernel stack starts with, and the stack pointer in the task.\<close>

definition seed_stack :: "u64 \<Rightarrow> u64 \<Rightarrow> u64 \<Rightarrow> u64 \<Rightarrow> u64 \<Rightarrow> u64 \<Rightarrow> kern \<Rightarrow> kern res" where
  "seed_stack t sp r r12 r13 r14 s =
     (case switch_frame r r12 r13 r14 sp (hmem (kh s)) of (sp, m) \<Rightarrow> tstore t (t_rsp_update (\<lambda>_. sp)) (set_kmem m s))"

text \<open>\<open>launch\<close> is the address of \<^verbatim>\<open>user_launch_trampoline\<close>.\<close>

definition user_task_create :: "u64 \<Rightarrow> string \<Rightarrow> bytes \<Rightarrow> u64 \<Rightarrow> kern \<Rightarrow> (u64 \<times> kern) res option" where
  "user_task_create launch name code len s =
     obind (alloc_user_task s) (\<lambda>(t, s).
     if t = 0 then Some (Inr (0, s))
     else Some (
       rbind (tstore t (\<lambda>x. x\<lparr>t_kstack_size := KSTACK_SIZE, t_pid := 0, t_state := TASK_READY, t_is_user := 1, t_name := name,
         t_fds := stdio (t_fds x)\<rparr>) s) (\<lambda>s.
       rbind (task_register t s) (\<lambda>s.
       rbind (vmm_create_space (kvm s)) (\<lambda>(c, v).
       rbind (tstore t (t_cr3_update (\<lambda>_. c)) (set_kvm v s)) (\<lambda>s.
       rbind (load_flat (kcon s) code len (vmm_switch c (kvm s))) (\<lambda>v.
       rbind (map_stack v) (\<lambda>v.
       let s = set_kvm (vmm_switch (kernel_cr3 v) v) s in
       rbind (tload t s) (\<lambda>x.
       rbind (seed_stack t (stack_top x) launch USER_CODE_BASE (USER_STACK_TOP - 16) 0x202 s) (\<lambda>s.
       rbind (sched_enqueue_user t s) (\<lambda>s. Inr (t, s))))))))))))"

section \<open>Fork\<close>

definition SIZEOF_IFRAME :: u64 where "SIZEOF_IFRAME = 176"

text \<open>\<open>fr\<close> is the address of the parent's frame, \<open>stub\<close> that of \<^verbatim>\<open>fork_child_stub\<close>.\<close>

definition do_fork :: "u64 \<Rightarrow> u64 \<Rightarrow> u64 \<Rightarrow> kern \<Rightarrow> (u64 \<times> kern) res option" where
  "do_fork stub parent fr s =
     obind (alloc_user_task s) (\<lambda>(child, s).
     if child = 0 then Some (Inr (0, s))
     else Some (
       rbind (tload parent s) (\<lambda>p.
       rbind (tstore child (\<lambda>x. x\<lparr>t_kstack_size := KSTACK_SIZE, t_is_user := 1, t_state := TASK_READY, t_name := ''forked'',
         t_ppid := t_pid p\<rparr>) s) (\<lambda>s.
       rbind (task_register child s) (\<lambda>s.
       rbind (vmm_fork_user_space (kvm s)) (\<lambda>(c, v).
       rbind (tstore child (\<lambda>x. x\<lparr>t_cr3 := c, t_fds := t_fds p\<rparr>) (set_kvm v s)) (\<lambda>s.
       rbind (tload child s) (\<lambda>x.
       let sp = stack_top x - SIZEOF_IFRAME;
           m = put64 sp 0 (memcpy sp fr SIZEOF_IFRAME (hmem (kh s))) in
       rbind (seed_stack child sp stub 0 0 0 (set_kmem m s)) (\<lambda>s.
       rbind (sched_enqueue_user child s) (\<lambda>s.
       rbind (tload child s) (\<lambda>x.
       Inr (child, s\<lparr>kcon := kprintf (KLOG_INFO @ ''fork: pid %u -> %u'' @ nl)
         [KNum (ucast (ucast (t_pid p) :: u32)), KNum (ucast (ucast (t_pid x) :: u32))] (kcon s)\<rparr>))))))))))))"

section \<open>Execve\<close>

record uxn =
  u_name :: string
  u_img :: bytes
  u_len :: u64

text \<open>The images embedded in the kernel are parameters.\<close>

definition programs :: "bytes \<times> u64 \<Rightarrow> bytes \<times> u64 \<Rightarrow> uxn list" where
  "programs user_program user_hello2 =
     [\<lparr>u_name = ''/sh'', u_img = fst user_program, u_len = snd user_program\<rparr>,
      \<lparr>u_name = ''/hello2'', u_img = fst user_hello2, u_len = snd user_hello2\<rparr>]"

text \<open>\<^verbatim>\<open>free_user_tables\<close>: a round of its loop, given what it does on the next level, and the whole.\<close>

definition free_user_entry :: "nat \<Rightarrow> (paddr \<Rightarrow> vmm \<Rightarrow> vmm res) \<Rightarrow> paddr \<Rightarrow> nat \<Rightarrow> vmm \<Rightarrow> vmm res" where
  "free_user_entry level next table i v =
     (let e = mem v table i in
      if e AND VMM_PRESENT = 0 then Inr v
      else if level > 0
      then rbind (next (e AND PTE_MASK) v) (\<lambda>v. rbind (pmm_free (e AND PTE_MASK) (pm v)) (\<lambda>p. Inr (v\<lparr>pm := p\<rparr>)))
      else rbind (pmm_unref (e AND PTE_MASK) (pm v)) (\<lambda>p. Inr (v\<lparr>pm := p\<rparr>)))"

primrec free_user_tables :: "nat \<Rightarrow> paddr \<Rightarrow> vmm \<Rightarrow> vmm res" where
  "free_user_tables 0 = (\<lambda>table. for_res (free_user_entry 0 (\<lambda>_. Inr) table) [0..<512])"
| "free_user_tables (Suc level) = (\<lambda>table. for_res (free_user_entry (Suc level) (free_user_tables level) table) [0..<512])"

text \<open>The part of \<^verbatim>\<open>do_execve\<close> that gives the old space back.\<close>

definition free_old_entry :: "paddr \<Rightarrow> nat \<Rightarrow> vmm \<Rightarrow> vmm res" where
  "free_old_entry old i v =
     (if mem v old i AND VMM_PRESENT \<noteq> 0
      then rbind (free_user_tables 2 (mem v old i AND PTE_MASK) v) (\<lambda>v.
           rbind (pmm_free (mem v old i AND PTE_MASK) (pm v)) (\<lambda>p. Inr (v\<lparr>pm := p\<rparr>)))
      else Inr v)"

definition free_old_space :: "paddr \<Rightarrow> vmm \<Rightarrow> vmm res" where
  "free_old_space cr v =
     (if cr \<noteq> 0
      then rbind (for_res (free_old_entry cr) [0..<256] (vmm_switch cr v)) (\<lambda>v.
           rbind (pmm_free cr (pm v)) (\<lambda>p. Inr (v\<lparr>pm := p\<rparr>)))
      else Inr v)"

text \<open>A store of eight bytes to user memory.\<close>

definition uput64 :: "console \<Rightarrow> vaddr \<Rightarrow> u64 \<Rightarrow> vmm \<Rightarrow> vmm res" where
  "uput64 con va x = for_res (\<lambda>k. uput con (va + of_nat k) (ucast (drop_bit (8 * k) x))) [0..<8]"

definition AT_NULL :: u64 where "AT_NULL = 0"
definition AT_PAGESZ :: u64 where "AT_PAGESZ = 6"
definition AT_RANDOM :: u64 where "AT_RANDOM = 25"

definition build_user_stack :: "console \<Rightarrow> u8 list \<Rightarrow> vmm \<Rightarrow> (u64 \<times> vmm) res" where
  "build_user_stack con path v =
     (let top = USER_STACK_TOP - 64;
          pathlen = of_nat (length (takeWhile (\<lambda>b. b \<noteq> 0) path)) + 1;
          top = top - pathlen;
          argv0_va = top in
      rbind (copy_to_user con top (lmem path) 0 (unat pathlen) v) (\<lambda>v.
      let top = (top - 16) AND NOT 0xF;
          atrandom_va = top in
      rbind (for_res (\<lambda>i. uput con (atrandom_va + of_nat i) (of_nat (i * 7 + 0x5A))) [0..<16] v) (\<lambda>v.
      let auxv = [AT_PAGESZ, UIX_PAGE_SIZE, AT_RANDOM, atrandom_va, AT_NULL, 0];
          aux_words = of_nat (length auxv);
          frame_words = 1 + 2 + 1 + aux_words + 1;
          frame_bytes = frame_words * 8;
          rsp = (top - frame_bytes) AND NOT 0xF;
          ws = [1, argv0_va, 0, 0] @ auxv in
      rbind (for_res (\<lambda>i. uput64 con (rsp + of_nat (8 * i)) (ws ! i)) [0..<length ws] v) (\<lambda>v.
      Inr (rsp, v)))))"

text \<open>
  The path on the kernel stack: up to 63 bytes are copied, not the terminator; the bytes after
  them are what was there before (\<open>junk\<close>), and the last one is set to 0.
\<close>

fun copy_path :: "nat \<Rightarrow> vaddr \<Rightarrow> u8 list \<Rightarrow> nat \<Rightarrow> vmm \<Rightarrow> u8 list res" where
  "copy_path 0 upath path i v = Inr path"
| "copy_path (Suc n) upath path i v =
     rbind (uget (upath + of_nat i) v) (\<lambda>b. if b = 0 then Inr path else copy_path n upath (path[i := b]) (Suc i) v)"

definition exec_path :: "u8 list \<Rightarrow> vaddr \<Rightarrow> vmm \<Rightarrow> u8 list res" where
  "exec_path junk upath v = rbind (copy_path 63 upath junk 0 v) (\<lambda>path. Inr (path[63 := 0]))"

fun find_program :: "uxn list \<Rightarrow> bytes \<Rightarrow> uxn option option" where
  "find_program [] path = Some None"
| "find_program (p # ps) path =
     (case strcmp path 0 (lmem (bytes_of (u_name p) @ [0])) 0 of
        None \<Rightarrow> None
      | Some c \<Rightarrow> if c = 0 then Some (Some p) else find_program ps path)"

text \<open>
  The kernel with the file system and its disk. A handler returns a value, or switches to the
  kernel stack with the given pointer and never comes back.
\<close>

record fskern =
  fk :: kern
  fs :: uixfs
  blk :: vblk

datatype exec_result = Returns int | Launches u64

definition path_text :: "u8 list \<Rightarrow> karg" where "path_text path = KStr (Some (text_of path))"

text \<open>The image: from the table, or else from the disk; \<open>None\<close> when there is none (the error is printed).\<close>

definition exec_image :: "uxn list \<Rightarrow> u8 list \<Rightarrow> fskern \<Rightarrow> ((bytes \<times> u64 \<times> bool) option \<times> fskern) res option" where
  "exec_image progs path s =
     (case find_program progs (lmem path) of
        None \<Rightarrow> None
      | Some (Some p) \<Rightarrow> Some (Inr (Some (u_img p, u_len p, False), s))
      | Some None \<Rightarrow>
        obind (uixfs_read (lmem path) 0 (fs s, blk s, pm (kvm (fk s)), kcon (fk s))) (\<lambda>(dsize, out, f, b, p, con).
        let k = (set_kvm ((kvm (fk s))\<lparr>pm := p\<rparr>) (fk s))\<lparr>kcon := con\<rparr>; s = s\<lparr>fk := k, fs := f, blk := b\<rparr> in
        if dsize < 0
        then Some (Inr (None, s\<lparr>fk := k\<lparr>kcon := kprintf (KLOG_ERR @ ''execve: no such program '' @ [CHR 0x27] @ ''%s'' @ [CHR 0x27] @ nl)
               [path_text path] con\<rparr>\<rparr>))
        else Some (Inr (Some (file_data f, word_of_int dsize, out \<noteq> None), s))))"

text \<open>Loading into the fresh space: the entry point (0 for a bad ELF file) and whether it is ELF.\<close>

definition exec_load :: "console \<Rightarrow> bytes \<Rightarrow> u64 \<Rightarrow> vmm \<Rightarrow> (u64 \<times> bool \<times> vmm) res" where
  "exec_load con img len v =
     (if len \<ge> 4 \<and> img 0 = 0x7F \<and> img 1 = 0x45
      then rbind (elf_load con img len v) (\<lambda>(entry, v). Inr (entry, True, v))
      else rbind (load_flat con img len v) (\<lambda>v. Inr (USER_CODE_BASE, False, v)))"

definition exec_stack :: "console \<Rightarrow> u8 list \<Rightarrow> bool \<Rightarrow> vmm \<Rightarrow> (u64 \<times> vmm) res" where
  "exec_stack con path is_elf v =
     rbind (map_stack v) (\<lambda>v. if is_elf then build_user_stack con path v else Inr (USER_STACK_TOP - 16, v))"

definition exec_release :: "bool \<Rightarrow> fskern \<Rightarrow> fskern res" where
  "exec_release from_disk s =
     (if from_disk then rbind (uixfs_release_buf (fs s, pm (kvm (fk s)))) (\<lambda>(f, p).
        Inr (s\<lparr>fs := f, fk := set_kvm ((kvm (fk s))\<lparr>pm := p\<rparr>) (fk s)\<rparr>))
      else Inr s)"

definition do_execve :: "u64 \<Rightarrow> uxn list \<Rightarrow> u8 list \<Rightarrow> u64 \<Rightarrow> vaddr \<Rightarrow> fskern \<Rightarrow> (exec_result \<times> fskern) res option" where
  "do_execve launch progs junk t upath s =
     obind (Some (exec_path junk upath (kvm (fk s)))) (\<lambda>path.
     obind (exec_image progs path s) (\<lambda>(image, s).
     case image of
       None \<Rightarrow> Some (Inr (Returns (- 2), s))
     | Some (img, len, from_disk) \<Rightarrow>
       Some (
       rbind (tload t (fk s)) (\<lambda>x.
       rbind (free_old_space (t_cr3 x) (kvm (fk s))) (\<lambda>v.
       rbind (vmm_create_space v) (\<lambda>(c, v).
       rbind (tstore t (t_cr3_update (\<lambda>_. c)) (set_kvm (vmm_switch c v) (fk s))) (\<lambda>k.
       rbind (exec_load (kcon k) img len (kvm k)) (\<lambda>(entry, is_elf, v).
       let s = s\<lparr>fk := set_kvm v k\<rparr> in
       if is_elf \<and> entry = 0
       then Inr (Returns (- 8), s\<lparr>fk := (fk s)\<lparr>kcon := kprintf (KLOG_ERR @ ''execve: bad ELF '' @ [CHR 0x27] @ ''%s'' @ [CHR 0x27] @ nl)
              [path_text path] (kcon (fk s))\<rparr>\<rparr>)
       else
       rbind (exec_stack (kcon (fk s)) path is_elf (kvm (fk s))) (\<lambda>(user_rsp, v).
       rbind (exec_release from_disk (s\<lparr>fk := set_kvm v (fk s)\<rparr>)) (\<lambda>s.
       rbind (tload t (fk s)) (\<lambda>x.
       rbind (seed_stack t (stack_top x) launch entry user_rsp 0x202 (fk s)) (\<lambda>k.
       rbind (tload t k) (\<lambda>x.
       Inr (Launches (t_rsp x), s\<lparr>fk := k\<rparr>))))))))))))))"

section \<open>Fresh address spaces\<close>

lemma fresh_root:
  assumes c: "c \<notin> space_tables m r" and m': "m' = m(c := \<lambda>i. if 256 \<le> i \<and> i < 512 then m r i else 0)"
  shows "path_ok p \<Longrightarrow> table_at m' c p = (if p = [] then Some c else if hd p < 256 then None else table_at m r p)"
    and "leaf_path q \<Longrightarrow> walk m' c q = (if hd q < 256 then None else walk m r q)"
proof -
  have rc: "r \<noteq> c" using c by auto
  have same: "m' t = m t" if "t \<in> space_tables m r" for t using that c m' by auto
  have r: "m' c i = m' r i" if "256 \<le> i" "i < 512" for i using that rc m' by simp
  have low: "m' c i = 0" if "i < 256" for i using that m' by simp
  show "table_at m' c p = (if p = [] then Some c else if hd p < 256 then None else table_at m r p)" if p: "path_ok p"
  proof (cases p)
    case (Cons i q)
    have "i < 512" using p Cons by (simp add: path_ok_def)
    moreover have "table_at m' r p = table_at m r p" by (rule space_outside(2) [OF _ p]) (rule same)
    moreover have "table_at m' c p = table_at m' r p" if "256 \<le> i" using that r [of i] \<open>i < 512\<close> Cons by (simp only: table_at.simps)
    moreover have "table_at m' c p = None" if "i < 256" using that low [of i] Cons by simp
    ultimately show ?thesis using Cons by (cases "i < 256") simp_all
  qed simp
  show "walk m' c q = (if hd q < 256 then None else walk m r q)" if q: "leaf_path q"
  proof -
    obtain i q' where Cons: "q = i # q'" "i < 512" using q by (cases q) (auto simp: leaf_path_def)
    moreover have "walk m' r q = walk m r q" by (rule space_outside(1) [OF _ q]) (rule same)
    moreover have "walk m' c q = walk m' r q" if "256 \<le> i" using that r [of i] Cons by (simp only: walk.simps)
    moreover have "walk m' c q = None" if "i < 256" using that low [of i] Cons by simp
    ultimately show ?thesis by (cases "i < 256") simp_all
  qed
qed

lemma fresh_space_tree:
  assumes "space_tree m r" and c: "c \<notin> space_tables m r" and m': "m' = m(c := \<lambda>i. if 256 \<le> i \<and> i < 512 then m r i else 0)"
  shows "space_tree m' c" "space_tables m' c \<subseteq> insert c (space_tables m r)"
proof -
  note t = fresh_root(1) [OF c m']
  have old: "table_at m r p = Some u \<and> u \<in> space_tables m r" if "path_ok p" "table_at m' c p = Some u" "p \<noteq> []" for p u
    using t [OF that(1)] that by (auto simp: space_tables_def split: if_splits)
  show "space_tables m' c \<subseteq> insert c (space_tables m r)"
  proof
    fix u assume "u \<in> space_tables m' c"
    then obtain p where "path_ok p" "table_at m' c p = Some u" by (auto simp: space_tables_def)
    then show "u \<in> insert c (space_tables m r)" using old [of p u] by (cases "p = []") auto
  qed
  have "p = q" if "path_ok p" "path_ok q" "table_at m' c p = Some u" "table_at m' c q = Some u" for p q u
  proof (cases "p = [] \<or> q = []")
    case True
    then have "u = c" using that by auto
    then show ?thesis using old [of p u] old [of q u] that c by blast
  next
    case False
    then show ?thesis using old [of p u] old [of q u] that space_treeD [OF assms(1)] by blast
  qed
  then show "space_tree m' c" using assms(1) m' unfolding space_tree_def by auto
qed

lemma hd_va_path: "hd (va_path va) = PML4_IDX va"
  by (simp add: va_path_def)

text \<open>
  \<^verbatim>\<open>vmm_create_space\<close> and the switch to the new space: well formed, with an empty user half and the
  kernel half of the space it was made in.
\<close>

lemma create_space_fresh:
  assumes wf: "vmm_wf s" and room: "free_pages (pm s) \<noteq> {}"
  shows "\<exists>c s' v. vmm_create_space s = Inr (c, s') \<and> v = vmm_switch c s' \<and> vmm_wf v \<and> cr3 v = c \<and> pml4 v = c \<and> c \<noteq> 0 \<and>
    kernel_cr3 v = kernel_cr3 s \<and> card (free_pages (pm s)) = Suc (card (free_pages (pm v))) \<and>
    (\<forall>va. walk (mem v) c (va_path va) = (if PML4_IDX va < 256 then None else walk (mem s) (pml4 s) (va_path va)))"
proof -
  obtain c s1 where a: "vmm_alloc s = (c, s1)" by force
  note z = alloc_and_fill [where f = "\<lambda>_. 0", OF wf room a refl]
  have inv: "pmm_inv (pm s)" "bitmap_len (pm s) \<le> 2 ^ 40" using wf by (simp_all add: vmm_wf_def)
  note pg = vmm_alloc_page [OF inv a z(1)]
  have cr: "c \<noteq> pml4 s" using z(8) root_in_tables by metis
  let ?s = "zero_page c s1"
  have zp: "mem ?s = (mem s)(c := \<lambda>_. 0)" "pml4 ?s = pml4 s" "pm ?s = pm s1" using z(5,6) by (simp_all add: zero_page_def)
  define s' where "s' = copy_entries [256..<512] c ?s"
  have m: "mem s' = (mem s)(c := \<lambda>i. if 256 \<le> i \<and> i < 512 then mem s (pml4 s) i else 0)"
    unfolding s'_def using cr zp by (subst copy_entries_upt) (auto simp: fun_eq_iff)
  have tree: "space_tree (mem s) (pml4 s)" "space_tables (mem s) (pml4 s) \<inter> free_pages (pm s) = {}" using wf by (simp_all add: vmm_wf_def)
  note f = fresh_space_tree [OF tree(1) z(8) m] and w = fresh_root(2) [OF z(8) m]
  define v where "v = vmm_switch c s'"
  have vf: "mem v = mem s'" "pm v = pm s1" "pml4 v = c" "cr3 v = c" "kernel_cr3 v = kernel_cr3 s"
    using zp pg(7) unfolding v_def s'_def by (simp_all add: vmm_switch_def load_cr3_def copy_entries_frame2 zero_page_def) (metis vmm.simps vmm.surjective vmm.update_convs)
  have "vmm_wf v" unfolding vmm_wf_def using f tree(2) pg(3,4,5) inv vf by auto
  moreover have "walk (mem v) c (va_path va) = (if PML4_IDX va < 256 then None else walk (mem s) (pml4 s) (va_path va))" for va
    using w [OF leaf_path_va, of va] vf(1) by (simp only: hd_va_path)
  moreover have "vmm_create_space s = Inr (c, s')" using a z(1) by (simp add: vmm_create_space_def s'_def)
  moreover have "card (free_pages (pm s)) = Suc (card (free_pages (pm v)))" using z(12) vf(2) by simp
  ultimately show ?thesis using z(1) vf v_def by blast
qed

section \<open>A user task starts\<close>

text \<open>
  What happens when the scheduler switches to a task for the first time: whatever the processor was
  doing (with a stack that is not the task's), it arrives in \<^verbatim>\<open>user_launch_trampoline\<close> and goes from
  there to ring 3.
\<close>

definition enters_user :: "u64 \<Rightarrow> u64 \<Rightarrow> bytes \<Rightarrow> u64 \<Rightarrow> u64 \<Rightarrow> bool" where
  "enters_user launch sp m pc usp \<longleftrightarrow>
     (\<forall>c r. cmem c = m \<and> apart 48 (rsp c - 48) 56 sp \<longrightarrow>
       (\<exists>saved c'. switch_to sp c = (saved, c') \<and> rip c' = launch \<and>
         (let u = user_launch_trampoline r c' in
          rip u = pc \<and> rsp u = usp \<and> rflags u = 0x202 \<and> cs u = 0x1B \<and> ss u = 0x23)))"

lemma seed_stack_enters:
  assumes "tasks s t = Some x" "t \<noteq> 0"
  shows "\<exists>sp' m. seed_stack t sp launch pc usp 0x202 s = Inr ((set_kmem m s)\<lparr>tasks := (tasks s)(t \<mapsto> x\<lparr>t_rsp := sp'\<rparr>)\<rparr>) \<and>
    enters_user launch sp' m pc usp"
proof -
  obtain sp' m where f: "switch_frame launch pc usp 0x202 sp (hmem (kh s)) = (sp', m)" by force
  note w = switch_frame_words [OF f, of 0]
  have "\<exists>saved c'. switch_to sp' c = (saved, c') \<and> rip c' = launch \<and>
      (let u = user_launch_trampoline r c' in rip u = pc \<and> rsp u = usp \<and> rflags u = 0x202 \<and> cs u = 0x1B \<and> ss u = 0x23)"
    if c: "cmem c = m" "apart 48 (rsp c - 48) 56 sp'" for c r
  proof -
    have "words 7 (cmem c) sp' = [0, 0x202, usp, pc, 0, 0, launch]" using w c by simp
    from switch_to_words [OF this c(2)] show ?thesis by (auto simp: Let_def user_launch_state)
  qed
  then have "enters_user launch sp' m pc usp" by (simp add: enters_user_def)
  moreover have "seed_stack t sp launch pc usp 0x202 s = Inr ((set_kmem m s)\<lparr>tasks := (tasks s)(t \<mapsto> x\<lparr>t_rsp := sp'\<rparr>)\<rparr>)"
    using assms by (simp add: seed_stack_def f task_access)
  ultimately show ?thesis by blast
qed

lemma alloc_user_task_ok:
  assumes "kzalloc SIZEOF_TASK (kh s) = Some (Inr (t, h1))" "kmalloc KSTACK_SIZE h1 = Some (Inr (k, h2))" "t \<noteq> 0" "k \<noteq> 0"
  shows "alloc_user_task s = Some (Inr (t, s\<lparr>kh := h2, tasks := (tasks s)(t \<mapsto> zero_task\<lparr>t_kstack := k\<rparr>)\<rparr>))"
  using assms by (simp add: alloc_user_task_def k_kzalloc_task_def k_kmalloc_def tstore_live)

lemma enqueue_user_ok:
  assumes q: "rq_rel s xs" and t: "tasks s t = Some x" "t \<noteq> 0" "t \<notin> set xs"
  shows "\<exists>s' y. sched_enqueue_user t s = Inr s' \<and> rq_rel s' (xs @ [t]) \<and> tasks s' t = Some y \<and>
    y\<lparr>t_next := 0\<rparr> = x\<lparr>t_pid := next_pid s, t_next := 0\<rparr> \<and> kh s' = kh s \<and> kcon s' = kcon s"
proof -
  let ?s = "s\<lparr>next_pid := next_pid s + 1, tasks := (tasks s)(t \<mapsto> x\<lparr>t_pid := next_pid s\<rparr>)\<rparr>"
  have "rq_rel ?s xs" using q t(3) by (simp add: rq_rel_def tseg_other)
  from sched_enqueue_correct [OF this _ t(2,3), of "x\<lparr>t_pid := next_pid s\<rparr>"]
  obtain s' where s': "sched_enqueue t ?s = Inr s'" "rq_rel s' (xs @ [t])" "queue_frame (insert t (set xs)) ?s s'" by auto
  have e: "sched_enqueue_user t s = Inr s'"
    using s'(1) t by (simp add: sched_enqueue_user_def task_alloc_pid_def tstore_live)
  have "map_option (t_next_update (\<lambda>_. 0)) (tasks s' t) = map_option (t_next_update (\<lambda>_. 0)) (tasks ?s t)"
    using s'(3) by (simp add: queue_frame_def same_tasks_def)
  then obtain y where y: "tasks s' t = Some y" "y\<lparr>t_next := 0\<rparr> = x\<lparr>t_pid := next_pid s, t_next := 0\<rparr>" by auto
  have eq: "s' = ?s\<lparr>tasks := tasks s', runqueue_head := runqueue_head s', runqueue_tail := runqueue_tail s', rq_size := rq_size s'\<rparr>"
    using s'(3) by (simp add: queue_frame_def)
  have "kh s' = kh s" "kcon s' = kcon s" using arg_cong [OF eq, of kh] arg_cong [OF eq, of kcon] by simp_all
  then show ?thesis using e s'(2) y by blast
qed

lemma uget_cong: "mem s = mem s' \<Longrightarrow> cr3 s = cr3 s' \<Longrightarrow> uget va s = uget va s'"
  by (simp add: uget_def phys_get_def split: option.split)

lemma low_half: "unat va < 2 ^ 47 \<Longrightarrow> PML4_IDX va < 256"
proof -
  assume a: "unat va < 2 ^ 47"
  have "unat (drop_bit 39 va) = unat va div 2 ^ 39" by (simp add: drop_bit_eq_div unat_div)
  moreover have "unat va div 2 ^ 39 < 256" using a by (simp add: div_less_iff_less_mult)
  moreover have "unat (drop_bit 39 va AND 0x1FF) \<le> unat (drop_bit 39 va)"
    using unat_and_mask [of "drop_bit 39 va" 9] by (simp add: mask_eq_exp_minus_1)
  ultimately show ?thesis by (simp add: PML4_IDX_def)
qed

lemma high_half: "256 \<le> PML4_IDX va \<Longrightarrow> 0x800 \<le> unat (vpage va)"
proof -
  assume a: "256 \<le> PML4_IDX va"
  have "PML4_IDX va = unat va div 2 ^ 39 mod 512"
    using unat_and_mask [of "drop_bit 39 va" 9] by (simp add: PML4_IDX_def mask_eq_exp_minus_1 drop_bit_eq_div unat_div)
  moreover have "unat (vpage va) = (unat va div 4096) mod 2 ^ 36"
    by (simp add: vpage_def take_bit_eq_mod unat_mod_distrib unat_drop_12)
  moreover have "(n div 4096) mod 2 ^ 36 div 2 ^ 27 = n div 2 ^ 39 mod 512" for n :: nat
  proof -
    have "(n div 4096) mod (2 ^ 27 * 512) = 2 ^ 27 * (n div 4096 div 2 ^ 27 mod 512) + n div 4096 mod 2 ^ 27" by (rule mod_mult2_eq)
    then show ?thesis by (simp add: div_mult2_eq [symmetric])
  qed
  ultimately have "256 \<le> unat (vpage va) div 2 ^ 27" using a by simp
  then have "256 * 2 ^ 27 \<le> unat (vpage va)" by (simp add: less_eq_div_iff_mult_less_eq)
  then show ?thesis by simp
qed

text \<open>
  Claim C8. A user task starts. When the two heap allocations are served, the program fits below
  the stack and there are pages enough, \<^verbatim>\<open>user_task_create\<close> returns a ready task at the end of the run
  queue, and puts the kernel's own space back. The first switch to the task enters ring 3 at the
  first instruction of the program with a stack below \<^verbatim>\<open>USER_STACK_TOP\<close>; in the task's space the
  program is at its address, the stack is mapped, and the kernel half is the kernel's.
\<close>

theorem user_task_starts:
  assumes "kzalloc SIZEOF_TASK (kh s) = Some (Inr (t, h1))" and "kmalloc KSTACK_SIZE h1 = Some (Inr (k, h2))" and "t \<noteq> 0" and "k \<noteq> 0"
    and wf: "vmm_wf (hvm h2)" and len: "unat len \<le> 0x3C0000"
    and room: "4 * ((unat len + 4095) div 4096 + 64) < card (free_pages (pm (hvm h2)))"
    and q: "rq_rel s xs" "t \<notin> set xs"
  shows "\<exists>s' x v. user_task_create launch name code len s = Some (Inr (t, s')) \<and> rq_rel s' (xs @ [t]) \<and>
    tasks s' t = Some x \<and> t_state x = TASK_READY \<and> t_is_user x = 1 \<and> t_pid x = next_pid s \<and>
    enters_user launch (t_rsp x) (hmem (kh s')) USER_CODE_BASE (USER_STACK_TOP - 16) \<and>
    cr3 (kvm s') = kernel_cr3 (hvm h2) \<and> v = (kvm s')\<lparr>cr3 := t_cr3 x\<rparr> \<and>
    (\<forall>i < unat len. uget (USER_CODE_BASE + of_nat i) v = Inr (code (of_nat i))) \<and>
    (\<forall>va. USER_STACK_TOP - USER_STACK_SIZE \<le> va \<and> va < USER_STACK_TOP \<longrightarrow> (\<exists>b. uget va v = Inr b)) \<and>
    (\<forall>va. 256 \<le> PML4_IDX va \<longrightarrow> mmu_translate (mem v) (cr3 v) va = mmu_translate (mem (hvm h2)) (pml4 (hvm h2)) va)"
proof -
  let ?x1 = "zero_task\<lparr>t_kstack := k, t_kstack_size := KSTACK_SIZE, t_pid := 0, t_state := TASK_READY, t_is_user := 1, t_name := name,
      t_fds := stdio (t_fds zero_task), t_next_all := all_tasks s\<rparr>"
  have "free_pages (pm (hvm h2)) \<noteq> {}" using room by auto
  from create_space_fresh [OF wf this] obtain c v0 v1 where c: "vmm_create_space (hvm h2) = Inr (c, v0)" "v1 = vmm_switch c v0"
      "vmm_wf v1" "cr3 v1 = c" "pml4 v1 = c" "kernel_cr3 v1 = kernel_cr3 (hvm h2)"
      "card (free_pages (pm (hvm h2))) = Suc (card (free_pages (pm v1)))"
    and w: "\<And>va. walk (mem v1) c (va_path va) = (if PML4_IDX va < 256 then None else walk (mem (hvm h2)) (pml4 (hvm h2)) (va_path va))"
    by blast
  have un: "\<forall>va. USER_CODE_BASE \<le> va \<and> va < USER_STACK_TOP \<longrightarrow> mmu_translate (mem v1) (cr3 v1) va = None"
    using w c(4) low_half by (auto simp: mmu_translate_def USER_STACK_TOP_def word_less_nat_alt)
  have "4 * ((unat len + 4095) div 4096 + 64) \<le> card (free_pages (pm v1))" using room c(7) by simp
  from program_loaded [OF c(3) _ len this un, of "kcon s" code] c(4,5)
  obtain v2 where v2: "rbind (load_flat (kcon s) code len v1) map_stack = Inr v2" "vmm_wf v2" "cr3 v2 = c" "kernel_cr3 v2 = kernel_cr3 v1"
    and code: "\<forall>i < unat len. uget (USER_CODE_BASE + of_nat i) v2 = Inr (code (of_nat i))"
    and stk: "\<forall>va. USER_STACK_TOP - USER_STACK_SIZE \<le> va \<and> va < USER_STACK_TOP \<longrightarrow> (\<exists>b. uget va v2 = Inr b)"
    and out: "\<And>va. 0x800 \<le> unat (vpage va) \<Longrightarrow> mmu_translate (mem v2) c va = mmu_translate (mem v1) c va"
    by auto
  define s1 where "s1 = s\<lparr>all_tasks := t, tasks := (tasks s)(t \<mapsto> ?x1\<lparr>t_cr3 := c\<rparr>), kh := h2\<lparr>hvm := vmm_switch (kernel_cr3 v2) v2\<rparr>\<rparr>"
  have st: "tasks s1 t = Some (?x1\<lparr>t_cr3 := c\<rparr>)" by (simp add: s1_def)
  from seed_stack_enters [OF st assms(3), of "stack_top (?x1\<lparr>t_cr3 := c\<rparr>)" launch USER_CODE_BASE "USER_STACK_TOP - 16"]
  obtain sp m where sd: "seed_stack t (stack_top (?x1\<lparr>t_cr3 := c\<rparr>)) launch USER_CODE_BASE (USER_STACK_TOP - 16) 0x202 s1 =
      Inr ((set_kmem m s1)\<lparr>tasks := (tasks s1)(t \<mapsto> ?x1\<lparr>t_cr3 := c, t_rsp := sp\<rparr>)\<rparr>)"
    and en: "enters_user launch sp m USER_CODE_BASE (USER_STACK_TOP - 16)" by auto
  define s2 where "s2 = (set_kmem m s1)\<lparr>tasks := (tasks s1)(t \<mapsto> ?x1\<lparr>t_cr3 := c, t_rsp := sp\<rparr>)\<rparr>"
  have "rq_rel s2 xs" using q by (simp add: s2_def s1_def set_kmem_def rq_rel_def tseg_other)
  moreover have "tasks s2 t = Some (?x1\<lparr>t_cr3 := c, t_rsp := sp\<rparr>)" by (simp add: s2_def)
  ultimately obtain s' y where s': "sched_enqueue_user t s2 = Inr s'" "rq_rel s' (xs @ [t])" "tasks s' t = Some y"
      "y\<lparr>t_next := 0\<rparr> = ?x1\<lparr>t_cr3 := c, t_rsp := sp, t_pid := next_pid s2, t_next := 0\<rparr>" "kh s' = kh s2"
    using enqueue_user_ok [OF _ _ assms(3) q(2)] by blast
  obtain va where la: "load_flat (kcon s) code len v1 = Inr va" "map_stack va = Inr v2" using v2(1) by (auto simp: rbind_eq_Inr)
  have run: "user_task_create launch name code len s = Some (Inr (t, s'))"
    using assms(3) c(1) la sd s'(1)
    by (simp add: user_task_create_def alloc_user_task_ok [OF assms(1-4)] task_access task_register_def kvm_def set_kvm_def
        c(2) [symmetric] s1_def s2_def)
  have y: "t_state y = TASK_READY" "t_is_user y = 1" "t_pid y = next_pid s" "t_rsp y = sp" "t_cr3 y = c"
    using arg_cong [OF s'(4), of t_state] arg_cong [OF s'(4), of t_is_user] arg_cong [OF s'(4), of t_pid] arg_cong [OF s'(4), of t_rsp]
      arg_cong [OF s'(4), of t_cr3] by (simp_all add: s2_def s1_def set_kmem_def)
  have k: "kvm s' = vmm_switch (kernel_cr3 v2) v2" "hmem (kh s') = m" using s'(5) by (simp_all add: s2_def s1_def set_kmem_def kvm_def)
  let ?v = "(kvm s')\<lparr>cr3 := c\<rparr>"
  have v: "mem ?v = mem v2" "cr3 ?v = cr3 v2" "cr3 (kvm s') = kernel_cr3 v2" by (simp_all add: k vmm_switch_def load_cr3_def v2(3))
  have "mmu_translate (mem ?v) (cr3 ?v) va = mmu_translate (mem (hvm h2)) (pml4 (hvm h2)) va" if "256 \<le> PML4_IDX va" for va
    using out [OF high_half [OF that]] w [of va] that by (simp add: v v2(3) mmu_translate_def)
  then show ?thesis
    using run s'(2,3) y k(2) en v2(4) c(6) v(3) code stk uget_cong [OF v(1,2)] by (intro exI [of _ s'] exI [of _ y] exI [of _ ?v] conjI) simp_all
qed

section \<open>A forked child resumes\<close>

lemma words_shift:
  assumes "\<And>i. i < 8 * n \<Longrightarrow> m' (b + of_nat i) = m (a + of_nat i)"
  shows "words n m' b = words n m a"
  using assms
proof (induction n arbitrary: a b)
  case (Suc n)
  have g: "m' (b + of_nat i) = m (a + of_nat i)" if "i < 8" for i using Suc.prems [of i] that by simp
  have "get64 m' b = get64 m a"
    using g [of 0] g [of 1] g [of 2] g [of 3] g [of 4] g [of 5] g [of 6] g [of 7] by (simp add: get_unrolled)
  moreover have "words n m' (b + 8) = words n m (a + 8)"
  proof (rule Suc.IH)
    fix i assume "i < 8 * n"
    then show "m' (b + 8 + of_nat i) = m (a + 8 + of_nat i)" using Suc.prems [of "8 + i"] by (simp add: add.assoc)
  qed
  ultimately show ?case by simp
qed simp

lemma memcpy_words:
  assumes "apart (8 * n) a (8 * n) b" "8 * n < 2 ^ 64"
  shows "words n (memcpy b a (of_nat (8 * n)) m) b = words n m a"
proof (rule words_shift)
  fix i assume i: "i < 8 * n"
  have u: "unat (of_nat (8 * n) :: u64) = 8 * n" "unat (of_nat i :: u64) = i" using i assms(2) by (simp_all add: unat_of_nat_64 del: of_nat_mult)
  have "8 * n \<le> unat (b - a)" using assms(1) by (simp add: apart_def)
  then show "memcpy b a (of_nat (8 * n)) m (b + of_nat i) = m (a + of_nat i)"
    using u i assms(2) by (subst memcpy_apply) (simp_all del: of_nat_mult)
qed

lemma stack_top_offset:
  assumes "t_kstack x = k" "t_kstack_size x = KSTACK_SIZE"
  obtains r where "r < 16" "stack_top x = k + of_nat (16384 - r)"
proof -
  let ?a = "k + 16384"
  define r where "r = unat (?a AND mask 4)"
  have "?a AND NOT (mask 4) = ?a - (?a AND mask 4)" using word_split_mask [of ?a 4] by (simp add: eq_diff_eq)
  moreover have "(0xF :: u64) = mask 4" by (simp add: mask_eq_exp_minus_1)
  ultimately have st: "stack_top x = ?a - (?a AND mask 4)" using assms by (simp add: stack_top_def KSTACK_SIZE_def)
  have "r < 16" using unat_and_mask [of ?a 4] by (simp add: r_def)
  moreover have "?a AND mask 4 = of_nat r" by (simp add: r_def)
  ultimately show ?thesis using that [of r] st by (simp add: of_nat_diff algebra_simps)
qed

text \<open>What happens when the scheduler switches to a forked child: it leaves the kernel like its parent, with \<open>rax\<close> zero.\<close>

definition resumes_child :: "u64 \<Rightarrow> u64 \<Rightarrow> bytes \<Rightarrow> iframe \<Rightarrow> bool" where
  "resumes_child stub sp m f \<longleftrightarrow>
     (\<forall>c. cmem c = m \<and> apart 48 (rsp c - 48) 232 sp \<longrightarrow>
       (\<exists>saved c'. switch_to sp c = (saved, c') \<and> rip c' = stub \<and>
         (let u = fork_child_stub c' in regs u = (f_regs f)(RAX := 0) \<and> rip u = f_rip f \<and> rsp u = f_rsp f \<and>
            rflags u = f_rflags f \<and> cs u = f_cs f \<and> ss u = f_ss f)))"

lemma seed_stack_resumes:
  assumes "tasks s t = Some x" "t \<noteq> 0" and w: "words 22 (hmem (kh s)) sp = frame_words (f\<lparr>f_regs := (f_regs f)(RAX := 0)\<rparr>)"
  shows "\<exists>sp' m. seed_stack t sp stub 0 0 0 s = Inr ((set_kmem m s)\<lparr>tasks := (tasks s)(t \<mapsto> x\<lparr>t_rsp := sp'\<rparr>)\<rparr>) \<and>
    resumes_child stub sp' m f"
proof -
  obtain sp' m where f: "switch_frame stub 0 0 0 sp (hmem (kh s)) = (sp', m)" by force
  note fw = switch_frame_words [OF f, of 22]
  have len: "length (words 7 m sp') = length [0, 0, 0, 0, 0, 0, stub]" by simp
  have "words 7 m sp' @ words 22 m (sp' + of_nat (8 * 7)) = [0, 0, 0, 0, 0, 0, stub] @ frame_words (f\<lparr>f_regs := (f_regs f)(RAX := 0)\<rparr>)"
    using fw(2) w unfolding words_append by simp
  from append_eq_append_conv [OF disjI1 [OF len], THEN iffD1, OF this] have w7: "words 7 m sp' = [0, 0, 0, 0, 0, 0, stub]" and w22: "words 22 m (sp' + 56) = frame_words (f\<lparr>f_regs := (f_regs f)(RAX := 0)\<rparr>)"
    by simp_all
  have "\<exists>saved c'. switch_to sp' c = (saved, c') \<and> rip c' = stub \<and>
      (let u = fork_child_stub c' in regs u = (f_regs f)(RAX := 0) \<and> rip u = f_rip f \<and> rsp u = f_rsp f \<and>
         rflags u = f_rflags f \<and> cs u = f_cs f \<and> ss u = f_ss f)"
    if c: "cmem c = m" "apart 48 (rsp c - 48) 232 sp'" for c
  proof -
    have ap: "apart 48 (rsp c - 48) 56 sp'" "apart 48 (rsp c - 48) 176 (sp' + 56)"
      using apart_fields [OF c(2), of 0 48 0 56] apart_fields [OF c(2), of 0 48 56 176] by simp_all
    have "words 7 (cmem c) sp' = [0, 0, 0, 0, 0, 0, stub]" using w7 c by simp
    from switch_to_words [OF this ap(1)] obtain c' where c': "switch_to sp' c = (rsp c - 48, c')" "rip c' = stub" "rsp c' = sp' + 56"
      and k: "\<And>n a. 0 < n \<Longrightarrow> apart 48 (rsp c - 48) (8 * n) a \<Longrightarrow> words n (cmem c') a = words n (cmem c) a" by blast
    have "words 22 (cmem c') (rsp c') = frame_words (f\<lparr>f_regs := (f_regs f)(RAX := 0)\<rparr>)"
      using k [of 22 "sp' + 56"] ap(2) w22 c(1) c'(3) by simp
    from isr_return_frame [OF this] show ?thesis using c'(1,2) by (simp add: fork_child_stub_is_isr_return Let_def)
  qed
  then have "resumes_child stub sp' m f" by (simp add: resumes_child_def)
  moreover have "seed_stack t sp stub 0 0 0 s = Inr ((set_kmem m s)\<lparr>tasks := (tasks s)(t \<mapsto> x\<lparr>t_rsp := sp'\<rparr>)\<rparr>)"
    using assms by (simp add: seed_stack_def f task_access)
  ultimately show ?thesis by blast
qed

text \<open>
  Claim C7. Fork. When the heap allocations are served and the address space can be duplicated,
  \<^verbatim>\<open>do_fork\<close> returns a ready child at the end of the run queue, with the parent's pid as its parent,
  the parent's descriptors and the duplicated space; and the first switch to the child leaves the
  kernel with every register of the parent's system call frame, except that \<open>rax\<close> is zero.
\<close>

theorem fork_child_resumes:
  assumes "kzalloc SIZEOF_TASK (kh s) = Some (Inr (child, h1))" and "kmalloc KSTACK_SIZE h1 = Some (Inr (k, h2))"
    and "child \<noteq> 0" and "k \<noteq> 0" and fork: "vmm_fork_user_space (hvm h2) = Inr (c, v)"
    and p: "tasks s parent = Some p" "parent \<noteq> 0" "parent \<noteq> child"
    and fr: "words 22 (hmem h2) fr = frame_words f" "apart 176 fr 16384 k"
    and q: "rq_rel s xs" "child \<notin> set xs"
  shows "\<exists>s' x. do_fork stub parent fr s = Some (Inr (child, s')) \<and> rq_rel s' (xs @ [child]) \<and> tasks s' child = Some x \<and>
    t_state x = TASK_READY \<and> t_is_user x = 1 \<and> t_pid x = next_pid s \<and> t_ppid x = t_pid p \<and> t_fds x = t_fds p \<and>
    t_cr3 x = c \<and> kvm s' = v \<and> resumes_child stub (t_rsp x) (hmem (kh s')) f"
proof -
  let ?x = "zero_task\<lparr>t_kstack := k, t_kstack_size := KSTACK_SIZE, t_is_user := 1, t_state := TASK_READY, t_name := ''forked'',
      t_ppid := t_pid p, t_next_all := all_tasks s, t_cr3 := c, t_fds := t_fds p\<rparr>"
  obtain r where r: "r < 16" "stack_top ?x = k + of_nat (16384 - r)" by (rule stack_top_offset [of ?x k]) simp_all
  let ?sp = "stack_top ?x - SIZEOF_IFRAME"
  have sp: "?sp = k + of_nat (16208 - r)" using r by (simp add: SIZEOF_IFRAME_def of_nat_diff algebra_simps)
  have "apart 176 (fr + of_nat 0) 176 (k + of_nat (16208 - r))" by (rule apart_fields [OF fr(2)]) (use r(1) in simp_all)
  then have ap: "apart (8 * 22) fr (8 * 22) ?sp" by (simp add: sp)
  define m where "m = put64 ?sp 0 (memcpy ?sp fr SIZEOF_IFRAME (hmem h2))"
  have "words 22 (memcpy ?sp fr SIZEOF_IFRAME (hmem h2)) ?sp = frame_words f"
    using memcpy_words [OF ap, of "hmem h2"] fr(1) by (simp add: SIZEOF_IFRAME_def)
  then have "words (Suc 21) (memcpy ?sp fr SIZEOF_IFRAME (hmem h2)) ?sp = frame_words f" by simp
  from words_set_first [OF this, of 0] have w: "words 22 m ?sp = frame_words (f\<lparr>f_regs := (f_regs f)(RAX := 0)\<rparr>)"
    by (simp add: m_def frame_words_rax)
  define s1 where "s1 = s\<lparr>all_tasks := child, tasks := (tasks s)(child \<mapsto> ?x), kh := h2\<lparr>hvm := v, hmem := m\<rparr>\<rparr>"
  have "tasks s1 child = Some ?x" "words 22 (hmem (kh s1)) ?sp = frame_words (f\<lparr>f_regs := (f_regs f)(RAX := 0)\<rparr>)"
    using w by (simp_all add: s1_def)
  from seed_stack_resumes [OF this(1) assms(3) this(2), of stub]
  obtain sp m' where sd: "seed_stack child ?sp stub 0 0 0 s1 = Inr ((set_kmem m' s1)\<lparr>tasks := (tasks s1)(child \<mapsto> ?x\<lparr>t_rsp := sp\<rparr>)\<rparr>)"
    and res: "resumes_child stub sp m' f" by blast
  define s2 where "s2 = (set_kmem m' s1)\<lparr>tasks := (tasks s1)(child \<mapsto> ?x\<lparr>t_rsp := sp\<rparr>)\<rparr>"
  have "rq_rel s2 xs" using q by (simp add: s2_def s1_def set_kmem_def rq_rel_def tseg_other)
  moreover have "tasks s2 child = Some (?x\<lparr>t_rsp := sp\<rparr>)" by (simp add: s2_def)
  ultimately obtain s3 y where s3: "sched_enqueue_user child s2 = Inr s3" "rq_rel s3 (xs @ [child])" "tasks s3 child = Some y"
      "y\<lparr>t_next := 0\<rparr> = ?x\<lparr>t_rsp := sp, t_pid := next_pid s2, t_next := 0\<rparr>" "kh s3 = kh s2"
    using enqueue_user_ok [OF _ _ assms(3) q(2)] by blast
  define s' where "s' = s3\<lparr>kcon := kprintf (KLOG_INFO @ ''fork: pid %u -> %u'' @ nl)
    [KNum (ucast (ucast (t_pid p) :: u32)), KNum (ucast (ucast (t_pid y) :: u32))] (kcon s3)\<rparr>"
  have run: "do_fork stub parent fr s = Some (Inr (child, s'))"
    using assms(3) fork p sd s3(1,3)
    by (simp add: do_fork_def alloc_user_task_ok [OF assms(1-4)] task_access task_register_def kvm_def set_kvm_def set_kmem_def
        Let_def m_def s1_def s2_def s'_def)
  have y: "t_state y = TASK_READY" "t_is_user y = 1" "t_pid y = next_pid s" "t_rsp y = sp" "t_cr3 y = c" "t_ppid y = t_pid p" "t_fds y = t_fds p"
    using arg_cong [OF s3(4), of t_state] arg_cong [OF s3(4), of t_is_user] arg_cong [OF s3(4), of t_pid] arg_cong [OF s3(4), of t_rsp]
      arg_cong [OF s3(4), of t_cr3] arg_cong [OF s3(4), of t_ppid] arg_cong [OF s3(4), of t_fds] by (simp_all add: s2_def s1_def set_kmem_def)
  have k: "kvm s' = v" "hmem (kh s') = m'" using s3(5) by (simp_all add: s'_def s2_def s1_def set_kmem_def kvm_def)
  have "rq_rel s' (xs @ [child])" "tasks s' child = Some y" using s3(2,3) by (simp_all add: s'_def rq_rel_def)
  then show ?thesis using run y k res by blast
qed


section \<open>Examples\<close>

text \<open>A heap with a free block of 64 KiB, over a given address space.\<close>

definition roomy_heap :: "vmm \<Rightarrow> heap" where
  "roomy_heap v = (one_block False)\<lparr>hvm := v\<rparr>"

lemma roomy_heap_task:
  "\<exists>h. kzalloc SIZEOF_TASK (roomy_heap v) = Some (Inr (HEAP_VA_BASE + 16, h)) \<and> hvm h = v \<and> freelist h = HEAP_VA_BASE + 144 \<and>
    block_magic (hmem h) (HEAP_VA_BASE + 144) = BMAGIC_FREE \<and> block_size (hmem h) (HEAP_VA_BASE + 144) = 65392"
proof -
  let ?s = "roomy_heap v"
  have m: "block_magic (hmem ?s) HEAP_VA_BASE = BMAGIC_FREE" "block_size (hmem ?s) HEAP_VA_BASE = 65536" "freelist ?s = HEAP_VA_BASE" "hvm ?s = v"
    by (simp_all add: roomy_heap_def one_block_def)
  have f: "kmalloc_find (hmem ?s) 144 None HEAP_VA_BASE = Some (Inr (Some (None, HEAP_VA_BASE)))"
    using m by (subst kmalloc_find.simps) (simp add: HEAP_VA_BASE_def)
  have k: "kmalloc SIZEOF_TASK ?s = Some (Inr (HEAP_VA_BASE + 16, kmalloc_take None HEAP_VA_BASE 144 ?s))"
    using f m by (subst kmalloc.simps) (simp add: SIZEOF_TASK_def HDR_SIZE_def HEAP_MAX_def)
  have ap: "apart 16 HEAP_VA_BASE 16 (HEAP_VA_BASE + 144)" by (simp add: apart_def)
  define h where "h = kmalloc_take None HEAP_VA_BASE 144 ?s"
  have h: "freelist h = HEAP_VA_BASE + 144" "hvm h = v" "block_magic (hmem h) (HEAP_VA_BASE + 144) = BMAGIC_FREE"
    "block_size (hmem h) (HEAP_VA_BASE + 144) = 65392"
    using m by (simp_all add: h_def kmalloc_take_def Let_def HDR_SIZE_def set_prev_def header_other [OF ap])
  let ?h = "h\<lparr>hmem := memset (HEAP_VA_BASE + 16) 0 SIZEOF_TASK (hmem h)\<rparr>"
  have "block_magic (hmem ?h) (HEAP_VA_BASE + 144) = block_magic (hmem h) (HEAP_VA_BASE + 144)"
    "block_size (hmem ?h) (HEAP_VA_BASE + 144) = block_size (hmem h) (HEAP_VA_BASE + 144)"
    by (simp_all add: block_magic_def block_size_def get_unrolled memset_apply SIZEOF_TASK_def HEAP_VA_BASE_def)
  moreover have "kzalloc SIZEOF_TASK ?s = Some (Inr (HEAP_VA_BASE + 16, ?h))"
    unfolding kzalloc_def k h_def by (simp add: HEAP_VA_BASE_def)
  ultimately show ?thesis using h by (intro exI [of _ ?h]) simp
qed

lemma roomy_heap_allocs:
  "\<exists>h1 h2. kzalloc SIZEOF_TASK (roomy_heap v) = Some (Inr (HEAP_VA_BASE + 16, h1)) \<and>
    kmalloc KSTACK_SIZE h1 = Some (Inr (HEAP_VA_BASE + 160, h2)) \<and> hvm h2 = v"
proof -
  obtain h where h: "kzalloc SIZEOF_TASK (roomy_heap v) = Some (Inr (HEAP_VA_BASE + 16, h))" "hvm h = v" "freelist h = HEAP_VA_BASE + 144"
    "block_magic (hmem h) (HEAP_VA_BASE + 144) = BMAGIC_FREE" "block_size (hmem h) (HEAP_VA_BASE + 144) = 65392"
    using roomy_heap_task by blast
  have f: "kmalloc_find (hmem h) 16400 None (HEAP_VA_BASE + 144) = Some (Inr (Some (None, HEAP_VA_BASE + 144)))"
    using h by (subst kmalloc_find.simps) (simp add: HEAP_VA_BASE_def)
  have "kmalloc KSTACK_SIZE h = Some (Inr (HEAP_VA_BASE + 160, kmalloc_take None (HEAP_VA_BASE + 144) 16400 h))"
    using f h by (subst kmalloc.simps) (simp add: KSTACK_SIZE_def HDR_SIZE_def HEAP_MAX_def)
  moreover have "hvm (kmalloc_take None (HEAP_VA_BASE + 144) 16400 h) = v"
    using h by (simp add: kmalloc_take_def Let_def set_prev_def)
  ultimately show ?thesis using h(1) by blast
qed

definition proc_example :: "vmm \<Rightarrow> kern" where
  "proc_example v = sched_example\<lparr>kh := roomy_heap v\<rparr>"

lemma proc_example_queue: "rq_rel (proc_example v) [8192]" "HEAP_VA_BASE + 16 \<notin> set [8192]" "HEAP_VA_BASE + 16 \<noteq> 0" "HEAP_VA_BASE + 160 \<noteq> 0"
  by (simp_all add: proc_example_def sched_example_def rq_rel_def zero_task_def HEAP_VA_BASE_def)

theorem user_task_starts_witness:
  "\<exists>s' x. user_task_create 0xFFFFFFFF80001000 ''user0'' (\<lambda>i. if i = 0 then 0xEB else 0xFE) 2 (proc_example vmm_empty) =
      Some (Inr (HEAP_VA_BASE + 16, s')) \<and> tasks s' (HEAP_VA_BASE + 16) = Some x \<and> t_pid x = 4 \<and>
    enters_user 0xFFFFFFFF80001000 (t_rsp x) (hmem (kh s')) 0x400000 0x7FFFF0 \<and>
    uget 0x400001 ((kvm s')\<lparr>cr3 := t_cr3 x\<rparr>) = Inr 0xFE"
proof -
  obtain h1 h2 where h: "kzalloc SIZEOF_TASK (kh (proc_example vmm_empty)) = Some (Inr (HEAP_VA_BASE + 16, h1))"
    "kmalloc KSTACK_SIZE h1 = Some (Inr (HEAP_VA_BASE + 160, h2))" "hvm h2 = vmm_empty"
    using roomy_heap_allocs [of vmm_empty] by (auto simp: proc_example_def)
  have wf: "vmm_wf (hvm h2)" "4 * ((unat (2 :: u64) + 4095) div 4096 + 64) < card (free_pages (pm (hvm h2)))"
    using vmm_wf_empty free_pages_vmm_empty h(3) by simp_all
  have len: "unat (2 :: u64) \<le> 0x3C0000" by simp
  have n: "next_pid (proc_example vmm_empty) = 4" by (simp add: proc_example_def sched_example_def)
  from user_task_starts [where launch = "0xFFFFFFFF80001000" and name = "''user0''" and code = "\<lambda>i. if i = 0 then 0xEB else 0xFE",
    OF h(1,2) proc_example_queue(3,4) wf(1) len wf(2) proc_example_queue(1,2)]
  obtain s' x where s': "user_task_create 0xFFFFFFFF80001000 ''user0'' (\<lambda>i. if i = 0 then 0xEB else 0xFE) 2 (proc_example vmm_empty) =
      Some (Inr (HEAP_VA_BASE + 16, s'))" "tasks s' (HEAP_VA_BASE + 16) = Some x" "t_pid x = next_pid (proc_example vmm_empty)"
      "enters_user 0xFFFFFFFF80001000 (t_rsp x) (hmem (kh s')) USER_CODE_BASE (USER_STACK_TOP - 16)"
    and u: "\<forall>i < unat (2 :: u64). uget (USER_CODE_BASE + of_nat i) ((kvm s')\<lparr>cr3 := t_cr3 x\<rparr>) = Inr (if (of_nat i :: u64) = 0 then 0xEB else 0xFE)"
    by blast
  have "uget 0x400001 ((kvm s')\<lparr>cr3 := t_cr3 x\<rparr>) = Inr 0xFE" using u [rule_format, of 1] by (simp add: USER_CODE_BASE_def)
  then show ?thesis using s' n by (auto simp: user_const)
qed

text \<open>The frame in memory, by its fields.\<close>

definition load_frame :: "bytes \<Rightarrow> u64 \<Rightarrow> iframe" where
  "load_frame m a = \<lparr>f_regs = (\<lambda>r. case r of RAX \<Rightarrow> get64 m a | RCX \<Rightarrow> get64 m (a + 8) | RDX \<Rightarrow> get64 m (a + 16) |
       RBX \<Rightarrow> get64 m (a + 24) | RBP \<Rightarrow> get64 m (a + 32) | RSI \<Rightarrow> get64 m (a + 40) | RDI \<Rightarrow> get64 m (a + 48) |
       R8 \<Rightarrow> get64 m (a + 56) | R9 \<Rightarrow> get64 m (a + 64) | R10 \<Rightarrow> get64 m (a + 72) | R11 \<Rightarrow> get64 m (a + 80) |
       R12 \<Rightarrow> get64 m (a + 88) | R13 \<Rightarrow> get64 m (a + 96) | R14 \<Rightarrow> get64 m (a + 104) | R15 \<Rightarrow> get64 m (a + 112)),
     int_no = get64 m (a + 120), err = get64 m (a + 128), f_rip = get64 m (a + 136), f_cs = get64 m (a + 144),
     f_rflags = get64 m (a + 152), f_rsp = get64 m (a + 160), f_ss = get64 m (a + 168)\<rparr>"

lemma load_frame_words: "frame_words (load_frame m a) = words 22 m a"
  by (simp add: frame_words_def frame_regs_def load_frame_def words_numeral add.assoc)

theorem fork_child_resumes_witness:
  "\<exists>s' x. do_fork 0xFFFFFFFF80002000 4096 (HEAP_VA_BASE + 0x8000) (proc_example vmm_example) = Some (Inr (HEAP_VA_BASE + 16, s')) \<and>
    tasks s' (HEAP_VA_BASE + 16) = Some x \<and> t_pid x = 4 \<and> t_ppid x = 1 \<and> t_cr3 x = 0x1000 \<and>
    (\<exists>f. resumes_child 0xFFFFFFFF80002000 (t_rsp x) (hmem (kh s')) f)"
proof -
  obtain h1 h2 where h: "kzalloc SIZEOF_TASK (kh (proc_example vmm_example)) = Some (Inr (HEAP_VA_BASE + 16, h1))"
    "kmalloc KSTACK_SIZE h1 = Some (Inr (HEAP_VA_BASE + 160, h2))" "hvm h2 = vmm_example"
    using roomy_heap_allocs [of vmm_example] by (auto simp: proc_example_def)
  obtain v where v: "vmm_fork_user_space (hvm h2) = Inr (0x1000, v)" using vmm_fork_example h(3) by auto
  have p: "tasks (proc_example vmm_example) 4096 = Some (zero_task\<lparr>t_state := TASK_RUNNING, t_pid := 1, t_next_all := 0\<rparr>)"
    by (simp add: proc_example_def sched_example_def)
  have ne: "(4096 :: u64) \<noteq> 0" "(4096 :: u64) \<noteq> HEAP_VA_BASE + 16" by (simp_all add: HEAP_VA_BASE_def)
  have ap: "apart 176 (HEAP_VA_BASE + 0x8000) 16384 (HEAP_VA_BASE + 160)" by (simp add: apart_def)
  have n: "next_pid (proc_example vmm_example) = 4" by (simp add: proc_example_def sched_example_def)
  from fork_child_resumes [where stub = "0xFFFFFFFF80002000", OF h(1,2) proc_example_queue(3,4) v p ne
    load_frame_words [symmetric] ap proc_example_queue(1,2)]
  show ?thesis using n by auto
qed

section \<open>Execve\<close>

text \<open>The loops over the old tables only give pages back.\<close>

definition only_pm :: "vmm \<Rightarrow> vmm \<Rightarrow> bool" where
  "only_pm v v' \<longleftrightarrow> v' = v\<lparr>pm := pm v'\<rparr>"

lemma only_pm_refl: "only_pm v v" by (simp add: only_pm_def)

lemma only_pm_trans: "only_pm u v \<Longrightarrow> only_pm v w \<Longrightarrow> only_pm u w"
  unfolding only_pm_def by (metis vmm.surjective vmm.update_convs(1))

lemma only_pm_upd: "only_pm v (v\<lparr>pm := p\<rparr>)" by (simp add: only_pm_def)

lemma only_pm_step: "only_pm u v \<Longrightarrow> only_pm u (v\<lparr>pm := p\<rparr>)"
  using only_pm_trans only_pm_upd by blast

lemma only_pm_for:
  assumes "\<And>i t t'. f i t = Inr t' \<Longrightarrow> only_pm t t'" and "for_res f is v = Inr v'"
  shows "only_pm v v'"
  using for_res_invariant [where P = "only_pm v", OF assms(2) only_pm_refl] assms(1) only_pm_trans by blast

lemma free_user_tables_pm: "free_user_tables level table v = Inr v' \<Longrightarrow> only_pm v v'"
proof (induction level arbitrary: table v v')
  case 0
  have "only_pm t t'" if "free_user_entry 0 (\<lambda>_. Inr) table i t = Inr t'" for i t t'
    using that by (auto simp: free_user_entry_def Let_def rbind_eq_Inr only_pm_upd only_pm_refl split: if_splits)
  then show ?case using 0 only_pm_for by (metis free_user_tables.simps(1))
next
  case (Suc level)
  have "only_pm t t'" if "free_user_entry (Suc level) (free_user_tables level) table i t = Inr t'" for i t t'
    using that Suc.IH by (auto simp: free_user_entry_def Let_def rbind_eq_Inr only_pm_refl split: if_splits intro!: only_pm_step)
  then show ?case using Suc.prems only_pm_for by (metis free_user_tables.simps(2))
qed

lemma free_old_entry_pm: "free_old_entry old i v = Inr v' \<Longrightarrow> only_pm v v'"
  using free_user_tables_pm by (auto simp: free_old_entry_def rbind_eq_Inr only_pm_refl split: if_splits intro!: only_pm_step)

lemma copy_entries_self: "copy_entries is (pml4 s) s = s"
proof -
  have "fold (\<lambda>i s. tbl_write r i (mem s (pml4 s) i) s) is s = s" if "r = pml4 s" for r and s :: vmm
    using that by (induction "is") (simp_all add: tbl_write_def)
  then show ?thesis by (simp add: copy_entries_def)
qed

text \<open>
  Claim C38. Execve gives back the page tables it is running on. When the old space has been
  freed, its root is still the active one and is marked free; if the allocator then hands out just
  that page for the new space, \<^verbatim>\<open>vmm_create_space\<close> clears it before it copies the kernel half from it,
  and the new space maps nothing at all, not even the kernel.
\<close>

theorem execve_frees_live_root:
  assumes "c \<noteq> 0" and "free_old_space c v = Inr v'"
  shows "pml4 v' = c \<and> cr3 v' = c \<and> is_free (drop_bit 12 c) (pm v') \<and>
    (fst (vmm_alloc v') = c \<longrightarrow> (\<exists>w. vmm_create_space v' = Inr (c, w) \<and> (\<forall>va. mmu_translate (mem (vmm_switch c w)) c va = None)))"
proof -
  obtain u p where u: "for_res (free_old_entry c) [0..<256] (vmm_switch c v) = Inr u" "pmm_free c (pm u) = Inr p" "v' = u\<lparr>pm := p\<rparr>"
    using assms by (auto simp: free_old_space_def rbind_eq_Inr)
  have "only_pm (vmm_switch c v) u" by (rule only_pm_for [OF free_old_entry_pm u(1)])
  then have "u = (vmm_switch c v)\<lparr>pm := pm u\<rparr>" by (simp add: only_pm_def)
  from arg_cong [OF this, of pml4] arg_cong [OF this, of cr3] have r: "pml4 u = c" "cr3 u = c" by (simp_all add: vmm_switch_def load_cr3_def)
  have fr: "is_free (drop_bit 12 c) p" using u(2) by (auto simp: pmm_free_def Let_def UIX_PAGE_SHIFT_def split: if_splits)
  have "\<exists>w. vmm_create_space v' = Inr (c, w) \<and> (\<forall>va. mmu_translate (mem (vmm_switch c w)) c va = None)" if fc: "fst (vmm_alloc v') = c"
  proof -
    obtain s1 where a: "vmm_alloc v' = (c, s1)" using fc by (cases "vmm_alloc v'") simp
    have p1: "pml4 (zero_page c s1) = c" using a r u(3) by (auto simp: vmm_alloc_def zero_page_def split: prod.splits)
    have "vmm_create_space v' = Inr (c, zero_page c s1)"
      using a assms(1) copy_entries_self [of "[256..<512]" "zero_page c s1"] p1 by (simp add: vmm_create_space_def)
    moreover have "mmu_translate (mem (vmm_switch c (zero_page c s1))) c va = None" for va
      by (simp add: mmu_translate_def va_path_def vmm_switch_def load_cr3_def zero_page_def Let_def)
    ultimately show ?thesis by blast
  qed
  then show ?thesis using r fr u(3) by simp
qed

lemma for_res_idle: "(\<And>i. i \<in> set is \<Longrightarrow> f i s = Inr s) \<Longrightarrow> for_res f is s = Inr s"
  by (induction "is") simp_all

lemma for_res_one:
  assumes "k < n" "f k s = Inr s'" "\<And>i. i < n \<Longrightarrow> i \<noteq> k \<Longrightarrow> f i s = Inr s \<and> f i s' = Inr s'"
  shows "for_res f [0..<n] s = Inr s'"
proof -
  have "[0..<n] = [0..<k] @ k # [Suc k..<n]" using assms(1) by (metis upt_add_eq_append upt_conv_Cons le_add_diff_inverse less_imp_le_nat zero_le)
  moreover have "for_res f [0..<k] s = Inr s" by (rule for_res_idle) (use assms(1,3) in simp)
  moreover have "for_res f [Suc k..<n] s' = Inr s'" by (rule for_res_idle) (use assms(1,3) in simp)
  ultimately show ?thesis using assms(2) by (simp add: for_res_append)
qed

text \<open>The example space with the cursor of the page allocator at its root.\<close>

definition exec_vmm :: vmm where
  "exec_vmm = vmm_example\<lparr>pm := (pm vmm_example)\<lparr>next_free_scan := 8\<rparr>\<rparr>"

theorem execve_frees_live_root_witness:
  "\<exists>v' w. free_old_space 0x8000 exec_vmm = Inr v' \<and> vmm_create_space v' = Inr (0x8000, w) \<and>
    mmu_translate (mem (vmm_switch 0x8000 w)) 0x8000 0xFFFFFFFF80000000 = None"
proof -
  let ?m = "mem vmm_example"
  have m: "?m 0x8000 i = (if i = 0 then 0x9007 else 0)" "?m 0x9000 i = (if i = 0 then 0xA007 else 0)"
    "?m 0xA000 i = (if i = 2 then 0xB007 else 0)" "?m 0xB000 i = (if i = 0 then 0xC007 else 0)" for i
    by (simp_all add: vmm_example_def)
  define v0 where "v0 = vmm_switch 0x8000 exec_vmm"
  have v0: "mem v0 = ?m" "refcounts (pm v0) = None" by (simp_all add: v0_def exec_vmm_def vmm_switch_def load_cr3_def) (simp add: vmm_example_def)
  obtain p1 p2 p3 p4 where p: "pmm_free 0xB000 (pm v0) = Inr p1" "pmm_free 0xA000 p1 = Inr p2" "pmm_free 0x9000 p2 = Inr p3" "pmm_free 0x8000 p3 = Inr p4"
    and al: "fst (pmm_alloc p4) = 0x8000"
  proof -
    define pp :: "u64 \<Rightarrow> u64 \<Rightarrow> pmm" where "pp b n = \<lparr>bitmap = (\<lambda>_. 0)(0 := b), bitmap_len = 16, total_pages = 16, free_count = n,
      bitmap_phys = 0, next_free_scan = 8, refcounts = None, refcounts_pages = 0\<rparr>" for b n
    have f: "pm v0 = pp 0xE0FE 10" by (simp add: v0_def exec_vmm_def vmm_switch_def load_cr3_def vmm_example_def pp_def)
    have "pmm_free 0xB000 (pp 0xE0FE 10) = Inr (pp 0xE8FE 11)" "pmm_free 0xA000 (pp 0xE8FE 11) = Inr (pp 0xECFE 12)"
      "pmm_free 0x9000 (pp 0xECFE 12) = Inr (pp 0xEEFE 13)" "pmm_free 0x8000 (pp 0xEEFE 13) = Inr (pp 0xEFFE 14)"
      by (simp_all add: pmm_free_def pp_def UIX_PAGE_SHIFT_def is_free_def set_free_def BM_WORD_def BM_BIT_def Let_def drop_bit_eq_div push_bit_eq_mult fun_eq_iff)
    moreover have "alloc_scan (Suc k) 0 (pp 0xEFFE 14) = Some 8" for k
      by (simp add: pp_def is_free_def BM_WORD_def BM_BIT_def Let_def drop_bit_eq_div push_bit_eq_mult)
    from this [of 15] have "fst (pmm_alloc (pp 0xEFFE 14)) = 0x8000"
      by (simp add: pmm_alloc_def pp_def Let_def push_bit_eq_mult UIX_PAGE_SHIFT_def)
    ultimately show ?thesis using that f by metis
  qed
  have t0: "free_user_tables 0 0xB000 v0 = Inr v0"
    unfolding free_user_tables.simps by (rule for_res_idle) (simp add: free_user_entry_def m v0 pmm_unref_def uix_const)
  have t1: "free_user_tables 1 0xA000 v0 = Inr (v0\<lparr>pm := p1\<rparr>)"
    unfolding One_nat_def free_user_tables.simps
    by (rule for_res_one [of 2]) (use t0 p in \<open>simp_all add: free_user_entry_def m v0 uix_const\<close>)
  have t2: "free_user_tables 2 0x9000 v0 = Inr (v0\<lparr>pm := p2\<rparr>)"
    unfolding numeral_2_eq_2 free_user_tables.simps
    by (rule for_res_one [of 0]) (use t1 p in \<open>simp_all add: free_user_entry_def m v0 uix_const\<close>)
  have "for_res (free_old_entry 0x8000) [0..<256] v0 = Inr (v0\<lparr>pm := p3\<rparr>)"
    by (rule for_res_one [of 0]) (use t2 p in \<open>simp_all add: free_old_entry_def m v0 uix_const\<close>)
  then have f: "free_old_space 0x8000 exec_vmm = Inr (v0\<lparr>pm := p4\<rparr>)" using p(4) by (simp add: free_old_space_def v0_def)
  have "fst (vmm_alloc (v0\<lparr>pm := p4\<rparr>)) = 0x8000" using al by (auto simp: vmm_alloc_def split: prod.splits)
  with execve_frees_live_root [OF _ f] f show ?thesis by auto
qed

section \<open>The path buffer of execve\<close>

lemma copy_path_string:
  "length w < n \<Longrightarrow> i + length w < length path \<Longrightarrow>
   \<forall>j < length w. uget (upath + of_nat (i + j)) v = Inr (w ! j) \<and> w ! j \<noteq> 0 \<Longrightarrow> uget (upath + of_nat (i + length w)) v = Inr 0 \<Longrightarrow>
   copy_path n upath path i v = Inr (take i path @ w @ drop (i + length w) path)"
proof (induction w arbitrary: n i path)
  case Nil
  then show ?case by (cases n) simp_all
next
  case (Cons b w)
  obtain m where n: "n = Suc m" using Cons.prems(1) by (cases n) auto
  have b: "uget (upath + of_nat i) v = Inr b" "b \<noteq> 0" using Cons.prems(3) by force+
  have w: "\<forall>j < length w. uget (upath + of_nat (Suc i + j)) v = Inr (w ! j) \<and> w ! j \<noteq> 0" using Cons.prems(3) by fastforce
  have "copy_path m upath (path[i := b]) (Suc i) v = Inr (take (Suc i) (path[i := b]) @ w @ drop (Suc i + length w) (path[i := b]))"
    by (rule Cons.IH) (use Cons.prems n w in \<open>simp_all add: add.commute\<close>)
  also have "\<dots> = Inr (take i path @ (b # w) @ drop (i + length (b # w)) path)"
    using Cons.prems(2) by (simp add: take_Suc_conv_app_nth)
  finally show ?case using b by (simp add: n)
qed

lemma exec_path_string:
  assumes "length w < 63" "length junk = 64"
    and "\<forall>j < length w. uget (upath + of_nat j) v = Inr (w ! j) \<and> w ! j \<noteq> 0" "uget (upath + of_nat (length w)) v = Inr 0"
  shows "exec_path junk upath v = Inr (w @ drop (length w) (take 63 junk) @ [0])"
proof -
  have "copy_path 63 upath junk 0 v = Inr (take 0 junk @ w @ drop (0 + length w) junk)"
    by (rule copy_path_string) (use assms in simp_all)
  moreover have "(w @ drop (length w) junk)[63 := 0] = w @ drop (length w) (take 63 junk) @ [0]"
    by (rule nth_equalityI) (use assms in \<open>auto simp: nth_append nth_list_update less_Suc_eq\<close>)
  ultimately show ?thesis by (simp add: exec_path_def)
qed

text \<open>
  Claim C39. The path that \<^verbatim>\<open>execve\<close> looks up is the user's string followed by whatever the
  uninitialised buffer \<^verbatim>\<open>path[64]\<close> of the kernel stack held after it: the copy loop stops before
  the terminating NUL and only byte 63 is cleared. For a path of fewer than 63 characters the lookup
  therefore sees the user's string exactly when the stack happened to hold a zero at that place; for any
  other stack content it looks for a longer name.
\<close>

theorem execve_path_unterminated:
  assumes "length w < 63" "length junk = 64"
    and "\<forall>j < length w. uget (upath + of_nat j) v = Inr (w ! j) \<and> w ! j \<noteq> 0" "uget (upath + of_nat (length w)) v = Inr 0"
  shows "\<exists>path. exec_path junk upath v = Inr path \<and> length path = 64 \<and> path ! 63 = 0 \<and> take (length w) path = w \<and>
    (takeWhile (\<lambda>b. b \<noteq> 0) path = w \<longleftrightarrow> junk ! length w = 0)"
proof -
  let ?path = "w @ drop (length w) (take 63 junk) @ [0]"
  have w: "\<forall>b \<in> set w. b \<noteq> 0" using assms(3) by (auto simp: in_set_conv_nth)
  have "drop (length w) (take 63 junk) = junk ! length w # drop (Suc (length w)) (take 63 junk)"
    using assms(1, 2) by (simp add: Cons_nth_drop_Suc [symmetric])
  then have "takeWhile (\<lambda>b. b \<noteq> 0) ?path = w \<longleftrightarrow> junk ! length w = 0" using w by (simp add: takeWhile_append2)
  moreover have "length ?path = 64" "?path ! 63 = 0" using assms(1, 2) by (simp_all add: nth_append)
  ultimately show ?thesis using exec_path_string [OF assms] by (intro exI [of _ ?path]) simp
qed

text \<open>A process calls \<^verbatim>\<open>execve("/sh")\<close> while the kernel stack holds the letters of an earlier path.\<close>

definition path_vmm :: vmm where
  "path_vmm = vmm_example\<lparr>mem := (mem vmm_example)(0xC000 := (\<lambda>_. 0)(0 := 0x68732F))\<rparr>"

lemma path_vmm_bytes:
  "uget 0x400000 path_vmm = Inr 0x2F" "uget 0x400001 path_vmm = Inr 0x73" "uget 0x400002 path_vmm = Inr 0x68" "uget 0x400003 path_vmm = Inr 0"
proof -
  have i: "va_path va = [0, 0, 2, 0]" if "va \<in> {0x400000, 0x400001, 0x400002, 0x400003}" for va :: u64
    using that by (auto simp: va_path_def PML4_IDX_def PDPT_IDX_def PD_IDX_def PT_IDX_def drop_bit_eq_div)
  have f: "mem path_vmm 0x8000 0 = 0x9007" "mem path_vmm 0x9000 0 = 0xA007" "mem path_vmm 0xA000 2 = 0xB007" "mem path_vmm 0xB000 0 = 0xC007"
    "mem path_vmm 0xC000 0 = 0x68732F" "cr3 path_vmm = 0x8000"
    by (simp_all add: path_vmm_def vmm_example_def)
  show "uget 0x400000 path_vmm = Inr 0x2F" "uget 0x400001 path_vmm = Inr 0x73" "uget 0x400002 path_vmm = Inr 0x68" "uget 0x400003 path_vmm = Inr 0"
    by (simp_all add: uget_def mmu_translate_def i f phys_get_def frame_byte_def uix_const Let_def drop_bit_eq_div mask_eq_exp_minus_1)
qed

theorem execve_path_unterminated_witness:
  "\<exists>path. exec_path (replicate 64 0x61) 0x400000 path_vmm = Inr path \<and> takeWhile (\<lambda>b. b \<noteq> 0) path \<noteq> [0x2F, 0x73, 0x68]"
proof -
  have "\<exists>path. exec_path (replicate 64 0x61) 0x400000 path_vmm = Inr path \<and> length path = 64 \<and> path ! 63 = 0 \<and>
      take (length [0x2F, 0x73, 0x68 :: u8]) path = [0x2F, 0x73, 0x68] \<and>
      (takeWhile (\<lambda>b. b \<noteq> 0) path = [0x2F, 0x73, 0x68] \<longleftrightarrow> replicate 64 0x61 ! length [0x2F, 0x73, 0x68 :: u8] = (0 :: u8))"
    by (rule execve_path_unterminated) (use path_vmm_bytes in \<open>auto simp: less_Suc_eq\<close>)
  then show ?thesis by auto
qed

end
