(* ===== verification/Syscall.thy ===== *)
theory Syscall
  imports Proc Tty
begin

text \<open>
  The system calls (\<^verbatim>\<open>core/cpu/syscall.c\<close>). A call ends in one of four ways: it returns a value to
  the interrupted program, it is switched away in the middle of \<^verbatim>\<open>wait4\<close> and goes on when its task is
  switched back in, it leaves its task for good, or it drops the kernel stack to enter a new program.
  User memory is read and written through the page tables that are loaded; the bytes of the kernel
  heap, where the kernel stacks are, are a memory of their own, so a pointer a program passes is
  taken to be one into its own half of the address space.
\<close>

section \<open>The calls\<close>

definition SYS_exit :: u64 where "SYS_exit = 0"
definition SYS_write :: u64 where "SYS_write = 1"
definition SYS_getpid :: u64 where "SYS_getpid = 2"
definition SYS_yield :: u64 where "SYS_yield = 3"
definition SYS_read :: u64 where "SYS_read = 4"
definition SYS_close :: u64 where "SYS_close = 5"
definition SYS_open :: u64 where "SYS_open = 6"
definition SYS_fork :: u64 where "SYS_fork = 7"
definition SYS_execve :: u64 where "SYS_execve = 8"
definition SYS_wait4 :: u64 where "SYS_wait4 = 9"

lemmas sys_numbers = SYS_exit_def SYS_write_def SYS_getpid_def SYS_yield_def SYS_read_def SYS_close_def SYS_open_def
  SYS_fork_def SYS_execve_def SYS_wait4_def

datatype sys_result = Value u64 | Waits u64 u64 | Exits u64 u64 | Enters u64

text \<open>The kernel with the terminal, and what the kernel image fixes: two code addresses, the program table and the stack bytes under \<^verbatim>\<open>path\<close>.\<close>

record sysk =
  sfs :: fskern
  stty :: tty

record kimage =
  fork_stub_at :: u64
  launch_at :: u64
  image_table :: "uxn list"
  path_bytes :: "u8 list"

abbreviation sk :: "sysk \<Rightarrow> kern" where "sk s \<equiv> fk (sfs s)"

definition set_sk :: "kern \<Rightarrow> sysk \<Rightarrow> sysk" where "set_sk k s = s\<lparr>sfs := (sfs s)\<lparr>fk := k\<rparr>\<rparr>"

definition arg_int :: "u64 \<Rightarrow> int" where "arg_int x = sint (ucast x :: 32 word)"

definition log32 :: "u64 \<Rightarrow> karg" where "log32 x = KNum (ucast (ucast x :: u32))"

text \<open>\<^verbatim>\<open>schedule()\<close> does not come back to a zombie; without another task it stops the machine.\<close>

definition sys_exit :: "u64 \<Rightarrow> u64 \<Rightarrow> kern \<Rightarrow> (sys_result \<times> kern) res option" where
  "sys_exit t status s =
     obind (Some (tload t s)) (\<lambda>x.
     obind (Some (tstore t (\<lambda>x. x\<lparr>t_exit_status := ucast status, t_state := TASK_ZOMBIE\<rparr>)
       (s\<lparr>kcon := kprintf (KLOG_INFO @ ''pid %u exited with %u'' @ nl) [log32 (t_pid x), log32 status] (kcon s)\<rparr>))) (\<lambda>s.
     obind (task_wakeup_children (t_pid x) (t_ppid x) s) (\<lambda>s.
     obind (Some (schedule s)) (\<lambda>(sw, s).
     case sw of None \<Rightarrow> Some (Inl Halted) | Some (c, n) \<Rightarrow> Some (Inr (Exits c n, s))))))"

definition write_char :: "vaddr \<Rightarrow> nat \<Rightarrow> kern \<Rightarrow> kern res" where
  "write_char buf i s =
     rbind (uget (buf + of_nat i) (kvm s)) (\<lambda>b. Inr (s\<lparr>kcon := console_putc (char_of (unat b)) (kcon s)\<rparr>))"

definition sys_write :: "u64 \<Rightarrow> int \<Rightarrow> vaddr \<Rightarrow> u64 \<Rightarrow> kern \<Rightarrow> (sys_result \<times> kern) res" where
  "sys_write t fd buf len s =
     rbind (tload t s) (\<lambda>x.
     if proc_fd_type fd x \<noteq> FD_CONSOLE_OUT then Inr (Value (- 9), s)
     else rbind (for_res (write_char buf) [0..<unat len] s) (\<lambda>s. Inr (Value len, s)))"

text \<open>\<^verbatim>\<open>tty_readline\<close> stores the line and a zero byte in the user's buffer.\<close>

definition store_line :: "console \<Rightarrow> vaddr \<Rightarrow> char list \<Rightarrow> vmm \<Rightarrow> vmm res" where
  "store_line con buf w = for_res (\<lambda>i. uput con (buf + of_nat i) (of_nat (of_char (w ! i)))) [0..<length w]"

definition sys_read :: "u64 \<Rightarrow> int \<Rightarrow> vaddr \<Rightarrow> u64 \<Rightarrow> kern \<times> tty \<Rightarrow> (sys_result \<times> kern \<times> tty) res" where
  "sys_read t fd buf len = (\<lambda>(s, y).
     rbind (tload t s) (\<lambda>x.
     if proc_fd_type fd x \<noteq> FD_CONSOLE_IN then Inr (Value (- 9), s, y)
     else if len < 1 then Inr (Value 0, s, y)
     else rbind (tty_poll (y, kcon s)) (\<lambda>(y, con).
       case tty_readline (ucast len) y of ((n, w), y) \<Rightarrow>
       rbind (store_line con buf w (kvm s)) (\<lambda>v. Inr (Value (ucast n), (set_kvm v s)\<lparr>kcon := con\<rparr>, y)))))"

definition sys_close :: "u64 \<Rightarrow> int \<Rightarrow> kern \<Rightarrow> (sys_result \<times> kern) res" where
  "sys_close t fd s =
     rbind (tload t s) (\<lambda>x.
     if proc_fd_type fd x = FD_NONE then Inr (Value (- 9), s)
     else rbind (tstore t (proc_fd_free fd) s) (\<lambda>s. Inr (Value 0, s)))"

definition cons_path :: "u8 list" where "cons_path = bytes_of ''/dev/console'' @ [0]"

fun open_scan :: "u8 list \<Rightarrow> vaddr \<Rightarrow> nat \<Rightarrow> vmm \<Rightarrow> nat res" where
  "open_scan [] path i v = Inr i"
| "open_scan (c # ks) path i v =
     rbind (uget (path + of_nat i) v) (\<lambda>b.
     if b = c then (if b = 0 then Inr i else open_scan ks path (Suc i) v) else Inr i)"

definition sys_open :: "u64 \<Rightarrow> vaddr \<Rightarrow> kern \<Rightarrow> (sys_result \<times> kern) res" where
  "sys_open t path s =
     rbind (open_scan cons_path path 0 (kvm s)) (\<lambda>i.
     rbind (uget (path + of_nat i) (kvm s)) (\<lambda>b.
     if b \<noteq> 0 \<or> cons_path ! i \<noteq> 0 then Inr (Value (- 2), s)
     else rbind (tload t s) (\<lambda>x.
       case proc_fd_alloc FD_CONSOLE_IN x of (fd, x) \<Rightarrow>
       rbind (tstore t (\<lambda>_. x) s) (\<lambda>s. Inr (Value (word_of_int fd), s)))))"

definition sys_fork :: "u64 \<Rightarrow> u64 \<Rightarrow> u64 \<Rightarrow> kern \<Rightarrow> (sys_result \<times> kern) res option" where
  "sys_fork stub t fr s =
     obind (do_fork stub t fr s) (\<lambda>(child, s).
     if child = 0 then Some (Inr (Value (- 12), s))
     else obind (Some (tload child s)) (\<lambda>x. Some (Inr (Value (t_pid x), s))))"

definition sys_execve :: "kimage \<Rightarrow> u64 \<Rightarrow> vaddr \<Rightarrow> fskern \<Rightarrow> (sys_result \<times> fskern) res option" where
  "sys_execve im t path s =
     obind (do_execve (launch_at im) (image_table im) (path_bytes im) t path s) (\<lambda>(r, s).
     Some (Inr (case r of Returns e \<Rightarrow> Value (word_of_int e) | Launches sp \<Rightarrow> Enters sp, s)))"

text \<open>A child has been found: its status is handed over and the child is marked dead.\<close>

definition reap_child :: "u64 \<Rightarrow> u64 \<Rightarrow> vaddr \<Rightarrow> kern \<Rightarrow> (sys_result \<times> kern) res" where
  "reap_child t z status_uptr s =
     rbind (tload z s) (\<lambda>y.
     rbind (if status_uptr \<noteq> 0 then uput64 (kcon s) status_uptr (scast (t_exit_status y)) (kvm s) else Inr (kvm s)) (\<lambda>v.
     rbind (tstore z (t_state_update (\<lambda>_. TASK_DEAD)) (set_kvm v s)) (\<lambda>s.
     rbind (tload t s) (\<lambda>x.
     Inr (Value (t_pid y), s\<lparr>kcon := kprintf (KLOG_INFO @ ''wait4: pid %u reaped %u (status %u)'' @ nl)
       [log32 (t_pid x), log32 (t_pid y), KNum (ucast (t_exit_status y))] (kcon s)\<rparr>)))))"

text \<open>The loop of \<^verbatim>\<open>wait4\<close>: it goes round again at once when \<^verbatim>\<open>schedule\<close> found nothing else to run.\<close>

partial_function (option) sys_wait4 :: "u64 \<Rightarrow> u64 \<Rightarrow> vaddr \<Rightarrow> kern \<Rightarrow> (sys_result \<times> kern) res option" where
  "sys_wait4 t want status_uptr s =
     (case tload t s of
        Inl e \<Rightarrow> Some (Inl e)
      | Inr x \<Rightarrow>
        case task_find_zombie (t_pid x) want s of
          None \<Rightarrow> None
        | Some (Inl e) \<Rightarrow> Some (Inl e)
        | Some (Inr z) \<Rightarrow>
          if z \<noteq> 0 then Some (reap_child t z status_uptr s)
          else case task_block_any s of
            Inl e \<Rightarrow> Some (Inl e)
          | Inr (None, s) \<Rightarrow> sys_wait4 t want status_uptr s
          | Inr (Some (c, n), s) \<Rightarrow> Some (Inr (Waits c n, s)))"

text \<open>What happens when the task that waits is switched back in.\<close>

definition wait4_resume :: "u64 \<Rightarrow> u64 \<Rightarrow> vaddr \<Rightarrow> kern \<Rightarrow> (sys_result \<times> kern) res option" where
  "wait4_resume t want status_uptr s = obind (Some (schedule_resume s)) (sys_wait4 t want status_uptr)"

section \<open>The dispatcher\<close>

definition on_kern :: "(kern \<Rightarrow> (sys_result \<times> kern) res option) \<Rightarrow> sysk \<Rightarrow> (sys_result \<times> sysk) res option" where
  "on_kern f s = obind (f (sk s)) (\<lambda>(r, k). Some (Inr (r, set_sk k s)))"

text \<open>\<open>fr\<close> is the address of the frame on the kernel stack of the caller.\<close>

definition syscall_dispatch :: "kimage \<Rightarrow> u64 \<Rightarrow> sysk \<Rightarrow> (sys_result \<times> sysk) res option" where
  "syscall_dispatch im fr s =
     (let t = task_current (sk s);
          r = f_regs (load_frame (hmem (kh (sk s))) fr);
          nr = r RAX in
      if nr = SYS_exit then on_kern (sys_exit t (r RDI)) s
      else if nr = SYS_write then on_kern (\<lambda>k. Some (sys_write t (arg_int (r RDI)) (r RSI) (r RDX) k)) s
      else if nr = SYS_getpid then obind (Some (tload t (sk s))) (\<lambda>x. Some (Inr (Value (t_pid x), s)))
      else if nr = SYS_read then
        obind (Some (sys_read t (arg_int (r RDI)) (r RSI) (r RDX) (sk s, stty s))) (\<lambda>(v, k, y).
          Some (Inr (v, (set_sk k s)\<lparr>stty := y\<rparr>)))
      else if nr = SYS_close then on_kern (\<lambda>k. Some (sys_close t (arg_int (r RDI)) k)) s
      else if nr = SYS_open then on_kern (\<lambda>k. Some (sys_open t (r RDI) k)) s
      else if nr = SYS_fork then on_kern (sys_fork (fork_stub_at im) t fr) s
      else if nr = SYS_execve then
        obind (sys_execve im t (r RDI) (sfs s)) (\<lambda>(v, f). Some (Inr (v, s\<lparr>sfs := f\<rparr>)))
      else if nr = SYS_wait4 then on_kern (sys_wait4 t (r RDI) (r RSI)) s
      else if nr = SYS_yield then Some (Inr (Value 0, set_sk (task_yield (sk s)) s))
      else Some (Inr (Value (- 38), s)))"

section \<open>Storing in a page of the user\<close>

lemma store_in_page:
  assumes fr: "user_frame v va p" and p: "p \<notin> space_tables (mem v) (cr3 v)" and va: "va AND mask 12 = 0"
  shows "off + n \<le> 4096 \<Longrightarrow> \<exists>f. for_res (\<lambda>k. uput con (va + of_nat off + of_nat k) (g k)) [0..<n] v = Inr (v\<lparr>mem := (mem v)(p := f)\<rparr>) \<and>
    (\<forall>j. frame_byte f j = (if off \<le> j \<and> j < off + n then g (j - off) else frame_byte (mem v p) j))"
proof (induction n)
  case (Suc n)
  then have "off + n \<le> 4096" by simp
  from Suc.IH [OF this] obtain f where f: "for_res (\<lambda>k. uput con (va + of_nat off + of_nat k) (g k)) [0..<n] v = Inr (v\<lparr>mem := (mem v)(p := f)\<rparr>)"
    "\<forall>j. frame_byte f j = (if off \<le> j \<and> j < off + n then g (j - off) else frame_byte (mem v p) j)" by blast
  let ?v = "v\<lparr>mem := (mem v)(p := f)\<rparr>"
  have "user_frame ?v va p" using frame_write(3) [OF p refl] fr by simp
  from user_access(2) [OF this va, of "off + n" "g n"] Suc.prems
  have "uput con (va + of_nat off + of_nat n) (g n) ?v = Inr (v\<lparr>mem := (mem v)(p := set_frame_byte (off + n) (g n) f)\<rparr>)"
    by (simp add: uput_def add.assoc)
  then have "for_res (\<lambda>k. uput con (va + of_nat off + of_nat k) (g k)) [0..<Suc n] v = Inr (v\<lparr>mem := (mem v)(p := set_frame_byte (off + n) (g n) f)\<rparr>)"
    using f(1) by (simp add: for_res_append)
  moreover have "\<forall>j. frame_byte (set_frame_byte (off + n) (g n) f) j =
      (if off \<le> j \<and> j < off + Suc n then g (j - off) else frame_byte (mem v p) j)"
    using f(2) by (auto simp: frame_byte_set)
  ultimately show ?case by blast
next
  case 0
  have "v = v\<lparr>mem := (mem v)(p := mem v p)\<rparr>" by simp
  then show ?case by (intro exI [of _ "mem v p"]) auto
qed

lemma uput64_in_page:
  assumes "user_frame v va p" "p \<notin> space_tables (mem v) (cr3 v)" "va AND mask 12 = 0" "off + 8 \<le> 4096"
  shows "\<exists>f. uput64 con (va + of_nat off) w v = Inr (v\<lparr>mem := (mem v)(p := f)\<rparr>) \<and>
    (\<forall>k < 8. uget (va + of_nat off + of_nat k) (v\<lparr>mem := (mem v)(p := f)\<rparr>) = Inr (ucast (drop_bit (8 * k) w)))"
proof -
  from store_in_page [OF assms(1-4), of con "\<lambda>k. ucast (drop_bit (8 * k) w)"] obtain f where
    f: "uput64 con (va + of_nat off) w v = Inr (v\<lparr>mem := (mem v)(p := f)\<rparr>)"
      "\<And>k. k < 8 \<Longrightarrow> frame_byte f (off + k) = ucast (drop_bit (8 * k) w)"
    by (auto simp: uput64_def)
  have "user_frame (v\<lparr>mem := (mem v)(p := f)\<rparr>) va p" using frame_write(3) [OF assms(2) refl] assms(1) by simp
  from user_access(1) [OF this assms(3)] have "uget (va + of_nat off + of_nat k) (v\<lparr>mem := (mem v)(p := f)\<rparr>) = Inr (frame_byte f (off + k))"
    if "k < 8" for k using that assms(4) by (simp add: add.assoc flip: of_nat_add)
  then show ?thesis using f by auto
qed

section \<open>What the scheduler leaves alone\<close>

lemma tstore_kh: "tstore p f s = Inr s' \<Longrightarrow> kh s' = kh s"
  by (auto simp: tstore_def rbind_eq_Inr)

lemma sched_enqueue_kh: "sched_enqueue t s = Inr s' \<Longrightarrow> kh s' = kh s"
  by (auto simp: sched_enqueue_def rbind_eq_Inr dest!: tstore_kh split: if_splits)

lemma dequeue_kh: "dequeue s = Inr (t, s') \<Longrightarrow> kh s' = kh s"
  by (auto simp: dequeue_def Let_def rbind_eq_Inr dest!: tstore_kh split: if_splits)

lemma kh_switch_space: "kh s' = kh s \<Longrightarrow> kh (switch_space n (tss_set_rsp0 r s')) = kh (switch_space n s)"
  by (simp add: switch_space_def tss_set_rsp0_def Let_def)

lemma tasks_switch_space: "tasks (switch_space n (tss_set_rsp0 r s)) = tasks s"
  by (simp add: switch_space_def tss_set_rsp0_def Let_def)

lemma schedule_kh:
  assumes "zombie s = 0" "schedule s = Inr (sw, s')"
  shows "case sw of None \<Rightarrow> kh s' = kh s | Some (c, x) \<Rightarrow> \<exists>n. tasks s' x = Some n \<and> kh s' = kh (switch_space n s)"
  using assms
  by (auto simp: schedule_def reap_zombie_def Let_def rbind_eq_Inr task_set_current_def tload_def kh_switch_space tasks_switch_space
      dest!: tstore_kh sched_enqueue_kh dequeue_kh split: if_splits option.splits)

text \<open>
  A task without its link and its state; what a stretch of scheduling keeps, when only the tasks in
  \<open>A\<close> change places; and that the space of the running user task is the one that is loaded.
\<close>

definition tid :: "kern \<Rightarrow> u64 \<Rightarrow> task option" where
  "tid s q = map_option (t_state_update (\<lambda>_. 0)) (tcore s q)"

definition passes :: "u64 set \<Rightarrow> kern \<Rightarrow> kern \<Rightarrow> bool" where
  "passes A s s' \<longleftrightarrow> tid s' = tid s \<and> (\<forall>q. q \<notin> A \<longrightarrow> tasks s' q = tasks s q) \<and> all_tasks s' = all_tasks s \<and>
     hmem (kh s') = hmem (kh s) \<and> mem (kvm s') = mem (kvm s) \<and> pm (kvm s') = pm (kvm s) \<and> kernel_cr3 (kvm s') = kernel_cr3 (kvm s)"

definition space_loaded :: "kern \<Rightarrow> bool" where
  "space_loaded s \<longleftrightarrow> (\<forall>x. tasks s (current s) = Some x \<and> t_cr3 x \<noteq> 0 \<and> t_cr3 x \<noteq> kernel_cr3 (kvm s) \<longrightarrow> cr3 (kvm s) = t_cr3 x)"

lemma passes_refl: "passes A s s"
  by (simp add: passes_def)

lemma passes_trans: "passes A s t \<Longrightarrow> passes A t u \<Longrightarrow> passes A s u"
  by (simp add: passes_def)

lemma tid_state_change: "tcore s' = (tcore s)(c := map_option (t_state_update (\<lambda>_. v)) (tcore s c)) \<Longrightarrow> tid s' = tid s"
  by (rule ext) (auto simp: tid_def option.map_comp comp_def)

lemma switched_space:
  assumes "kh s' = kh (switch_space n s)" "tasks s' (current s') = Some n"
  shows "hmem (kh s') = hmem (kh s)" "mem (kvm s') = mem (kvm s)" "pm (kvm s') = pm (kvm s)" "kernel_cr3 (kvm s') = kernel_cr3 (kvm s)" "space_loaded s'"
  using assms by (auto simp: space_loaded_def kvm_def switch_space_def vmm_switch_def load_cr3_def Let_def)

lemma schedule_passes:
  assumes wf: "sched_wf idle xs ys s" and r: "schedule s = Inr (sw, s')"
  shows "passes (set (current s # xs)) s s'" "space_loaded s \<Longrightarrow> space_loaded s'"
proof -
  obtain p where p: "tasks s (current s) = Some p" "t_state p = TASK_RUNNING" using wf by (auto simp: sched_wf_def tstate_def)
  have z: "zombie s = 0" using wf by (simp add: sched_wf_def)
  have "passes (set (current s # xs)) s s' \<and> (space_loaded s \<longrightarrow> space_loaded s')"
  proof (cases xs)
    case Nil
    then have "schedule s = Inr (None, s)"
      using schedule_alone [of s "current s" p] wf p by (simp add: sched_wf_def task_states)
    then show ?thesis using r passes_refl by simp
  next
    case (Cons x zs)
    have "rq_rel s (x # zs)" "current s \<noteq> 0" "current s \<notin> set (x # zs)" using wf Cons by (simp_all add: sched_wf_def)
    from schedule_running [OF this(1) z refl this(2) p(1) this(3) p(2)] r have s': "sw = Some (current s, x)" "after_switch x s s'"
      "\<forall>q. q \<notin> set (current s # x # zs) \<longrightarrow> tasks s' q = tasks s q"
      "tcore s' = (tcore s)(current s := map_option (t_state_update (\<lambda>_. TASK_READY)) (tcore s (current s)),
        x := map_option (t_state_update (\<lambda>_. TASK_RUNNING)) (tcore s x))" by auto
    obtain n where n: "tasks s' x = Some n" "kh s' = kh (switch_space n s)" using schedule_kh [OF z r] s'(1) by auto
    have "tid s' = tid s" by (rule ext) (auto simp: tid_def s'(4) option.map_comp comp_def)
    moreover have "current s' = x" "all_tasks s' = all_tasks s" using s'(2) by (simp_all add: after_switch_def)
    ultimately show ?thesis using switched_space [OF n(2)] n(1) s'(3) Cons by (simp add: passes_def)
  qed
  then show "passes (set (current s # xs)) s s'" "space_loaded s \<Longrightarrow> space_loaded s'" by blast+
qed

lemma passes_fields:
  assumes "tasks s' = tasks s" "all_tasks s' = all_tasks s" "kh s' = kh s"
  shows "passes A s s'"
  using assms by (auto simp: passes_def tid_def tcore_def kvm_def)

lemma tick_passes:
  assumes wf: "sched_wf idle xs ys s"
  shows "\<exists>sw s' xs'. sched_tick s = Inr (sw, s') \<and> sched_wf idle xs' ys s' \<and> set (current s' # xs') = set (current s # xs) \<and>
    passes (set (current s # xs)) s s' \<and> (space_loaded s \<longrightarrow> space_loaded s') \<and>
    \<not> need_resched s' \<and> (ticks_since_switch s' = 0 \<or> ticks_since_switch s' = 1)"
proof (cases "\<not> need_resched s \<and> ticks_since_switch s + 1 < TIME_SLICE")
  case True
  let ?s = "s\<lparr>ticks_since_switch := ticks_since_switch s + 1\<rparr>"
  have "ticks_since_switch s + 1 < 2" using True by (simp add: TIME_SLICE_def)
  then have "unat (ticks_since_switch s + 1) < 2" by (simp add: word_less_nat_alt)
  then have "unat (ticks_since_switch s + 1) = 0 \<or> unat (ticks_since_switch s + 1) = 1" by linarith
  then have "ticks_since_switch s + 1 = 0 \<or> ticks_since_switch s + 1 = 1" by (simp add: word_unat_eq_iff)
  moreover have "sched_tick s = Inr (None, ?s)" using True by (simp add: sched_tick_def Let_def)
  moreover have "sched_wf idle xs ys ?s" using wf by (subst sched_wf_cong [where s = s]) simp_all
  moreover have "passes (set (current s # xs)) s ?s" by (rule passes_fields) simp_all
  moreover have "space_loaded s \<longrightarrow> space_loaded ?s" by (simp add: space_loaded_def kvm_def)
  ultimately show ?thesis using True by (intro exI [of _ None] exI [of _ ?s] exI [of _ xs]) simp
next
  case False
  let ?s = "s\<lparr>need_resched := False, ticks_since_switch := 0\<rparr>"
  have t: "sched_tick s = schedule ?s" using False by (auto simp: sched_tick_def Let_def)
  have wf2: "sched_wf idle xs ys ?s" using wf by (subst sched_wf_cong [where s = s]) simp_all
  obtain sw s' xs' where s': "schedule ?s = Inr (sw, s')" "sched_wf idle xs' ys s'" "current s' # xs' = rotate1 (current ?s # xs)"
    using schedule_preserves [OF wf2] by blast
  have "set (current s' # xs') = set (current s # xs)" unfolding s'(3) by simp
  moreover have "passes (set (current s # xs)) s s'"
    using passes_trans [OF passes_fields [of ?s s] schedule_passes(1) [OF wf2 s'(1), simplified]] by simp
  moreover have "space_loaded s \<longrightarrow> space_loaded s'"
    using schedule_passes(2) [OF wf2 s'(1)] by (simp add: space_loaded_def kvm_def)
  ultimately show ?thesis using t s' schedule_flags [OF wf2 s'(1)] by (intro exI [of _ sw] exI [of _ s'] exI [of _ xs']) simp
qed

lemma ticks_pass:
  assumes "sched_wf idle xs ys s"
  shows "\<exists>s' xs'. sched_ticks n s = Inr s' \<and> sched_wf idle xs' ys s' \<and> set (current s' # xs') = set (current s # xs) \<and>
    passes (set (current s # xs)) s s' \<and> (space_loaded s \<longrightarrow> space_loaded s')"
  using assms
proof (induction n arbitrary: s xs)
  case (Suc n)
  from tick_passes [OF Suc.prems] obtain sw t zs where t: "sched_tick s = Inr (sw, t)" "sched_wf idle zs ys t"
    "set (current t # zs) = set (current s # xs)" "passes (set (current s # xs)) s t" "space_loaded s \<longrightarrow> space_loaded t" by blast
  from Suc.IH [OF t(2)] obtain s' xs' where s': "sched_ticks n t = Inr s'" "sched_wf idle xs' ys s'"
    "set (current s' # xs') = set (current s # xs)" "passes (set (current s # xs)) t s'" "space_loaded t \<longrightarrow> space_loaded s'"
    unfolding t(3) by blast
  have "sched_ticks (Suc n) s = Inr s'" using t(1) s'(1) by simp
  then show ?case using s'(2,3) passes_trans [OF t(4) s'(4)] t(5) s'(5) by blast
qed (use passes_refl in auto)

text \<open>Whatever the tick counter says, every task of the run queue is reached.\<close>

lemma ticks_reach:
  assumes wf: "sched_wf idle xs ys s" and q: "q \<in> set (current s # xs)"
  shows "\<exists>n s' xs'. sched_ticks n s = Inr s' \<and> current s' = q \<and> sched_wf idle xs' ys s' \<and> set (current s' # xs') = set (current s # xs) \<and>
    passes (set (current s # xs)) s s' \<and> (space_loaded s \<longrightarrow> space_loaded s')"
proof -
  from tick_passes [OF wf] obtain sw t zs where t: "sched_tick s = Inr (sw, t)" "sched_wf idle zs ys t"
    "set (current t # zs) = set (current s # xs)" "\<not> need_resched t" "ticks_since_switch t = 0 \<or> ticks_since_switch t = 1" by blast
  have "\<exists>m u ws. sched_ticks m s = Inr u \<and> sched_wf idle ws ys u \<and> set (current u # ws) = set (current s # xs) \<and>
      \<not> need_resched u \<and> ticks_since_switch u = 0"
  proof (cases "ticks_since_switch t = 0")
    case True
    have "sched_ticks 1 s = Inr t" using t(1) by simp
    then show ?thesis using t True by blast
  next
    case False
    then have one: "ticks_since_switch t = 1" using t(5) by simp
    let ?t = "t\<lparr>need_resched := False, ticks_since_switch := 0\<rparr>"
    have wf2: "sched_wf idle zs ys ?t" using t(2) by (subst sched_wf_cong [where s = t]) simp_all
    from schedule_preserves [OF wf2] obtain sw' u ws where u: "schedule ?t = Inr (sw', u)" "sched_wf idle ws ys u"
      "current u # ws = rotate1 (current ?t # zs)" by blast
    have "sched_tick t = Inr (sw', u)" using u(1) t(4) one by (simp add: sched_tick_def TIME_SLICE_def Let_def)
    then have "sched_ticks 2 s = Inr u" using t(1) by (simp add: numeral_2_eq_2)
    moreover have "set (current u # ws) = set (current s # xs)" using t(3) unfolding u(3) by simp
    ultimately show ?thesis using u(2) schedule_flags [OF wf2 u(1)] by auto
  qed
  then obtain m u ws where u: "sched_ticks m s = Inr u" "sched_wf idle ws ys u" "set (current u # ws) = set (current s # xs)"
    "\<not> need_resched u" "ticks_since_switch u = 0" by blast
  obtain i where i: "i < length (current u # ws)" "(current u # ws) ! i = q" using q u(3) by (metis in_set_conv_nth)
  from ticks_rotate [OF u(2,4,5), of i] obtain s' xs' where s': "sched_ticks (2 * i) u = Inr s'" "sched_wf idle xs' ys s'"
    "current s' # xs' = rotate i (current u # ws)" by blast
  have "current s' = hd (rotate i (current u # ws))" using s'(3) by (metis list.sel(1))
  then have "current s' = q" using i by (simp add: hd_rotate_conv_nth del: rotate_Suc)
  moreover have "sched_ticks (m + 2 * i) s = Inr s'" using u(1) s'(1) by (simp add: sched_ticks_add)
  ultimately show ?thesis using ticks_pass [OF wf, of "m + 2 * i"] by auto
qed

section \<open>Exit and wait\<close>

lemma find_unique:
  "c \<in> set us \<Longrightarrow> P c \<Longrightarrow> (\<And>u. u \<in> set us \<Longrightarrow> u \<noteq> c \<Longrightarrow> \<not> P u) \<Longrightarrow> List.find P us = Some c"
  by (induction us) auto

lemma queued_no_zombie: "sched_wf idle xs ys s \<Longrightarrow> u \<in> set (current s # xs @ ys) \<Longrightarrow> \<not> zombie_of a b (tasks s) u"
  by (auto simp: sched_wf_def tstate_def zombie_of_def task_states)

text \<open>The registry is linked through fields that scheduling does not touch.\<close>

lemma aseg_tid:
  assumes "\<And>u. u \<in> set us \<Longrightarrow> tid s' u = tid s u"
  shows "aseg (tasks s) p us q \<Longrightarrow> aseg (tasks s') p us q"
  using assms
proof (induction us arbitrary: p)
  case (Cons u us)
  then obtain t where t: "p = u" "u \<noteq> 0" "tasks s u = Some t" "aseg (tasks s) (t_next_all t) us q" by auto
  have "tid s' u = tid s u" using Cons.prems by simp
  then obtain t' where t': "tasks s' u = Some t'" "t_next_all t' = t_next_all t"
    using t(3) by (auto simp: tid_def tcore_def dest: arg_cong [where f = t_next_all])
  then show ?case using Cons t by auto
qed simp

lemma tid_fields:
  assumes "tid s' q = tid s q" "tasks s q = Some x"
  shows "\<exists>x'. tasks s' q = Some x' \<and> t_pid x' = t_pid x \<and> t_ppid x' = t_ppid x \<and> t_cr3 x' = t_cr3 x \<and> t_exit_status x' = t_exit_status x"
proof -
  obtain x' where x': "tasks s' q = Some x'" and e: "x'\<lparr>t_next := 0, t_state := 0\<rparr> = x\<lparr>t_next := 0, t_state := 0\<rparr>"
    using assms by (auto simp: tid_def tcore_def)
  show ?thesis using x' arg_cong [OF e, of t_pid] arg_cong [OF e, of t_ppid] arg_cong [OF e, of t_cr3] arg_cong [OF e, of t_exit_status] by simp
qed

text \<open>Ending a task: who runs next, and what is kept of everybody else.\<close>

lemma exit_passes:
  assumes wf: "sched_wf idle xs ys s" and ni: "current s \<noteq> idle" and p: "tasks s (current s) = Some p"
    and f: "t_state (f p) = TASK_ZOMBIE"
  defines "s1 \<equiv> s\<lparr>tasks := (tasks s)(current s \<mapsto> f p)\<rparr>"
  shows "\<exists>s2 s' x zs. task_wakeup_children a b s1 = Some (Inr s2) \<and>
    xs @ filter (child_match a b s) ys = x # zs \<and> schedule s2 = Inr (Some (current s, x), s') \<and> current s' = x \<and>
    sched_wf idle zs (filter (\<lambda>v. \<not> child_match a b s v) ys) s' \<and> tasks s' (current s) = Some (f p) \<and>
    passes (set (xs @ ys)) s1 s' \<and> space_loaded s'"
proof -
  let ?c = "current s"
  from exit_switches [OF wf ni p, where f = f, OF f, of a b, folded s1_def] obtain s2 s' x zs where
    w: "task_wakeup_children a b s1 = Some (Inr s2)" and xz: "xs @ filter (child_match a b s) ys = x # zs"
    and r: "schedule s2 = Inr (Some (?c, x), s')" and s': "current s' = x"
      "sched_wf idle zs (filter (\<lambda>v. \<not> child_match a b s v) ys) s'" "tasks s' ?c = Some (f p)" "all_tasks s' = all_tasks s" by blast
  have c: "?c \<noteq> 0" "?c \<notin> set xs" "?c \<notin> set ys" "zombie s = 0" "distinct (xs @ [] @ ys)" using wf by (auto simp: sched_wf_def)
  have q1: "rq_rel s1 xs" using wf c by (auto simp: s1_def sched_wf_def rq_rel_def tseg_other)
  have b1: "tseg (tasks s1) (blocked_list s1) ([] @ ys) 0" using wf c by (auto simp: s1_def sched_wf_def tseg_other)
  have m: "filter (child_match a b s1) ys = filter (child_match a b s) ys"
    using c(3) by (intro filter_cong) (auto simp: child_match_def tcore_def s1_def)
  from wakeup_children_scan [OF q1 b1 c(5), of a b] w have s2: "rq_rel s2 (x # zs)"
    "\<forall>q. tcore s2 q = (if q \<in> set ys \<and> child_match a b s1 q then ready (tcore s1 q) else tcore s1 q)"
    "wake_frame (set (xs @ ys)) s1 s2"
    unfolding m xz by (auto simp: task_wakeup_children_def slot_after_def)
  have c2: "tasks s2 ?c = Some (f p)" "current s2 = ?c" "zombie s2 = 0" "kh s2 = kh s1" "all_tasks s2 = all_tasks s1"
    using s2(3) c by (auto simp: wake_frame_def s1_def)
  have sub: "set (x # zs) \<subseteq> set (xs @ ys)" unfolding xz [symmetric] by auto
  have "?c \<notin> set (x # zs)" "t_state (f p) \<noteq> TASK_RUNNING" "t_state (f p) \<noteq> TASK_DEAD" using sub c f by (auto simp: task_states)
  from schedule_leave [OF s2(1) c2(3,2) c(1) c2(1) this] r have l: "\<forall>q. q \<noteq> x \<longrightarrow> tasks s' q = tasks s2 q"
    "tcore s' = (tcore s2)(x := map_option (t_state_update (\<lambda>_. TASK_RUNNING)) (tcore s2 x))" by auto
  obtain n where n: "tasks s' x = Some n" "kh s' = kh (switch_space n s2)" using schedule_kh [OF c2(3) r] by auto
  have "tid s2 = tid s1" by (rule ext) (simp add: tid_def s2(2) ready_def option.map_comp comp_def)
  then have "tid s' = tid s1" using tid_state_change [OF l(2)] by simp
  moreover have "tasks s' q = tasks s1 q" if "q \<notin> set (xs @ ys)" for q
    using that l(1) s2(3) sub by (auto simp: wake_frame_def)
  moreover have "all_tasks s' = all_tasks s1" using s'(4) by (simp add: s1_def)
  ultimately have "passes (set (xs @ ys)) s1 s'" "space_loaded s'"
    using switched_space [OF n(2)] n(1) s'(1) c2(4) by (simp_all add: passes_def kvm_def)
  then show ?thesis using w xz r s' by blast
qed

lemma aseg_live: "aseg ts p us q \<Longrightarrow> u \<in> set us \<Longrightarrow> u \<noteq> 0 \<and> ts u \<noteq> None"
  by (induction us arbitrary: p) auto

lemma wait4_reaps:
  assumes reg: "aseg (tasks s) (all_tasks s) us 0" and z: "List.find (zombie_of (t_pid x) want (tasks s)) us = Some z"
    and q: "tasks s q = Some x" "q \<noteq> 0" and y: "tasks s z = Some y" "z \<noteq> q"
    and fr: "user_frame (kvm s) va pg" "pg \<notin> space_tables (mem (kvm s)) (cr3 (kvm s))" "va AND mask 12 = 0" "off + 8 \<le> 4096"
      "va + of_nat off \<noteq> 0"
  shows "\<exists>s'. sys_wait4 q want (va + of_nat off) s = Some (Inr (Value (t_pid y), s')) \<and>
    tasks s' = (tasks s)(z \<mapsto> y\<lparr>t_state := TASK_DEAD\<rparr>) \<and>
    (\<forall>k < 8. uget (va + of_nat off + of_nat k) (kvm s') = Inr (ucast (drop_bit (8 * k) (scast (t_exit_status y) :: u64))))"
proof -
  have "z \<in> set us" using z by (metis find_Some_iff nth_mem)
  then have z0: "z \<noteq> 0" using aseg_live [OF reg] by blast
  from uput64_in_page [OF fr(1-4), of "kcon s" "scast (t_exit_status y)"] obtain f where
    f: "uput64 (kcon s) (va + of_nat off) (scast (t_exit_status y)) (kvm s) = Inr ((kvm s)\<lparr>mem := (mem (kvm s))(pg := f)\<rparr>)"
      "\<forall>k < 8. uget (va + of_nat off + of_nat k) ((kvm s)\<lparr>mem := (mem (kvm s))(pg := f)\<rparr>) =
        Inr (ucast (drop_bit (8 * k) (scast (t_exit_status y) :: u64)))" by blast
  let ?v = "(kvm s)\<lparr>mem := (mem (kvm s))(pg := f)\<rparr>"
  have "sys_wait4 q want (va + of_nat off) s = Some (reap_child q z (va + of_nat off) s)"
    using q z0 z task_find_zombie_correct [OF reg, of "t_pid x" want] by (subst sys_wait4.simps) (simp add: task_access)
  then show ?thesis using f z0 q y fr(5) by (auto simp: reap_child_def task_access set_kvm_def kvm_def)
qed

lemma aseg_upd:
  "aseg ts p us q \<Longrightarrow> ts c = Some x \<Longrightarrow> t_next_all x' = t_next_all x \<Longrightarrow> aseg (ts(c \<mapsto> x')) p us q"
  by (induction us arbitrary: p) auto

lemma passes_mono: "passes A s t \<Longrightarrow> A \<subseteq> B \<Longrightarrow> passes B s t"
  by (auto simp: passes_def)

text \<open>From the exit of the running task to the moment a task that waits for it runs.\<close>

lemma exit_reaches_waiter:
  assumes wf: "sched_wf idle xs ys s" and c: "current s \<noteq> idle" "tasks s (current s) = Some p"
    and q: "q \<in> set ys" "child_match (t_pid p) (t_ppid p) s q"
  obtains n s1 m s2 ws vs where "sys_exit (current s) status s = Some (Inr (Exits (current s) n, s1))"
    and "sched_ticks m s1 = Inr s2" "current s2 = q" "sched_wf idle ws vs s2" "set (q # ws @ vs) = set (xs @ ys)"
    and "passes (set (xs @ ys)) (s\<lparr>tasks := (tasks s)(current s \<mapsto> p\<lparr>t_exit_status := ucast status, t_state := TASK_ZOMBIE\<rparr>)\<rparr>) s2"
    and "space_loaded s2"
proof -
  let ?c = "current s" and ?f = "\<lambda>x. x\<lparr>t_exit_status := ucast status, t_state := TASK_ZOMBIE\<rparr>"
  define con where "con = kprintf (KLOG_INFO @ ''pid %u exited with %u'' @ nl) [log32 (t_pid p), log32 status] (kcon s)"
  let ?s = "s\<lparr>kcon := con\<rparr>" and ?m = "child_match (t_pid p) (t_ppid p) s"
  let ?s1 = "?s\<lparr>tasks := (tasks s)(?c \<mapsto> ?f p)\<rparr>" and ?vs = "filter (\<lambda>v. \<not> ?m v) ys"
  have wf2: "sched_wf idle xs ys ?s" using wf by (subst sched_wf_cong [where s = s]) simp_all
  have mm: "child_match (t_pid p) (t_ppid p) ?s = ?m" by (rule ext) (simp add: child_match_def tcore_def)
  from exit_passes [OF wf2, of p ?f "t_pid p" "t_ppid p"] c mm obtain s2 s' n zs where
    w: "task_wakeup_children (t_pid p) (t_ppid p) ?s1 = Some (Inr s2)" and nz: "xs @ filter ?m ys = n # zs"
    and r: "schedule s2 = Inr (Some (?c, n), s')" and s': "current s' = n" "sched_wf idle zs ?vs s'"
      "passes (set (xs @ ys)) ?s1 s'" "space_loaded s'" by auto
  have "?c \<noteq> 0" using wf by (auto simp: sched_wf_def)
  then have ex: "sys_exit ?c status s = Some (Inr (Exits ?c n, s'))"
    using c(2) w r by (simp add: sys_exit_def task_access con_def)
  have set: "set (current s' # zs) = set xs \<union> {v \<in> set ys. ?m v}" unfolding s'(1) nz [symmetric] by auto
  then have "q \<in> set (current s' # zs)" using q by blast
  from ticks_reach [OF s'(2) this] s'(4) obtain m s2 ws where t: "sched_ticks m s' = Inr s2" "current s2 = q"
    "sched_wf idle ws ?vs s2" "set (current s2 # ws) = set (current s' # zs)" "passes (set (current s' # zs)) s' s2" "space_loaded s2" by blast
  have "set (current s' # zs) \<subseteq> set (xs @ ys)" using set by auto
  from passes_trans [OF s'(3) passes_mono [OF t(5) this]] have "passes (set (xs @ ys)) ?s1 s2" .
  moreover have "passes (set (xs @ ys)) (s\<lparr>tasks := (tasks s)(?c \<mapsto> ?f p)\<rparr>) ?s1" by (rule passes_fields) simp_all
  ultimately have "passes (set (xs @ ys)) (s\<lparr>tasks := (tasks s)(?c \<mapsto> ?f p)\<rparr>) s2" by (rule passes_trans [rotated])
  moreover have "set (q # ws @ ?vs) = set (xs @ ys)" using t(2,4) set by auto
  ultimately show ?thesis using that ex t(1-3,6) by blast
qed

text \<open>
  Claim C1. A parent that waits gets the exit status of its child. The running task \<open>c\<close> calls
  \<^verbatim>\<open>exit\<close>; its parent \<open>q\<close> is blocked in \<^verbatim>\<open>wait4\<close> (for any child, or for this one) and no other child of it
  is a zombie; its status pointer is in a writable page of its address space. Then the call leaves
  \<open>c\<close>, the timer alone brings \<open>q\<close> back to the processor, and the \<^verbatim>\<open>wait4\<close> it goes on with returns the
  pid of \<open>c\<close>, has stored the sign-extended 32-bit status at the pointer, and has marked \<open>c\<close> dead.
\<close>

theorem exit_status_delivered:
  assumes wf: "sched_wf idle xs ys s" and c: "current s \<noteq> idle" "tasks s (current s) = Some p"
    and q: "q \<in> set ys" "tasks s q = Some x" "t_pid x = t_ppid p" "t_block_on x = 0" "t_cr3 x \<noteq> 0" "t_cr3 x \<noteq> kernel_cr3 (kvm s)"
    and reg: "aseg (tasks s) (all_tasks s) us 0" "current s \<in> set us" and want: "want = - 1 \<or> want = t_pid p"
    and other: "\<forall>u \<in> set us. \<not> zombie_of (t_ppid p) want (tasks s) u"
    and fr: "user_frame ((kvm s)\<lparr>cr3 := t_cr3 x\<rparr>) va pg" "pg \<notin> space_tables (mem (kvm s)) (t_cr3 x)" "va AND mask 12 = 0"
      "off + 8 \<le> 4096" "va + of_nat off \<noteq> 0"
  shows "\<exists>n s1 m s2 s3. sys_exit (current s) status s = Some (Inr (Exits (current s) n, s1)) \<and>
    sched_ticks m s1 = Inr s2 \<and> current s2 = q \<and>
    wait4_resume q want (va + of_nat off) s2 = Some (Inr (Value (t_pid p), s3)) \<and>
    (\<forall>k < 8. uget (va + of_nat off + of_nat k) (kvm s3) = Inr (ucast (drop_bit (8 * k) (scast (ucast status :: u32) :: u64)))) \<and>
    tstate s3 (current s) = Some TASK_DEAD"
proof -
  let ?c = "current s" and ?f = "\<lambda>x. x\<lparr>t_exit_status := ucast status, t_state := TASK_ZOMBIE\<rparr>"
  let ?s1 = "s\<lparr>tasks := (tasks s)(?c \<mapsto> ?f p)\<rparr>"
  have "child_match (t_pid p) (t_ppid p) s q" using q by (simp add: child_match_live)
  from exit_reaches_waiter [OF wf c q(1) this, of status] obtain n s1 m s2 ws vs where
    ex: "sys_exit ?c status s = Some (Inr (Exits ?c n, s1))" and t: "sched_ticks m s1 = Inr s2" "current s2 = q" "sched_wf idle ws vs s2"
      "set (q # ws @ vs) = set (xs @ ys)" "passes (set (xs @ ys)) ?s1 s2" "space_loaded s2" by blast
  have c0: "?c \<notin> set (xs @ ys)" using wf by (auto simp: sched_wf_def)
  have k: "tid s2 = tid ?s1" "all_tasks s2 = all_tasks s" "mem (kvm s2) = mem (kvm s)" "kernel_cr3 (kvm s2) = kernel_cr3 (kvm s)"
    and keep: "\<And>u. u \<notin> set (xs @ ys) \<Longrightarrow> tasks s2 u = tasks ?s1 u"
    using t(5) by (simp_all add: passes_def kvm_def)
  have c2: "tasks s2 ?c = Some (?f p)" using keep [OF c0] by simp
  have qc: "q \<noteq> ?c" using q(1) c0 by auto
  then have "tid s2 q = tid s q" unfolding k(1) by (simp add: tid_def tcore_def)
  from tid_fields [OF this q(2)] obtain x2 where x2: "tasks s2 q = Some x2" "t_pid x2 = t_ppid p" "t_cr3 x2 = t_cr3 x" using q(3) by auto
  have "aseg (tasks ?s1) (all_tasks s) us 0" using aseg_upd [OF reg(1) c(2), of "?f p"] by simp
  then have reg2: "aseg (tasks s2) (all_tasks s2) us 0" using aseg_tid [of us s2 ?s1] k(1,2) by simp
  have "\<not> zombie_of (t_pid x2) want (tasks s2) u" if "u \<in> set us" "u \<noteq> ?c" for u
  proof (cases "u \<in> set (xs @ ys)")
    case True
    then show ?thesis using queued_no_zombie [OF t(3)] t(2,4) by blast
  next
    case False
    then show ?thesis using keep [OF False] other that x2(2) by (simp add: zombie_of_def)
  qed
  moreover have "zombie_of (t_pid x2) want (tasks s2) ?c" using c2 x2(2) want by (auto simp: zombie_of_def)
  ultimately have fd: "List.find (zombie_of (t_pid x2) want (tasks s2)) us = Some ?c" using find_unique [OF reg(2)] by blast
  have cr: "cr3 (kvm s2) = t_cr3 x" using t(2,6) x2 q(5,6) k(4) by (simp add: space_loaded_def)
  have "user_frame (kvm s2) va pg" using fr(1) k(3) cr by (simp add: user_frame_def)
  moreover have "pg \<notin> space_tables (mem (kvm s2)) (cr3 (kvm s2))" using fr(2) k(3) cr by simp
  moreover have "q \<noteq> 0" using t(2,3) by (auto simp: sched_wf_def)
  ultimately obtain s3 where s3: "sys_wait4 q want (va + of_nat off) s2 = Some (Inr (Value (t_pid p), s3))"
    "tasks s3 = (tasks s2)(?c \<mapsto> (?f p)\<lparr>t_state := TASK_DEAD\<rparr>)"
    "\<forall>k < 8. uget (va + of_nat off + of_nat k) (kvm s3) = Inr (ucast (drop_bit (8 * k) (scast (ucast status :: u32) :: u64)))"
    using wait4_reaps [OF reg2 fd x2(1) _ c2 qc [symmetric], of va pg off] fr(3-5) by auto
  have "schedule_resume s2 = Inr s2" using t(3) by (simp add: schedule_resume_def reap_zombie_def sched_wf_def)
  then have "wait4_resume q want (va + of_nat off) s2 = Some (Inr (Value (t_pid p), s3))" using s3(1) by (simp add: wait4_resume_def)
  moreover have "tstate s3 ?c = Some TASK_DEAD" using s3(2) by (simp add: tstate_def)
  ultimately show ?thesis using ex t(1,2) s3(3) by blast
qed

text \<open>Task 2 is running, its parent, task 3, waits for any child; task 1 is the idle one.\<close>

definition wait_example :: kern where
  "wait_example = sched_example\<lparr>kh := heap_example\<lparr>hvm := vmm_example\<lparr>kernel_cr3 := 0x1000\<rparr>\<rparr>,
     tasks := [4096 \<mapsto> zero_task\<lparr>t_state := TASK_READY, t_pid := 1\<rparr>,
       8192 \<mapsto> zero_task\<lparr>t_state := TASK_RUNNING, t_pid := 2, t_ppid := 3, t_next_all := 4096\<rparr>,
       12288 \<mapsto> zero_task\<lparr>t_state := TASK_BLOCKED, t_pid := 3, t_cr3 := 0x8000, t_next_all := 8192\<rparr>],
     current := 8192, runqueue_head := 4096, runqueue_tail := 4096\<rparr>"

lemma vmm_example_code_page:
  "user_frame vmm_example 0x400000 0xC000" "0xC000 \<notin> space_tables (mem vmm_example) 0x8000"
proof -
  have i: "va_path 0x400000 = [0, 0, 2, 0]" by (simp add: va_path_def PML4_IDX_def PDPT_IDX_def PD_IDX_def PT_IDX_def drop_bit_eq_div)
  have m: "mem vmm_example 0x8000 0 = 0x9007" "mem vmm_example 0x9000 0 = 0xA007" "mem vmm_example 0xA000 2 = 0xB007"
    "mem vmm_example 0xB000 0 = 0xC007" "cr3 vmm_example = 0x8000" by (simp_all add: vmm_example_def)
  show "user_frame vmm_example 0x400000 0xC000" by (simp add: user_frame_def i m uix_const)
  have "pml4 vmm_example = 0x8000" by (simp add: vmm_example_def)
  then show "0xC000 \<notin> space_tables (mem vmm_example) 0x8000"
    using vmm_example_tables by (fastforce simp: space_tables_def path_ok_def)
qed

theorem exit_status_delivered_witness:
  "\<exists>n s1 m s2 s3. sys_exit 8192 42 wait_example = Some (Inr (Exits 8192 n, s1)) \<and> sched_ticks m s1 = Inr s2 \<and> current s2 = 12288 \<and>
    wait4_resume 12288 (- 1) 0x400000 s2 = Some (Inr (Value 2, s3)) \<and> uget 0x400000 (kvm s3) = Inr 42 \<and>
    tstate s3 8192 = Some TASK_DEAD"
proof -
  have c: "current wait_example = 8192" by (simp add: wait_example_def)
  have wf: "sched_wf 4096 [4096] [12288] wait_example"
    by (simp add: sched_wf_def wait_example_def sched_example_def rq_rel_def tstate_def zero_task_def)
  have v: "mem (kvm wait_example) = mem vmm_example" "kernel_cr3 (kvm wait_example) = 0x1000"
    by (simp_all add: wait_example_def kvm_def)
  let ?p = "zero_task\<lparr>t_state := TASK_RUNNING, t_pid := 2, t_ppid := 3, t_next_all := 4096\<rparr>"
    and ?x = "zero_task\<lparr>t_state := TASK_BLOCKED, t_pid := 3, t_cr3 := 0x8000, t_next_all := 8192\<rparr>"
  have t: "tasks wait_example 8192 = Some ?p" "tasks wait_example 12288 = Some ?x" by (simp_all add: wait_example_def)
  have reg: "aseg (tasks wait_example) (all_tasks wait_example) [12288, 8192, 4096] 0"
    by (simp add: wait_example_def sched_example_def zero_task_def)
  have nz: "\<forall>u \<in> set [12288, 8192, 4096]. \<not> zombie_of 3 (- 1) (tasks wait_example) u"
    by (simp add: wait_example_def zombie_of_def task_states)
  have "cr3 vmm_example = 0x8000" by (simp add: vmm_example_def)
  then have fr: "user_frame ((kvm wait_example)\<lparr>cr3 := 0x8000\<rparr>) 0x400000 0xC000" using vmm_example_code_page(1) by (simp add: user_frame_def v)
  have "\<exists>n s1 m s2 s3. sys_exit (current wait_example) 42 wait_example = Some (Inr (Exits (current wait_example) n, s1)) \<and>
    sched_ticks m s1 = Inr s2 \<and> current s2 = 12288 \<and>
    wait4_resume 12288 (- 1) (0x400000 + of_nat 0) s2 = Some (Inr (Value (t_pid ?p), s3)) \<and>
    (\<forall>k < 8. uget (0x400000 + of_nat 0 + of_nat k) (kvm s3) = Inr (ucast (drop_bit (8 * k) (scast (ucast (42 :: u64) :: u32) :: u64)))) \<and>
    tstate s3 (current wait_example) = Some TASK_DEAD"
    by (rule exit_status_delivered [where pg = "0xC000", OF wf _ _ _ t(2) _ _ _ _ reg])
      (use c t(1) nz fr v vmm_example_code_page(2) in \<open>simp_all add: zero_task_def mask_eq_exp_minus_1\<close>)
  then obtain n s1 m s2 s3 where r: "sys_exit 8192 42 wait_example = Some (Inr (Exits 8192 n, s1))" "sched_ticks m s1 = Inr s2"
    "current s2 = 12288" "wait4_resume 12288 (- 1) 0x400000 s2 = Some (Inr (Value 2, s3))" "tstate s3 8192 = Some TASK_DEAD"
    and u: "\<forall>k < 8. uget (0x400000 + of_nat k) (kvm s3) = Inr (ucast (drop_bit (8 * k) (scast (ucast (42 :: u64) :: u32) :: u64)))"
    unfolding c by auto
  have "uget 0x400000 (kvm s3) = Inr 42" using u [rule_format, of 0] by simp
  then show ?thesis using r by blast
qed

section \<open>Reading and writing\<close>

lemma store_line_in_page:
  assumes "user_frame v va p" "p \<notin> space_tables (mem v) (cr3 v)" "va AND mask 12 = 0" "off + length w \<le> 4096"
  shows "\<exists>f. store_line con (va + of_nat off) w v = Inr (v\<lparr>mem := (mem v)(p := f)\<rparr>) \<and>
    (\<forall>k < length w. uget (va + of_nat off + of_nat k) (v\<lparr>mem := (mem v)(p := f)\<rparr>) = Inr (bytes_of w ! k))"
proof -
  from store_in_page [OF assms(1-4), of con "\<lambda>k. of_nat (of_char (w ! k))"] obtain f where
    f: "store_line con (va + of_nat off) w v = Inr (v\<lparr>mem := (mem v)(p := f)\<rparr>)"
      "\<And>k. k < length w \<Longrightarrow> frame_byte f (off + k) = of_nat (of_char (w ! k))"
    by (auto simp: store_line_def)
  have "user_frame (v\<lparr>mem := (mem v)(p := f)\<rparr>) va p" using frame_write(3) [OF assms(2) refl] assms(1) by simp
  from user_access(1) [OF this assms(3)] have "uget (va + of_nat off + of_nat k) (v\<lparr>mem := (mem v)(p := f)\<rparr>) = Inr (frame_byte f (off + k))"
    if "k < length w" for k using that assms(4) by (simp add: add.assoc flip: of_nat_add)
  then show ?thesis using f by (auto simp: bytes_of_def)
qed

lemma ucast_count: "m < 2 ^ 32 \<Longrightarrow> ucast (of_nat m :: u32) = (of_nat m :: u64)"
  by (simp add: word_unat_eq_iff unsigned_ucast_eq unat_of_nat take_bit_nat_eq_self)

text \<open>
  A line typed at the keyboard reaches the program. With an open console descriptor, an
  empty terminal, the characters \<open>w\<close> and Enter waiting in the keyboard ring (at most 32, what one
  poll takes), and a buffer that is large enough and lies in a writable page, \<^verbatim>\<open>read\<close> returns the length
  of the line, the buffer holds the line, a line feed and NUL, and the terminal is empty again.
\<close>

lemma read_delivers_line:
  assumes t: "tasks s t = Some x" "t \<noteq> 0" "proc_fd_type fd x = FD_CONSOLE_IN"
    and y: "tty_inv y" "tty_abs y = ([], False)" "kbd_rel (tkbd y) (w @ [c])" "list_all plain w" "c = CHR 0x0A \<or> c = CHR 0x0D"
    and l: "length w < 32" "length w + 1 < unat (ucast len :: u32)"
    and fr: "user_frame (kvm s) va pg" "pg \<notin> space_tables (mem (kvm s)) (cr3 (kvm s))" "va AND mask 12 = 0" "off + length w + 2 \<le> 4096"
  shows "\<exists>s' y'. sys_read t fd (va + of_nat off) len (s, y) = Inr (Value (of_nat (length w + 1)), s', y') \<and>
    (\<forall>k < length w + 2. uget (va + of_nat off + of_nat k) (kvm s') = Inr ((bytes_of w @ [10, 0]) ! k)) \<and>
    tty_abs y' = ([], False) \<and> kbd_rel (tkbd y') []"
proof -
  let ?l = "w @ [CHR 0x0A]"
  from tty_poll_edit [OF y(1,3), of "kcon s"] l(1) y(2) obtain y1 con where
    p: "tty_poll (y, kcon s) = Inr (y1, con)" "tty_inv y1" "tty_abs y1 = fold edit (w @ [c]) ([], False)" "kbd_rel (tkbd y1) []"
    by auto
  have "fold edit w ([], False) = (w, False)" using edit_plain [OF y(4), of "[]"] l(1) by simp
  then have a: "tty_abs y1 = (?l, True)" using p(3) y(5) l(1) by (auto simp: edit_def)
  have rd: "tty_readline (ucast len) y1 = ((of_nat (length ?l), ?l @ [CHR 0x00]), tty_init y1)"
    using tty_readline_ready [OF a p(2)] l(2) by simp
  have "off + length (?l @ [CHR 0x00]) \<le> 4096" using fr(4) by simp
  from store_line_in_page [OF fr(1-3) this, of con] obtain f where
    f: "store_line con (va + of_nat off) (?l @ [CHR 0x00]) (kvm s) = Inr ((kvm s)\<lparr>mem := (mem (kvm s))(pg := f)\<rparr>)"
      "\<forall>k < length w + 2. uget (va + of_nat off + of_nat k) ((kvm s)\<lparr>mem := (mem (kvm s))(pg := f)\<rparr>) = Inr (bytes_of (?l @ [CHR 0x00]) ! k)"
    by auto
  have b: "bytes_of (?l @ [CHR 0x00]) = bytes_of w @ [10, 0]" by (simp add: bytes_of_def)
  have n: "ucast (of_nat (length ?l) :: u32) = (of_nat (length w + 1) :: u64)" using ucast_count [of "length ?l"] l(1) by simp
  have "\<not> len < 1" using l(2) by (auto simp: word_less_1)
  then have "sys_read t fd (va + of_nat off) len (s, y) =
      Inr (Value (of_nat (length w + 1)), (set_kvm ((kvm s)\<lparr>mem := (mem (kvm s))(pg := f)\<rparr>) s)\<lparr>kcon := con\<rparr>, tty_init y1)"
    using t p(1) rd f(1) n by (simp add: sys_read_def task_access del: of_nat_add of_nat_Suc)
  moreover have "tty_abs (tty_init y1) = ([], False)" "tkbd (tty_init y1) = tkbd y1" by (simp_all add: tty_abs_def tty_init_def)
  ultimately show ?thesis using f(2) p(4) unfolding b by (auto simp: set_kvm_def kvm_def)
qed

lemma write_chars:
  "(\<And>j. j < length bs \<Longrightarrow> uget (buf + of_nat (i + j)) (kvm s) = Inr (bs ! j)) \<Longrightarrow>
   for_res (write_char buf) [i..<i + length bs] s = Inr (s\<lparr>kcon := console_write (map (\<lambda>b. char_of (unat b)) bs) (kcon s)\<rparr>)"
proof (induction bs arbitrary: i s)
  case (Cons b bs)
  let ?s = "s\<lparr>kcon := console_putc (char_of (unat b)) (kcon s)\<rparr>"
  have "uget (buf + of_nat i) (kvm s) = Inr b" using Cons.prems [of 0] by simp
  then have "write_char buf i s = Inr ?s" by (simp add: write_char_def)
  moreover have "for_res (write_char buf) [Suc i..<Suc i + length bs] ?s =
      Inr (?s\<lparr>kcon := console_write (map (\<lambda>b. char_of (unat b)) bs) (kcon ?s)\<rparr>)"
    by (rule Cons.IH) (use Cons.prems [of "Suc _"] in \<open>simp add: kvm_def\<close>)
  moreover have "[i..<i + length (b # bs)] = i # [Suc i..<Suc i + length bs]" by (subst upt_conv_Cons) simp_all
  ultimately show ?case by (simp add: console_write_def del: upt_Suc)
qed (simp add: console_write_def)

text \<open>
  Claim C1. \<^verbatim>\<open>write\<close> on a console descriptor prints exactly the bytes of the buffer, in order, and returns
  their number; nothing else of the kernel changes. On any other descriptor it returns \<^verbatim>\<open>-EBADF\<close> and
  changes nothing.
\<close>

theorem write_prints:
  assumes "tasks s t = Some x" "t \<noteq> 0" "\<forall>j < length bs. uget (buf + of_nat j) (kvm s) = Inr (bs ! j)" "unat len = length bs"
  shows "sys_write t fd buf len s = (if proc_fd_type fd x = FD_CONSOLE_OUT
    then Inr (Value len, s\<lparr>kcon := console_write (map (\<lambda>b. char_of (unat b)) bs) (kcon s)\<rparr>)
    else Inr (Value (- 9), s))"
  using assms write_chars [of bs buf 0 s] by (simp add: sys_write_def task_access)

section \<open>Opening the console, and calls that are refused\<close>

text \<open>The comparison of \<^verbatim>\<open>open\<close> stops where the two strings differ, or at their common end.\<close>

lemma open_scan_string:
  "\<forall>a \<in> set c. a \<noteq> 0 \<Longrightarrow> (\<And>j. j < length w \<Longrightarrow> uget (path + of_nat (i + j)) v = Inr (w ! j) \<and> w ! j \<noteq> 0) \<Longrightarrow>
   uget (path + of_nat (i + length w)) v = Inr 0 \<Longrightarrow>
   \<exists>k b. open_scan (c @ [0]) path i v = Inr (i + k) \<and> uget (path + of_nat (i + k)) v = Inr b \<and> (b = 0 \<and> (c @ [0]) ! k = 0 \<longleftrightarrow> w = c)"
proof (induction c arbitrary: w i)
  case Nil
  show ?case
  proof (cases w)
    case (Cons a u)
    then show ?thesis using Nil.prems(2) [of 0] by (intro exI [of _ 0] exI [of _ a]) auto
  qed (use Nil.prems(3) in auto)
next
  case (Cons a c)
  show ?case
  proof (cases w)
    case Nil
    then show ?thesis using Cons.prems(1,3) by (intro exI [of _ 0] exI [of _ "0 :: u8"]) auto
  next
    case (Cons b u)
    have b: "uget (path + of_nat i) v = Inr b" "b \<noteq> 0" using Cons.prems(2) [of 0] \<open>w = b # u\<close> by auto
    have u: "uget (path + of_nat (Suc i + j)) v = Inr (u ! j) \<and> u ! j \<noteq> 0" if "j < length u" for j
      using Cons.prems(2) [of "Suc j"] \<open>w = b # u\<close> that by simp
    have "uget (path + of_nat (Suc i + length u)) v = Inr 0" using Cons.prems(3) \<open>w = b # u\<close> by simp
    from Cons.IH [OF _ u this] Cons.prems(1) obtain k d where
      k: "open_scan (c @ [0]) path (Suc i) v = Inr (Suc i + k)" "uget (path + of_nat (Suc i + k)) v = Inr d" "d = 0 \<and> (c @ [0]) ! k = 0 \<longleftrightarrow> u = c"
      by auto
    show ?thesis
    proof (cases "b = a")
      case True
      then show ?thesis using b k \<open>w = b # u\<close> by (intro exI [of _ "Suc k"] exI [of _ d]) auto
    next
      case False
      then show ?thesis using b \<open>w = b # u\<close> by (intro exI [of _ "0 :: nat"] exI [of _ b]) auto
    qed
  qed
qed

definition user_string :: "vaddr \<Rightarrow> u8 list \<Rightarrow> vmm \<Rightarrow> bool" where
  "user_string a w v \<longleftrightarrow> (\<forall>j < length w. uget (a + of_nat j) v = Inr (w ! j) \<and> w ! j \<noteq> 0) \<and> uget (a + of_nat (length w)) v = Inr 0"

lemma sys_open_string:
  assumes "tasks s t = Some x" "t \<noteq> 0" "user_string path w (kvm s)"
  shows "sys_open t path s = (if w = bytes_of ''/dev/console''
    then Inr (Value (word_of_int (fst (proc_fd_alloc FD_CONSOLE_IN x))), s\<lparr>tasks := (tasks s)(t \<mapsto> snd (proc_fd_alloc FD_CONSOLE_IN x))\<rparr>)
    else Inr (Value (- 2), s))"
proof -
  have "\<forall>a \<in> set (bytes_of ''/dev/console''). a \<noteq> 0" by (simp add: bytes_of_def of_char_def)
  from open_scan_string [OF this, of w path 0 "kvm s"] assms(3) obtain k b where
    k: "open_scan cons_path path 0 (kvm s) = Inr k" "uget (path + of_nat k) (kvm s) = Inr b"
      "b = 0 \<and> cons_path ! k = 0 \<longleftrightarrow> w = bytes_of ''/dev/console''"
    by (auto simp: user_string_def cons_path_def)
  then show ?thesis using assms(1,2) by (auto simp: sys_open_def task_access split: prod.split)
qed

text \<open>
  Claim C1. The console opens by its exact name only, and what is opened is for reading only. With a
  free descriptor, \<^verbatim>\<open>open("/dev/console")\<close> returns the lowest one, \<^verbatim>\<open>read\<close> accepts it, and \<^verbatim>\<open>write\<close> on it is
  refused with \<^verbatim>\<open>-EBADF\<close>, although a comment in the code says the console opens for reading and
  writing. Any other name gives \<^verbatim>\<open>-ENOENT\<close> and changes nothing.
\<close>

theorem open_console_read_only:
  assumes "tasks s t = Some x" "t \<noteq> 0" "fds_ok x" "k < 16" "in_use (t_fds x ! k) = 0" "\<forall>j < k. in_use (t_fds x ! j) \<noteq> 0"
    and "user_string path w (kvm s)"
  shows "if w = bytes_of ''/dev/console''
    then \<exists>s' x'. sys_open t path s = Inr (Value (of_nat k), s') \<and> tasks s' = (tasks s)(t \<mapsto> x') \<and>
      proc_fd_type (int k) x' = FD_CONSOLE_IN \<and> (\<forall>buf len. sys_write t (int k) buf len s' = Inr (Value (- 9), s'))
    else sys_open t path s = Inr (Value (- 2), s)"
proof -
  let ?x = "snd (proc_fd_alloc FD_CONSOLE_IN x)" and ?fd = "fst (proc_fd_alloc FD_CONSOLE_IN x)"
  have f: "\<not> (\<forall>j < 16. in_use (t_fds x ! j) \<noteq> 0)" using assms(4,5) by blast
  have ni: "FD_CONSOLE_IN \<noteq> FD_NONE" by (simp add: FD_CONSOLE_IN_def FD_NONE_def)
  have a: "0 \<le> ?fd" "?fd < 16" "proc_fd_type ?fd x = FD_NONE" "\<forall>j. 0 \<le> j \<and> j < ?fd \<longrightarrow> in_use (t_fds x ! nat j) \<noteq> 0" "proc_fd_type ?fd ?x = FD_CONSOLE_IN"
    using proc_fd_alloc_lowest [OF assms(3) ni, of ?fd ?x] f by auto
  have k: "?fd = int k"
  proof -
    have "\<not> int k < ?fd" using a(4) [rule_format, of "int k"] assms(5) by auto
    moreover have "\<not> ?fd < int k"
    proof
      assume "?fd < int k"
      then have "nat ?fd < k" using a(1) by linarith
      then have "in_use (t_fds x ! nat ?fd) \<noteq> 0" using assms(6) by blast
      then show False using a by (auto simp: proc_fd_alloc_def fd_scan_spec split: option.splits)
    qed
    ultimately show ?thesis by linarith
  qed
  let ?s = "s\<lparr>tasks := (tasks s)(t \<mapsto> ?x)\<rparr>"
  have "sys_write t (int k) buf len ?s = Inr (Value (- 9), ?s)" for buf len
    using a(5) k assms(2) by (simp add: sys_write_def task_access FD_CONSOLE_IN_def FD_CONSOLE_OUT_def)
  then show ?thesis using sys_open_string [OF assms(1,2,7)] k a(5) by auto
qed

text \<open>
  Claim C1. What the dispatcher refuses, it refuses without an effect: a descriptor of the wrong kind
  gives \<^verbatim>\<open>-EBADF\<close> for \<^verbatim>\<open>read\<close>, \<^verbatim>\<open>write\<close> and \<^verbatim>\<open>close\<close>, a name that is not the console gives \<^verbatim>\<open>-ENOENT\<close> for
  \<^verbatim>\<open>open\<close>, a number that is not a system call gives \<^verbatim>\<open>-ENOSYS\<close>, and the kernel state is the one before the call.
\<close>

theorem syscall_refuses:
  fixes s :: sysk and fr :: u64
  assumes "tasks (sk s) (current (sk s)) = Some x" "current (sk s) \<noteq> 0"
  defines "r \<equiv> f_regs (load_frame (hmem (kh (sk s))) fr)"
  shows "(r RAX = SYS_write \<and> proc_fd_type (arg_int (r RDI)) x \<noteq> FD_CONSOLE_OUT \<longrightarrow> syscall_dispatch im fr s = Some (Inr (Value (- 9), s))) \<and>
    (r RAX = SYS_read \<and> proc_fd_type (arg_int (r RDI)) x \<noteq> FD_CONSOLE_IN \<longrightarrow> syscall_dispatch im fr s = Some (Inr (Value (- 9), s))) \<and>
    (r RAX = SYS_close \<and> proc_fd_type (arg_int (r RDI)) x = FD_NONE \<longrightarrow> syscall_dispatch im fr s = Some (Inr (Value (- 9), s))) \<and>
    (r RAX = SYS_open \<and> user_string (r RDI) w (kvm (sk s)) \<and> w \<noteq> bytes_of ''/dev/console'' \<longrightarrow> syscall_dispatch im fr s = Some (Inr (Value (- 2), s))) \<and>
    (r RAX > SYS_wait4 \<longrightarrow> syscall_dispatch im fr s = Some (Inr (Value (- 38), s)))"
proof (intro conjI impI; (elim conjE)?)
  have same: "set_sk (sk s) s = s" by (simp add: set_sk_def)
  note d = syscall_dispatch_def Let_def task_current_def on_kern_def r_def [symmetric] task_access assms(1,2) same
  show "syscall_dispatch im fr s = Some (Inr (Value (- 9), s))"
    if "r RAX = SYS_write" "proc_fd_type (arg_int (r RDI)) x \<noteq> FD_CONSOLE_OUT"
    using that by (simp add: d sys_numbers sys_write_def)
  show "syscall_dispatch im fr s = Some (Inr (Value (- 9), s))"
    if "r RAX = SYS_read" "proc_fd_type (arg_int (r RDI)) x \<noteq> FD_CONSOLE_IN"
    using that by (simp add: d sys_numbers sys_read_def)
  show "syscall_dispatch im fr s = Some (Inr (Value (- 9), s))"
    if "r RAX = SYS_close" "proc_fd_type (arg_int (r RDI)) x = FD_NONE"
    using that by (simp add: d sys_numbers sys_close_def)
  show "syscall_dispatch im fr s = Some (Inr (Value (- 2), s))"
    if "r RAX = SYS_open" "user_string (r RDI) w (kvm (sk s))" "w \<noteq> bytes_of ''/dev/console''"
    using that sys_open_string [OF assms(1,2) that(2)] by (simp add: d sys_numbers)
  show "syscall_dispatch im fr s = Some (Inr (Value (- 38), s))" if "r RAX > SYS_wait4"
  proof -
    have "r RAX \<noteq> n" if "n \<le> SYS_wait4" for n using \<open>r RAX > SYS_wait4\<close> that by auto
    then show ?thesis by (simp add: d sys_numbers)
  qed
qed

section \<open>Examples\<close>

definition io_example :: "vmm \<Rightarrow> kern" where
  "io_example v = sched_example\<lparr>kh := heap_example\<lparr>hvm := v\<rparr>,
     tasks := [4096 \<mapsto> zero_task\<lparr>t_state := TASK_RUNNING, t_pid := 1, t_fds := stdio (t_fds zero_task)\<rparr>]\<rparr>"

lemma io_example_fields:
  "kvm (io_example v) = v" "kcon (io_example v) = console_example" "current (io_example v) = 4096"
  "tasks (io_example v) 4096 = Some (zero_task\<lparr>t_state := TASK_RUNNING, t_pid := 1, t_fds := stdio (t_fds zero_task)\<rparr>)"
  by (simp_all add: io_example_def sched_example_def kvm_def)

lemma stdio_types:
  "proc_fd_type 0 (x\<lparr>t_fds := stdio (t_fds zero_task)\<rparr>) = FD_CONSOLE_IN"
  "proc_fd_type 1 (x\<lparr>t_fds := stdio (t_fds zero_task)\<rparr>) = FD_CONSOLE_OUT"
  "proc_fd_type 7 (x\<lparr>t_fds := stdio (t_fds zero_task)\<rparr>) = FD_NONE"
  by (simp_all add: proc_fd_type_def stdio_def zero_task_def PROC_MAX_FDS_def)

theorem write_prints_witness:
  "sys_write 4096 1 0x400000 3 (io_example path_vmm) = Inr (Value 3, (io_example path_vmm)\<lparr>kcon := console_write ''/sh'' console_example\<rparr>) \<and>
   sys_write 4096 0 0x400000 3 (io_example path_vmm) = Inr (Value (- 9), io_example path_vmm)"
proof -
  have b: "\<forall>j < length [0x2F, 0x73, 0x68 :: u8]. uget (0x400000 + of_nat j) (kvm (io_example path_vmm)) = Inr ([0x2F, 0x73, 0x68] ! j)"
    by (auto simp: less_Suc_eq io_example_fields path_vmm_bytes)
  have t: "map (\<lambda>b. char_of (unat b)) [0x2F, 0x73, 0x68 :: u8] = ''/sh''" by (simp add: char_of_def bit_0)
  show ?thesis
    using write_prints [OF io_example_fields(4) _ b, of 3 0] write_prints [OF io_example_fields(4) _ b, of 3 1]
    unfolding stdio_types t by (simp add: io_example_fields FD_CONSOLE_IN_def FD_CONSOLE_OUT_def)
qed

text \<open>The name of the console in the code page of the example space.\<close>

definition open_vmm :: vmm where
  "open_vmm = vmm_example\<lparr>mem := (mem vmm_example)(0xC000 := (\<lambda>_. 0)(0 := 0x6E6F632F7665642F, 1 := 0x656C6F73))\<rparr>"

lemma open_vmm_name: "user_string 0x400000 (bytes_of ''/dev/console'') open_vmm"
proof -
  have "cr3 vmm_example = 0x8000" by (simp add: vmm_example_def)
  then have "user_frame open_vmm 0x400000 0xC000"
    using frame_write(3) [of "0xC000" vmm_example] vmm_example_code_page by (simp add: open_vmm_def)
  from user_access(1) [OF this] have u: "uget (0x400000 + of_nat k) open_vmm = Inr (frame_byte (mem open_vmm 0xC000) k)" if "k < 4096" for k
    using that by (simp add: mask_eq_exp_minus_1)
  have b: "bytes_of ''/dev/console'' = [0x2F, 0x64, 0x65, 0x76, 0x2F, 0x63, 0x6F, 0x6E, 0x73, 0x6F, 0x6C, 0x65]"
    by (simp add: bytes_of_def of_char_def)
  have "frame_byte (mem open_vmm 0xC000) j = (bytes_of ''/dev/console'' @ [0]) ! j" if "j < 13" for j
  proof -
    have "j = 0 \<or> j = 1 \<or> j = 2 \<or> j = 3 \<or> j = 4 \<or> j = 5 \<or> j = 6 \<or> j = 7 \<or> j = 8 \<or> j = 9 \<or> j = 10 \<or> j = 11 \<or> j = 12"
      using that by presburger
    then show ?thesis unfolding b by (auto simp: frame_byte_def open_vmm_def drop_bit_eq_div)
  qed
  then have g: "uget (0x400000 + of_nat j) open_vmm = Inr ((bytes_of ''/dev/console'' @ [0]) ! j)" if "j < 13" for j using u that by simp
  have l: "length (bytes_of ''/dev/console'') = 12" by (simp add: bytes_of_def)
  have "0 \<notin> set (bytes_of ''/dev/console'')" unfolding b by simp
  then have "\<forall>j < 12. bytes_of ''/dev/console'' ! j \<noteq> 0" using l by (metis nth_mem)
  then show ?thesis using g [of 12] g l by (simp add: user_string_def nth_append)
qed

theorem open_console_read_only_witness:
  "\<exists>s' x'. sys_open 4096 0x400000 (io_example open_vmm) = Inr (Value 3, s') \<and> tasks s' 4096 = Some x' \<and>
    proc_fd_type 3 x' = FD_CONSOLE_IN \<and> sys_write 4096 3 0x400000 5 s' = Inr (Value (- 9), s')"
proof -
  let ?x = "zero_task\<lparr>t_state := TASK_RUNNING, t_pid := 1, t_fds := stdio (t_fds zero_task)\<rparr>"
  have f: "fds_ok ?x" by (simp add: fds_ok_def stdio_def zero_task_def)
  have "in_use (t_fds ?x ! 0) \<noteq> 0" "in_use (t_fds ?x ! 1) \<noteq> 0" "in_use (t_fds ?x ! 2) \<noteq> 0" "in_use (t_fds ?x ! 3) = 0"
    by (simp_all add: stdio_def zero_task_def PROC_MAX_FDS_def)
  then have u: "in_use (t_fds ?x ! 3) = 0" "\<forall>j < 3. in_use (t_fds ?x ! j) \<noteq> 0"
    by (simp_all only: numeral_3_eq_3 numeral_2_eq_2 One_nat_def All_less_Suc simp_thms not_less0)
  have n: "user_string 0x400000 (bytes_of ''/dev/console'') (kvm (io_example open_vmm))" using open_vmm_name by (simp add: io_example_fields)
  from open_console_read_only [OF io_example_fields(4) _ f _ u n] show ?thesis by fastforce
qed

theorem syscall_refuses_witness:
  "\<forall>im f b y. syscall_dispatch im 0x8000 \<lparr>sfs = \<lparr>fk = (io_example vmm_example)\<lparr>kh := (kh (io_example vmm_example))\<lparr>hmem := put64 0x8000 77 (\<lambda>_. 0)\<rparr>\<rparr>, fs = f, blk = b\<rparr>, stty = y\<rparr> =
    Some (Inr (Value (- 38), \<lparr>sfs = \<lparr>fk = (io_example vmm_example)\<lparr>kh := (kh (io_example vmm_example))\<lparr>hmem := put64 0x8000 77 (\<lambda>_. 0)\<rparr>\<rparr>, fs = f, blk = b\<rparr>, stty = y\<rparr>))"
proof (intro allI)
  fix im f b y
  let ?s = "\<lparr>sfs = \<lparr>fk = (io_example vmm_example)\<lparr>kh := (kh (io_example vmm_example))\<lparr>hmem := put64 0x8000 77 (\<lambda>_. 0)\<rparr>\<rparr>, fs = f, blk = b\<rparr>, stty = y\<rparr>"
  let ?x = "zero_task\<lparr>t_state := TASK_RUNNING, t_pid := 1, t_fds := stdio (t_fds zero_task)\<rparr>"
  have "tasks (sk ?s) (current (sk ?s)) = Some ?x" "current (sk ?s) \<noteq> 0" by (simp_all add: io_example_fields)
  from syscall_refuses [OF this, of "0x8000" im] show "syscall_dispatch im 0x8000 ?s = Some (Inr (Value (- 38), ?s))"
    by (simp add: load_frame_def sys_numbers)
qed

end
