(* ===== verification/Spec2Isabelle.thy ===== *)
theory Spec2Isabelle
  imports Lib Console Kprintf Boot Pmm Vmm_Spaces Sched Tty Uixfs Idt Apic Syscall
begin

text \<open>
  A verification of the UIX kernel.
\<close>

end
